(* ===== verification/Afina_Prelude.thy ===== *)
theory Afina_Prelude
  imports Main "HOL-Library.Word" "HOL-Library.Monad_Syntax"
begin

text \<open>
  Shared vocabulary of the development: the widths of the C++ integer types the server uses,
  the theorem collections the component theories fill, and generic facts about lists,
  association lists and words that more than one component needs.

  A computation with a possibly undefined outcome has type \<open>'a option\<close>: \<open>None\<close> stands for
  "no defined outcome" (a null or dangling pointer is dereferenced, a node is freed twice, or
  the call never returns), \<open>Some\<close> for a normal return.
\<close>

section \<open>Integer types\<close>

type_synonym size_t = "64 word"
type_synonym u32 = "32 word"
type_synonym i32 = "32 word"

section \<open>Theorem collections\<close>

named_theorems heap_simps "rules that run the pointer primitives of the LRU list"
named_theorems cache_simps "facts about the abstract cache operations"
named_theorems parser_simps "one-step unfoldings of the protocol parser"

section \<open>Options\<close>

lemma bind_eq_Some_conv: "(m \<bind> f) = Some y \<longleftrightarrow> (\<exists>x. m = Some x \<and> f x = Some y)"
  by (cases m) auto

section \<open>Association lists\<close>

lemma map_of_filter_neq: "map_of (filter (\<lambda>e. fst e \<noteq> k) xs) = (map_of xs)(k := None)"
  by (induction xs) auto

lemma map_of_eq_None_filter: "map_of xs k = None \<Longrightarrow> filter (\<lambda>e. fst e \<noteq> k) xs = xs"
  by (auto simp: map_of_eq_None_iff intro: filter_True)

lemma filter_id_neq: "k \<notin> fst ` set xs \<Longrightarrow> filter (\<lambda>e. fst e \<noteq> k) xs = xs"
  by (auto intro: filter_True)

lemma map_of_prefix: "map_of xs k = Some v \<Longrightarrow> map_of (xs @ ys) k = Some v"
  by (auto simp: map_add_Some_iff)

section \<open>Counting\<close>

definition count_if :: "('a \<Rightarrow> bool) \<Rightarrow> 'a list \<Rightarrow> nat" where
  "count_if P xs = length (filter P xs)"

lemma count_if_simps [simp]:
  "count_if P [] = 0" "count_if P (x # xs) = (if P x then 1 else 0) + count_if P xs"
  "count_if P (xs @ ys) = count_if P xs + count_if P ys"
  "count_if P (replicate n x) = (if P x then n else 0)"
  by (simp_all add: count_if_def)

lemma count_if_update:
  "i < length xs \<Longrightarrow> count_if P (xs[i := y]) + (if P (xs ! i) then 1 else 0) = count_if P xs + (if P y then 1 else 0)"
proof (induction xs arbitrary: i)
  case (Cons x xs)
  then show ?case by (cases i) auto
qed simp

lemma count_if_mono: "(\<And>x. P x \<Longrightarrow> Q x) \<Longrightarrow> count_if P xs \<le> count_if Q xs"
  by (induction xs) auto

lemma count_if_pos: "i < length xs \<Longrightarrow> P (xs ! i) \<Longrightarrow> 0 < count_if P xs"
  by (auto simp: count_if_def length_greater_0_conv filter_empty_conv)

section \<open>Words\<close>

text \<open>
  A \<open>size_t\<close> that went through a signed 64-bit variable keeps its bits.
\<close>

lemma of_int_sint_id: "(of_int (sint w) :: 'a::len word) = w"
  by simp

text \<open>
  \<open>in_size_t n\<close>: the number \<open>n\<close> is the value of a \<open>size_t\<close>, so nothing wraps on the way there.
\<close>

definition in_size_t :: "nat \<Rightarrow> bool" where
  "in_size_t n \<longleftrightarrow> n < 2 ^ 64"

lemma in_size_t_unat [simp]: "in_size_t (unat (w :: size_t))"
  using unsigned_less [of w, where 'a = nat] by (simp add: in_size_t_def)

lemma in_size_t_le: "in_size_t n \<Longrightarrow> m \<le> n \<Longrightarrow> in_size_t m"
  by (simp add: in_size_t_def)

lemma unat_of_nat_small: "in_size_t n \<Longrightarrow> unat (of_nat n :: size_t) = n"
  by (simp add: in_size_t_def unat_of_nat take_bit_nat_eq_self)

lemma u32_of_nat: "n < 2 ^ 32 \<Longrightarrow> unat (of_nat n :: u32) = n"
  by (simp add: unat_of_nat take_bit_nat_eq_self)

lemma of_nat_eq_zero_size_t: "in_size_t n \<Longrightarrow> (of_nat n :: size_t) = 0 \<longleftrightarrow> n = 0"
proof
  assume n: "in_size_t n" and eq: "(of_nat n :: size_t) = 0"
  from unat_of_nat_small [OF n] show "n = 0" unfolding eq by simp
qed simp

lemma word_less_of_nat: "in_size_t n \<Longrightarrow> (w :: size_t) < of_nat n \<longleftrightarrow> unat w < n"
  by (simp add: word_less_nat_alt unat_of_nat_small)

lemma of_nat_less_word: "in_size_t n \<Longrightarrow> of_nat n < (w :: size_t) \<longleftrightarrow> n < unat w"
  by (simp add: word_less_nat_alt unat_of_nat_small)

lemma unat_minus_of_nat: "n \<le> unat (w :: size_t) \<Longrightarrow> unat (w - of_nat n) = unat w - n"
proof -
  assume le: "n \<le> unat w"
  then have n: "in_size_t n" by (rule in_size_t_le [OF in_size_t_unat])
  with le have "of_nat n \<le> w" by (simp add: word_le_nat_alt unat_of_nat_small)
  then show ?thesis using n by (simp add: unat_sub unat_of_nat_small)
qed

lemma unat_plus_of_nat:
  assumes "in_size_t (unat (w :: size_t) + n)"
  shows "unat (w + of_nat n) = unat w + n"
proof -
  have "w + of_nat n = of_nat (unat w + n)" by simp
  then show ?thesis using unat_of_nat_small [OF assms] by metis
qed

end
