(* ===== verification/Cache_Spec.thy ===== *)
theory Cache_Spec
  imports Afina_Prelude
begin

text \<open>
  The abstract specification of the storage: a cache is the list of its associations, the
  most recently used one first, and a capacity in bytes. Nothing here is code of the
  repository; \<open>Simple_LRU\<close> proves that the pointer program of \<open>src/storage/SimpleLRU.cpp\<close>
  computes exactly these operations wherever it has a defined outcome.
\<close>

section \<open>The abstract cache\<close>

type_synonym cache = "(string \<times> string) list"

definition entry_size :: "string \<Rightarrow> string \<Rightarrow> nat" where
  "entry_size k v = length k + length v"

definition cache_size :: "cache \<Rightarrow> nat" where
  "cache_size xs = (\<Sum>(k, v) \<leftarrow> xs. entry_size k v)"

text \<open>Room is made by dropping associations from the least recently used end.\<close>

fun evict_to :: "nat \<Rightarrow> nat \<Rightarrow> cache \<Rightarrow> cache" where
  "evict_to cap need xs =
     (if xs \<noteq> [] \<and> cap < cache_size xs + need then evict_to cap need (butlast xs) else xs)"

declare evict_to.simps [simp del]

definition drop_key :: "string \<Rightarrow> cache \<Rightarrow> cache" where
  "drop_key k xs = filter (\<lambda>e. fst e \<noteq> k) xs"

definition touch :: "string \<Rightarrow> cache \<Rightarrow> cache" where
  "touch k xs = (case map_of xs k of None \<Rightarrow> xs | Some v \<Rightarrow> (k, v) # drop_key k xs)"

definition cache_store :: "nat \<Rightarrow> string \<Rightarrow> string \<Rightarrow> cache \<Rightarrow> bool \<times> cache" where
  "cache_store cap k v xs =
     (if cap < entry_size k v then (False, touch k xs)
      else (True, (k, v) # evict_to cap (entry_size k v) (drop_key k xs)))"

definition cache_add :: "nat \<Rightarrow> string \<Rightarrow> string \<Rightarrow> cache \<Rightarrow> bool \<times> cache" where
  "cache_add cap k v xs = (if map_of xs k = None then cache_store cap k v xs else (False, xs))"

definition cache_update :: "nat \<Rightarrow> string \<Rightarrow> string \<Rightarrow> cache \<Rightarrow> bool \<times> cache" where
  "cache_update cap k v xs = (if map_of xs k = None then (False, xs) else cache_store cap k v xs)"

definition cache_remove :: "string \<Rightarrow> cache \<Rightarrow> bool \<times> cache" where
  "cache_remove k xs = (map_of xs k \<noteq> None, drop_key k xs)"

definition cache_get :: "string \<Rightarrow> cache \<Rightarrow> string option \<times> cache" where
  "cache_get k xs = (map_of xs k, touch k xs)"

section \<open>Sizes\<close>

lemma cache_size_Nil [simp]: "cache_size [] = 0"
  by (simp add: cache_size_def)

lemma cache_size_Cons [simp]: "cache_size ((k, v) # xs) = entry_size k v + cache_size xs"
  by (simp add: cache_size_def)

lemma cache_size_append [simp]: "cache_size (xs @ ys) = cache_size xs + cache_size ys"
  by (simp add: cache_size_def)

lemma cache_size_filter: "cache_size (filter P xs) \<le> cache_size xs"
  by (induction xs) (auto simp: cache_size_def)

lemma cache_size_drop_key: "cache_size (drop_key k xs) \<le> cache_size xs"
  by (simp add: drop_key_def cache_size_filter)

lemma drop_key_Nil [simp]: "drop_key k [] = []"
  by (simp add: drop_key_def)

lemma drop_key_append [simp]: "drop_key k (xs @ ys) = drop_key k xs @ drop_key k ys"
  by (simp add: drop_key_def)

lemma drop_key_Cons [simp]:
  "drop_key k ((k', v) # xs) = (if k' = k then drop_key k xs else (k', v) # drop_key k xs)"
  by (simp add: drop_key_def)

lemma drop_key_id: "k \<notin> fst ` set xs \<Longrightarrow> drop_key k xs = xs"
  unfolding drop_key_def by (rule filter_id_neq)

lemma map_of_drop_key: "map_of (drop_key k xs) = (map_of xs)(k := None)"
  by (simp add: drop_key_def map_of_filter_neq)

lemma set_drop_key: "set (drop_key k xs) = {e \<in> set xs. fst e \<noteq> k}"
  by (auto simp: drop_key_def)

lemma distinct_drop_key: "distinct (map fst xs) \<Longrightarrow> distinct (map fst (drop_key k xs))"
  by (simp add: drop_key_def distinct_map_filter)

lemma cache_size_split:
  "distinct (map fst xs) \<Longrightarrow> map_of xs k = Some v \<Longrightarrow>
     cache_size xs = entry_size k v + cache_size (drop_key k xs)"
proof (induction xs)
  case (Cons e xs)
  obtain k' v' where [simp]: "e = (k', v')" by (cases e)
  show ?case
  proof (cases "k' = k")
    case True
    with Cons.prems have "v' = v" "k \<notin> fst ` set xs" by auto
    with True show ?thesis by (simp add: drop_key_id)
  next
    case False
    with Cons show ?thesis by simp
  qed
qed simp

section \<open>Eviction\<close>

lemma evict_to_fits: "cache_size xs + need \<le> cap \<Longrightarrow> evict_to cap need xs = xs"
  by (subst evict_to.simps) simp

lemma evict_to_Nil [simp]: "evict_to cap need [] = []"
  by (subst evict_to.simps) simp

lemma evict_to_snoc:
  "cap < cache_size (xs @ [e]) + need \<Longrightarrow> evict_to cap need (xs @ [e]) = evict_to cap need xs"
  by (subst evict_to.simps) simp

lemma evict_to_prefix: "\<exists>ys. xs = evict_to cap need xs @ ys"
proof (induction xs rule: rev_induct)
  case (snoc e xs)
  show ?case
  proof (cases "cap < cache_size (xs @ [e]) + need")
    case True
    from snoc obtain ys where "xs = evict_to cap need xs @ ys" by blast
    then have "xs @ [e] = evict_to cap need xs @ (ys @ [e])" by simp
    with True show ?thesis by (metis evict_to_snoc)
  next
    case False
    then show ?thesis by (simp add: evict_to_fits)
  qed
qed simp

lemma set_evict_to: "set (evict_to cap need xs) \<subseteq> set xs"
  using evict_to_prefix [of xs cap need] by (metis set_append Un_upper1)

lemma distinct_evict_to: "distinct (map fst xs) \<Longrightarrow> distinct (map fst (evict_to cap need xs))"
  using evict_to_prefix [of xs cap need] by (metis distinct_append map_append)

lemma evict_to_bound: "need \<le> cap \<Longrightarrow> cache_size (evict_to cap need xs) + need \<le> cap"
proof (induction xs rule: rev_induct)
  case (snoc e xs)
  then show ?case
    by (cases "cap < cache_size (xs @ [e]) + need") (auto simp: evict_to_snoc evict_to_fits)
qed simp

text \<open>Eviction is maximal: keeping one more association would not leave room.\<close>

lemma evict_to_maximal:
  assumes "xs = evict_to cap need xs @ e # ys"
  shows "cap < cache_size (evict_to cap need xs @ [e]) + need"
  using assms
proof (induction xs arbitrary: e ys rule: rev_induct)
  case (snoc f xs)
  show ?case
  proof (cases "cap < cache_size (xs @ [f]) + need")
    case True
    then have ev: "evict_to cap need (xs @ [f]) = evict_to cap need xs" by (rule evict_to_snoc)
    show ?thesis
    proof (cases ys rule: rev_cases)
      case Nil
      with snoc.prems ev have "xs = evict_to cap need xs \<and> e = f" by simp
      with True ev show ?thesis by simp
    next
      case (snoc ys' g)
      with snoc.prems ev have "xs = evict_to cap need xs @ e # ys'" by simp
      with snoc.IH ev show ?thesis by simp
    qed
  next
    case False
    then have "evict_to cap need (xs @ [f]) = xs @ [f]" by (simp add: evict_to_fits)
    with snoc.prems show ?thesis by simp
  qed
qed simp

text \<open>The first association stays when it fits beside what is needed.\<close>

lemma evict_to_Cons:
  assumes "need + entry_size k v \<le> cap"
  shows "evict_to cap need ((k, v) # xs) = (k, v) # evict_to cap (need + entry_size k v) xs"
proof (induction xs rule: rev_induct)
  case Nil
  then show ?case using assms by (simp add: evict_to_fits)
next
  case (snoc e xs)
  show ?case
  proof (cases "cap < cache_size (xs @ [e]) + (need + entry_size k v)")
    case True
    then have "evict_to cap need (((k, v) # xs) @ [e]) = evict_to cap need ((k, v) # xs)"
      by (intro evict_to_snoc) simp
    with True snoc show ?thesis by (simp add: evict_to_snoc)
  next
    case False
    then show ?thesis by (simp add: evict_to_fits)
  qed
qed

section \<open>The operations keep a cache well formed\<close>

definition cache_wf :: "nat \<Rightarrow> cache \<Rightarrow> bool" where
  "cache_wf cap xs \<longleftrightarrow> distinct (map fst xs) \<and> cache_size xs \<le> cap"

lemma touch_wf: "cache_wf cap xs \<Longrightarrow> cache_wf cap (touch k xs)"
  by (auto simp: cache_wf_def touch_def distinct_drop_key cache_size_split set_drop_key
      split: option.splits)

lemma map_of_touch: "map_of (touch k xs) = map_of xs"
  by (auto simp: touch_def map_of_drop_key split: option.splits)

lemma cache_store_wf: "cache_wf cap xs \<Longrightarrow> cache_wf cap (snd (cache_store cap k v xs))"
proof -
  assume wf: "cache_wf cap xs"
  have "k \<notin> fst ` set (evict_to cap (entry_size k v) (drop_key k xs))"
    using set_evict_to [of cap "entry_size k v" "drop_key k xs"] by (auto simp: set_drop_key)
  with wf evict_to_bound [of "entry_size k v" cap "drop_key k xs"] show ?thesis
    by (auto simp: cache_store_def touch_wf cache_wf_def distinct_evict_to distinct_drop_key)
      (metis (no_types, lifting) cache_wf_def touch_wf)+
qed

lemma cache_store_touch: "cache_store cap k v (touch k xs) = cache_store cap k v xs"
proof -
  have "drop_key k (touch k xs) = drop_key k xs" "touch k (touch k xs) = touch k xs"
    by (auto simp: touch_def map_of_drop_key drop_key_def split: option.splits)
  then show ?thesis by (simp add: cache_store_def)
qed

text \<open>\<open>no_shrink\<close>: storing \<open>v\<close> under \<open>k\<close> does not replace a longer value.\<close>

definition no_shrink :: "nat \<Rightarrow> string \<Rightarrow> string \<Rightarrow> cache \<Rightarrow> bool" where
  "no_shrink cap k v xs \<longleftrightarrow>
     (case map_of xs k of None \<Rightarrow> True
      | Some old \<Rightarrow> length old \<le> length v \<or> cap < entry_size k v)"

text \<open>The equations that evaluate the abstract cache on concrete associations.\<close>

lemmas cache_eval = cache_store_def cache_add_def cache_update_def cache_remove_def cache_get_def
  touch_def drop_key_def entry_size_def cache_size_def no_shrink_def evict_to.simps

end
