(* ===== verification/Lru_Heap.thy ===== *)
theory Lru_Heap
  imports Cache_Spec
begin

text \<open>
  The memory of \<open>SimpleLRU\<close> (\<open>src/storage/SimpleLRU.h\<close>): list nodes on an explicit heap,
  the members of the class as a record, and the pointer primitives the code is built from.

  A raw pointer or a \<open>unique_ptr\<close> is an \<open>addr option\<close>, \<open>None\<close> for \<open>nullptr\<close>. Every access
  goes through \<open>get_node\<close> and \<open>upd_node\<close>, which have no outcome on a null or dangling
  pointer. Assigning to a \<open>unique_ptr\<close> destroys the node it owned before, and with it
  everything that node owns (\<open>destroy\<close>).
\<close>

section \<open>State\<close>

type_synonym addr = nat

record lru_node =
  node_key :: string
  node_value :: string
  node_next :: "addr option"
  node_prev :: "addr option"

type_synonym heap = "addr \<rightharpoonup> lru_node"

text \<open>
  The members of the class, and the memory: \<open>nodes\<close> holds the live nodes, \<open>brk\<close> is an
  address above every node ever allocated, the one the next \<open>new lru_node\<close> returns. The
  index maps the text of a key to its node; the C++ map holds references to the key inside
  the node, which is \<open>const\<close>.
\<close>

record simple_lru =
  max_size :: size_t
  free_size :: size_t
  lru_head :: "addr option"
  lru_tail :: "addr option"
  lru_index :: "string \<rightharpoonup> addr"
  nodes :: heap
  brk :: addr

definition SimpleLRU :: "size_t \<Rightarrow> simple_lru" where
  "SimpleLRU n = \<lparr>max_size = n, free_size = n, lru_head = None, lru_tail = None,
     lru_index = Map.empty, nodes = Map.empty, brk = 0\<rparr>"

section \<open>Pointer primitives\<close>

definition get_node :: "addr option \<Rightarrow> simple_lru \<Rightarrow> lru_node option" where
  "get_node p s = (case p of None \<Rightarrow> None | Some a \<Rightarrow> nodes s a)"

definition upd_node :: "addr option \<Rightarrow> (lru_node \<Rightarrow> lru_node) \<Rightarrow> simple_lru \<Rightarrow> simple_lru option" where
  "upd_node p f s = (case p of None \<Rightarrow> None
     | Some a \<Rightarrow> (case nodes s a of None \<Rightarrow> None | Some n \<Rightarrow> Some (s\<lparr>nodes := (nodes s)(a \<mapsto> f n)\<rparr>)))"

text \<open>\<open>delete\<close> of a node: its \<open>next\<close> member is destroyed with it.\<close>

partial_function (option) destroy :: "addr option \<Rightarrow> simple_lru \<Rightarrow> simple_lru option" where
  "destroy p s = (case p of None \<Rightarrow> Some s
     | Some a \<Rightarrow> (case nodes s a of None \<Rightarrow> None
        | Some n \<Rightarrow> destroy (node_next n) (s\<lparr>nodes := (nodes s)(a := None)\<rparr>)))"

text \<open>\<open>p->next.reset(v)\<close>, and the move assignment \<open>p->next = std::move(v)\<close>.\<close>

definition reset_next :: "addr option \<Rightarrow> addr option \<Rightarrow> simple_lru \<Rightarrow> simple_lru option" where
  "reset_next p v s = do {
     n \<leftarrow> get_node p s;
     s \<leftarrow> upd_node p (\<lambda>m. m\<lparr>node_next := v\<rparr>) s;
     destroy (node_next n) s }"

text \<open>\<open>_lru_head.reset(v)\<close>, and the move assignment \<open>_lru_head = std::move(v)\<close>.\<close>

definition reset_head :: "addr option \<Rightarrow> simple_lru \<Rightarrow> simple_lru option" where
  "reset_head v s = destroy (lru_head s) (s\<lparr>lru_head := v\<rparr>)"

text \<open>\<open>p->next.release()\<close>: the owner forgets the node without destroying it.\<close>

definition release_next :: "addr option \<Rightarrow> simple_lru \<Rightarrow> (addr option \<times> simple_lru) option" where
  "release_next p s = do {
     n \<leftarrow> get_node p s;
     s \<leftarrow> upd_node p (\<lambda>m. m\<lparr>node_next := None\<rparr>) s;
     Some (node_next n, s) }"

definition release_head :: "simple_lru \<Rightarrow> addr option \<times> simple_lru" where
  "release_head s = (lru_head s, s\<lparr>lru_head := None\<rparr>)"

definition set_prev :: "addr option \<Rightarrow> addr option \<Rightarrow> simple_lru \<Rightarrow> simple_lru option" where
  "set_prev p v s = upd_node p (\<lambda>m. m\<lparr>node_prev := v\<rparr>) s"

definition new_node :: "string \<Rightarrow> string \<Rightarrow> simple_lru \<Rightarrow> addr \<times> simple_lru" where
  "new_node k v s = (brk s,
     s\<lparr>nodes := (nodes s)(brk s \<mapsto> \<lparr>node_key = k, node_value = v, node_next = None, node_prev = None\<rparr>),
       brk := Suc (brk s)\<rparr>)"

definition node_size :: "string \<Rightarrow> string \<Rightarrow> size_t" where
  "node_size k v = of_nat (length k) + of_nat (length v)"

lemma get_node_simps [simp]: "get_node None s = None" "get_node (Some a) s = nodes s a"
  by (simp_all add: get_node_def)

lemma destroy_None [simp]: "destroy None s = Some s"
  by (simp add: destroy.simps)

lemma destroy_Some:
  "nodes s a = Some n \<Longrightarrow> destroy (Some a) s = destroy (node_next n) (s\<lparr>nodes := (nodes s)(a := None)\<rparr>)"
  by (simp add: destroy.simps)

lemmas pointer_defs = upd_node_def reset_next_def reset_head_def release_next_def
  release_head_def set_prev_def

section \<open>Doubly linked segments\<close>

text \<open>
  \<open>dlseg h p cs q\<close>: the cells \<open>cs\<close> (address, key, value) lie on the heap in this order, the
  first one pointing back to \<open>p\<close> and the last one pointing forward to \<open>q\<close>.
\<close>

type_synonym cell = "addr \<times> string \<times> string"

definition first_of :: "cell list \<Rightarrow> addr option \<Rightarrow> addr option" where
  "first_of cs q = (case cs of [] \<Rightarrow> q | c # _ \<Rightarrow> Some (fst c))"

definition last_of :: "addr option \<Rightarrow> cell list \<Rightarrow> addr option" where
  "last_of p cs = (if cs = [] then p else Some (fst (last cs)))"

fun dlseg :: "heap \<Rightarrow> addr option \<Rightarrow> cell list \<Rightarrow> addr option \<Rightarrow> bool" where
  "dlseg h p [] q = True"
| "dlseg h p ((a, k, v) # cs) q =
     (h a = Some \<lparr>node_key = k, node_value = v, node_next = first_of cs q, node_prev = p\<rparr>
      \<and> dlseg h (Some a) cs q)"

lemma first_of_simps [simp]:
  "first_of [] q = q" "first_of (c # cs) q = Some (fst c)"
  "first_of (cs @ ds) q = first_of cs (first_of ds q)"
  by (auto simp: first_of_def split: list.splits)

lemma last_of_simps [simp]:
  "last_of p [] = p" "last_of p (c # cs) = last_of (Some (fst c)) cs"
  "last_of p (cs @ ds) = last_of (last_of p cs) ds"
  by (auto simp: last_of_def)

lemma dlseg_append [simp]:
  "dlseg h p (cs @ ds) q \<longleftrightarrow> dlseg h p cs (first_of ds q) \<and> dlseg h (last_of p cs) ds q"
  by (induction h p cs q rule: dlseg.induct) auto

lemma dlseg_frame [simp]: "a \<notin> fst ` set cs \<Longrightarrow> dlseg (h(a := x)) p cs q = dlseg h p cs q"
  by (induction h p cs q rule: dlseg.induct) auto

lemma first_of_None_iff: "first_of cs None = None \<longleftrightarrow> cs = []"
  by (cases cs) auto

section \<open>The representation invariant\<close>

text \<open>
  \<open>lru_rep s cs\<close>: the object \<open>s\<close> represents the cells \<open>cs\<close>, most recently used first. The
  list from \<open>_lru_head\<close> is doubly linked and ends at \<open>_lru_tail\<close>, it owns every live node,
  the index maps exactly the keys of the list to their nodes, and the free bytes are what
  the stored keys and values leave of \<open>_max_size\<close>.
\<close>

definition cell_index :: "cell list \<Rightarrow> string \<rightharpoonup> addr" where
  "cell_index cs = map_of (map (\<lambda>(a, k, v). (k, a)) cs)"

definition lru_rep :: "simple_lru \<Rightarrow> cell list \<Rightarrow> bool" where
  "lru_rep s cs \<longleftrightarrow>
     distinct (map fst cs) \<and> distinct (map (fst \<circ> snd) cs) \<and>
     dlseg (nodes s) None cs None \<and>
     lru_head s = first_of cs None \<and> lru_tail s = last_of None cs \<and>
     dom (nodes s) = fst ` set cs \<and> (\<forall>a \<in> fst ` set cs. a < brk s) \<and>
     lru_index s = cell_index cs \<and>
     unat (free_size s) + cache_size (map snd cs) = unat (max_size s)"

definition represents :: "simple_lru \<Rightarrow> cache \<Rightarrow> bool" where
  "represents s xs \<longleftrightarrow> (\<exists>cs. lru_rep s cs \<and> xs = map snd cs)"

lemma cell_index_Nil [simp]: "cell_index [] = Map.empty"
  by (simp add: cell_index_def)

lemma cell_index_Cons [simp]: "cell_index ((a, k, v) # cs) = (cell_index cs)(k \<mapsto> a)"
  by (simp add: cell_index_def)

lemma cell_index_append [simp]: "cell_index (cs @ ds) = cell_index ds ++ cell_index cs"
  by (simp add: cell_index_def)

lemma dom_cell_index: "dom (cell_index cs) = (fst \<circ> snd) ` set cs"
  unfolding cell_index_def dom_map_of_conv_image_fst by (force simp: image_iff)

lemma cell_index_None: "cell_index cs k = None \<longleftrightarrow> k \<notin> (fst \<circ> snd) ` set cs"
  using dom_cell_index [of cs] by (auto simp: domIff)

lemma cell_index_None_map_of: "cell_index cs k = None \<longleftrightarrow> map_of (map snd cs) k = None"
  by (auto simp: cell_index_None map_of_eq_None_iff image_comp)

lemma cell_index_SomeE:
  assumes "cell_index cs k = Some a"
  obtains ds v es where "cs = ds @ (a, k, v) # es"
proof -
  from assms have "(k, a) \<in> set (map (\<lambda>(a, k, v). (k, a)) cs)"
    unfolding cell_index_def by (rule map_of_SomeD)
  then obtain v where "(a, k, v) \<in> set cs" by auto
  then show ?thesis using that by (metis split_list)
qed

lemma represents_new: "represents (SimpleLRU n) []"
  by (auto simp: represents_def lru_rep_def SimpleLRU_def)

lemma represents_wf: "represents s xs \<Longrightarrow> cache_wf (unat (max_size s)) xs"
  by (auto simp: represents_def lru_rep_def cache_wf_def image_comp simp flip: map_map)

lemma last_of_not_None [simp]: "last_of (Some a) cs \<noteq> None" "\<exists>y. last_of (Some a) cs = Some y"
  by (auto simp: last_of_def)

lemma cells_cases:
  obtains "cs = []" | a k v ds where "cs = (a, k, v) # (ds :: cell list)"
  by (cases cs) auto

lemma cells_rev_cases:
  obtains "cs = []" | a k v ds where "cs = (ds :: cell list) @ [(a, k, v)]"
  by (cases cs rule: rev_cases) auto

lemma node_size_entry: "node_size k v = of_nat (entry_size k v)"
  by (simp add: node_size_def entry_size_def)

lemma destroy_leaf [simp]:
  "nodes s a = Some n \<Longrightarrow> node_next n = None \<Longrightarrow> destroy (Some a) s = Some (s\<lparr>nodes := (nodes s)(a := None)\<rparr>)"
  by (simp add: destroy_Some)

lemma cell_index_split:
  assumes "distinct (map (fst \<circ> snd) (cs @ (a, k, v) # ds))"
  shows "cell_index (cs @ (a, k, v) # ds) k = Some a"
    and "(cell_index (cs @ (a, k, v) # ds))(k := None) = cell_index (cs @ ds)"
    and "cell_index (cs @ (a, k, v) # ds) = cell_index ((a, k, v) # cs @ ds)"
proof -
  from assms have "cell_index cs k = None" "cell_index ds k = None"
    by (auto simp: cell_index_None)
  then show "cell_index (cs @ (a, k, v) # ds) k = Some a"
    and "(cell_index (cs @ (a, k, v) # ds))(k := None) = cell_index (cs @ ds)"
    and "cell_index (cs @ (a, k, v) # ds) = cell_index ((a, k, v) # cs @ ds)"
    by (auto simp: fun_eq_iff map_add_def split: option.splits)
qed

lemma unat_free_release:
  assumes "lru_rep s cs" and "n \<le> cache_size (map snd cs)"
  shows "unat (free_size s + of_nat n) = unat (free_size s) + n"
proof (rule unat_plus_of_nat)
  have "unat (free_size s) + n \<le> unat (max_size s)" using assms by (simp add: lru_rep_def)
  then show "in_size_t (unat (free_size s) + n)" by (rule in_size_t_le [OF in_size_t_unat])
qed

lemma lru_index_at: "lru_rep s (cs @ (r, k, v) # ds) \<Longrightarrow> lru_index s k = Some r"
  unfolding lru_rep_def using cell_index_split(1) by metis

lemma represents_cases:
  assumes "represents s xs"
  obtains (absent) cs where "lru_rep s cs" "xs = map snd cs" "map_of xs k = None" "lru_index s k = None"
    | (present) cs r v ds where "lru_rep s (cs @ (r, k, v) # ds)" "xs = map snd (cs @ (r, k, v) # ds)"
        "map_of xs k = Some v" "lru_index s k = Some r" "drop_key k xs = map snd (cs @ ds)"
proof -
  from assms obtain cs where cs: "lru_rep s cs" "xs = map snd cs" by (auto simp: represents_def)
  then have idx: "lru_index s = cell_index cs" by (simp add: lru_rep_def)
  show ?thesis
  proof (cases "cell_index cs k")
    case None
    with absent cs idx show ?thesis by (metis cell_index_None_map_of)
  next
    case (Some r)
    then obtain ds v es where split: "cs = ds @ (r, k, v) # es" by (rule cell_index_SomeE)
    with cs have k: "k \<notin> fst ` set (map snd ds)" "k \<notin> fst ` set (map snd es)"
      by (auto simp: lru_rep_def image_comp)
    then have "map_of (map snd ds) k = None" by (simp add: map_of_eq_None_iff)
    with cs(2) split have "map_of xs k = Some v" by (simp add: map_add_def)
    moreover from k have "drop_key k xs = map snd (ds @ es)"
      using cs(2) split by (simp add: drop_key_id)
    ultimately show ?thesis using present cs split idx Some by metis
  qed
qed

lemma touch_present:
  assumes "map_of xs k = Some v" "drop_key k xs = map snd (cs @ ds)"
  shows "touch k xs = map snd ((r, k, v) # cs @ ds)"
  using assms by (simp add: touch_def)

end
