(* ===== verification/Simple_LRU.thy ===== *)
theory Simple_LRU
  imports Lru_Heap
begin

text \<open>
  \<open>SimpleLRU\<close> (\<open>src/storage/SimpleLRU.cpp\<close>): one definition per member function, in the
  order and with the pointer assignments of the source, and the proof that they compute the
  operations of the abstract cache of \<open>Cache_Spec\<close>.
\<close>

section \<open>The operations\<close>

text \<open>\<open>MoveToHead\<close> returns the iterator \<open>find\<close> gave: the node, or \<open>None\<close> for \<open>end()\<close>.\<close>

definition MoveToHead :: "string \<Rightarrow> simple_lru \<Rightarrow> (addr option \<times> simple_lru) option" where
  "MoveToHead key s = (case lru_index s key of
     None \<Rightarrow> Some (None, s)
   | Some r \<Rightarrow> do {
       head \<leftarrow> get_node (lru_head s) s;
       if node_key head = key then Some (Some r, s) else do {
         rn \<leftarrow> nodes s r;
         s \<leftarrow> (if node_next rn \<noteq> None then set_prev (node_next rn) (node_prev rn) s
              else Some (s\<lparr>lru_tail := node_prev rn\<rparr>));
         s \<leftarrow> set_prev (lru_head s) (Some r) s;
         rn \<leftarrow> nodes s r;
         (_, s) \<leftarrow> release_next (node_prev rn) s;
         (nxt, s) \<leftarrow> release_next (Some r) s;
         s \<leftarrow> reset_next (node_prev rn) nxt s;
         let (hd', s) = release_head s;
         s \<leftarrow> reset_next (Some r) hd' s;
         s \<leftarrow> reset_head (Some r) s;
         rn \<leftarrow> nodes s r;
         pn \<leftarrow> get_node (node_prev rn) s;
         s \<leftarrow> (if node_prev pn = None then set_prev (node_prev rn) (lru_head s) s else Some s);
         s \<leftarrow> set_prev (Some r) None s;
         Some (Some r, s) } })"

definition Delete :: "string \<Rightarrow> simple_lru \<Rightarrow> (bool \<times> simple_lru) option" where
  "Delete key s = (case lru_index s key of
     None \<Rightarrow> Some (False, s)
   | Some r \<Rightarrow> do {
       rn \<leftarrow> nodes s r;
       let s = s\<lparr>free_size := free_size s + node_size (node_key rn) (node_value rn),
                 lru_index := (lru_index s)(key := None)\<rparr>;
       s \<leftarrow> (if node_next rn \<noteq> None then set_prev (node_next rn) (node_prev rn) s
            else Some (s\<lparr>lru_tail := node_prev rn\<rparr>));
       (nxt, s) \<leftarrow> release_next (Some r) s;
       s \<leftarrow> (if node_prev rn \<noteq> None then reset_next (node_prev rn) nxt s else reset_head nxt s);
       Some (True, s) })"

text \<open>The loop \<open>while (_free_size < need) Delete(_lru_tail->key)\<close> of \<open>PutInHead\<close>, \<open>Put\<close> and \<open>Set\<close>.\<close>

partial_function (option) evict_loop :: "size_t \<Rightarrow> simple_lru \<Rightarrow> simple_lru option" where
  "evict_loop need s =
     (if free_size s < need then do {
        tail \<leftarrow> get_node (lru_tail s) s;
        (_, s) \<leftarrow> Delete (node_key tail) s;
        evict_loop need s }
      else Some s)"

definition PutInHead :: "string \<Rightarrow> string \<Rightarrow> simple_lru \<Rightarrow> (bool \<times> simple_lru) option" where
  "PutInHead key val s = (
     let new_node_size = node_size key val in
     if new_node_size > max_size s then Some (False, s) else do {
       s \<leftarrow> evict_loop new_node_size s;
       s \<leftarrow> (if lru_head s = None then do {
              let (a, s) = new_node key val s;
              s \<leftarrow> reset_head (Some a) s;
              Some (s\<lparr>lru_tail := lru_head s\<rparr>) }
            else do {
              let (a, s) = new_node key val s;
              s \<leftarrow> set_prev (lru_head s) (Some a) s;
              let (hd', s) = release_head s;
              s \<leftarrow> reset_next (Some a) hd' s;
              reset_head (Some a) s });
       a \<leftarrow> lru_head s;
       n \<leftarrow> nodes s a;
       let s = s\<lparr>lru_index := (case lru_index s (node_key n) of
                    None \<Rightarrow> (lru_index s)(node_key n \<mapsto> a) | Some _ \<Rightarrow> lru_index s)\<rparr>;
       Some (True, s\<lparr>free_size := free_size s - new_node_size\<rparr>) })"

text \<open>
  The part \<open>Put\<close> and \<open>Set\<close> share: the node \<open>r\<close> is at the head and gets a new value. The
  signed \<open>delta_size\<close> is compared with and subtracted from the unsigned \<open>_free_size\<close>, so it
  is converted back to \<open>size_t\<close> both times.
\<close>

definition overwrite_head :: "addr \<Rightarrow> string \<Rightarrow> string \<Rightarrow> simple_lru \<Rightarrow> (bool \<times> simple_lru) option" where
  "overwrite_head r key val s = (
     let new_node_size = node_size key val in
     if new_node_size > max_size s then Some (False, s) else do {
       n \<leftarrow> nodes s r;
       let delta_size = sint (new_node_size - node_size (node_key n) (node_value n));
       s \<leftarrow> evict_loop (of_int delta_size) s;
       let s = s\<lparr>free_size := free_size s - of_int delta_size\<rparr>;
       s \<leftarrow> upd_node (Some r) (\<lambda>n. n\<lparr>node_value := val\<rparr>) s;
       Some (True, s) })"

definition Put :: "string \<Rightarrow> string \<Rightarrow> simple_lru \<Rightarrow> (bool \<times> simple_lru) option" where
  "Put key val s = do {
     (it, s) \<leftarrow> MoveToHead key s;
     case it of None \<Rightarrow> PutInHead key val s
     | Some r \<Rightarrow> overwrite_head r key val s }"

definition PutIfAbsent :: "string \<Rightarrow> string \<Rightarrow> simple_lru \<Rightarrow> (bool \<times> simple_lru) option" where
  "PutIfAbsent key val s =
     (if lru_index s key \<noteq> None then Some (False, s) else PutInHead key val s)"

text \<open>\<open>Set\<close> of the source; the name \<open>Set\<close> is taken by the library's theory of sets.\<close>

definition SetValue :: "string \<Rightarrow> string \<Rightarrow> simple_lru \<Rightarrow> (bool \<times> simple_lru) option" where
  "SetValue key val s = do {
     (it, s) \<leftarrow> MoveToHead key s;
     case it of None \<Rightarrow> Some (False, s)
     | Some r \<Rightarrow> overwrite_head r key val s }"

text \<open>\<open>Get\<close>: the result \<open>Some v\<close> is \<open>true\<close> with \<open>v\<close> written to the output parameter.\<close>

definition Get :: "string \<Rightarrow> simple_lru \<Rightarrow> (string option \<times> simple_lru) option" where
  "Get key s = do {
     (it, s) \<leftarrow> MoveToHead key s;
     case it of None \<Rightarrow> Some (None, s)
     | Some r \<Rightarrow> do { n \<leftarrow> nodes s r; Some (Some (node_value n), s) } }"

text \<open>The destructor: its loop cuts the list from the tail, then the head goes.\<close>

partial_function (option) destructor_loop :: "simple_lru \<Rightarrow> simple_lru option" where
  "destructor_loop s = (case lru_tail s of None \<Rightarrow> Some s
     | Some t \<Rightarrow> do {
         s \<leftarrow> reset_next (Some t) None s;
         n \<leftarrow> nodes s t;
         destructor_loop (s\<lparr>lru_tail := node_prev n\<rparr>) })"

definition SimpleLRU_destructor :: "simple_lru \<Rightarrow> simple_lru option" where
  "SimpleLRU_destructor s = do {
     s \<leftarrow> destructor_loop (s\<lparr>lru_index := Map.empty\<rparr>);
     reset_head None s }"

section \<open>List surgery\<close>

text \<open>\<open>Delete\<close> unlinks exactly one cell, \<open>MoveToHead\<close> moves exactly one cell to the front.\<close>

lemma Delete_rep:
  assumes rep: "lru_rep s (cs @ (r, k, v) # ds)"
  shows "\<exists>s'. Delete k s = Some (True, s') \<and> lru_rep s' (cs @ ds) \<and> max_size s' = max_size s"
proof -
  note R = rep [unfolded lru_rep_def]
  from R have dist: "distinct (map (fst \<circ> snd) (cs @ (r, k, v) # ds))" by blast
  have free: "unat (free_size s + of_nat (entry_size k v)) = unat (free_size s) + entry_size k v"
    by (rule unat_free_release [OF rep]) simp
  have sub: "(lru_index s)(k := None) = cell_index (cs @ ds)"
    using R cell_index_split(2) [OF dist] by auto
  show ?thesis
    using R lru_index_at [OF rep] free sub
    by (cases cs rule: rev_cases; cases ds)
      (auto simp: Delete_def pointer_defs lru_rep_def node_size_entry dom_eq_singleton_conv)
qed

lemma MoveToHead_rep:
  assumes rep: "lru_rep s (cs @ (r, k, v) # ds)"
  shows "\<exists>s'. MoveToHead k s = Some (Some r, s') \<and> lru_rep s' ((r, k, v) # cs @ ds) \<and> max_size s' = max_size s"
proof (cases cs)
  case Nil
  with rep lru_index_at [OF rep] show ?thesis by (auto simp: MoveToHead_def lru_rep_def)
next
  case (Cons c cs')
  note csC = this
  note R = rep [unfolded lru_rep_def]
  from R have front: "lru_index s = cell_index ((r, k, v) # cs @ ds)"
    using cell_index_split(3) [of cs r k v ds] by metis
  obtain h kh vh where c: "c = (h, kh, vh)" by (cases c)
  show ?thesis
    using R lru_index_at [OF rep] front csC c
    by (cases cs' rule: cells_rev_cases; cases ds rule: cells_cases; simp add: MoveToHead_def pointer_defs)
      (auto simp: lru_rep_def)
qed

lemma MoveToHead_absent:
  assumes "lru_rep s cs" and "map_of (map snd cs) k = None"
  shows "MoveToHead k s = Some (None, s)"
  using assms by (simp add: MoveToHead_def lru_rep_def flip: cell_index_None_map_of)

section \<open>The eviction loop\<close>

lemma less_free_iff:
  assumes "lru_rep s cs" and "in_size_t need"
  shows "free_size s < of_nat need \<longleftrightarrow> unat (max_size s) < cache_size (map snd cs) + need"
  using assms by (auto simp: word_less_of_nat lru_rep_def)

lemma evict_loop_step:
  assumes rep: "lru_rep s (cs @ [(a, k, v)])" and less: "free_size s < need"
  obtains s' where "evict_loop need s = evict_loop need s'" "Delete k s = Some (True, s')"
    "lru_rep s' cs" "max_size s' = max_size s" "nodes s a \<noteq> None" "lru_tail s = Some a"
    "node_key (the (nodes s a)) = k"
proof -
  from Delete_rep [of s cs a k v "[]"] rep obtain s' where
    s': "Delete k s = Some (True, s')" "lru_rep s' cs" "max_size s' = max_size s" by auto
  from rep have at: "lru_tail s = Some a" "\<exists>n. nodes s a = Some n \<and> node_key n = k"
    by (auto simp: lru_rep_def)
  with s' less have "evict_loop need s = evict_loop need s'"
    by (auto simp: evict_loop.simps [of need s])
  with s' at that show ?thesis by auto
qed

lemma evict_loop_rep:
  assumes "lru_rep s cs" and "need \<le> unat (max_size s)"
  shows "\<exists>s' cs'. evict_loop (of_nat need) s = Some s' \<and> lru_rep s' cs' \<and>
    map snd cs' = evict_to (unat (max_size s)) need (map snd cs) \<and> (\<exists>ds. cs = cs' @ ds) \<and>
    max_size s' = max_size s"
  using assms
proof (induction cs arbitrary: s rule: rev_induct)
  case Nil
  have "in_size_t need" using in_size_t_le [OF in_size_t_unat] Nil.prems(2) .
  with Nil.prems have "\<not> free_size s < of_nat need"
    by (simp add: less_free_iff [OF Nil.prems(1)])
  with Nil.prems show ?case by (auto simp: evict_loop.simps [of _ s])
next
  case (snoc c cs)
  obtain a k v where [simp]: "c = (a, k, v)" by (cases c)
  have need: "in_size_t need" using in_size_t_le [OF in_size_t_unat] snoc.prems(2) .
  show ?case
  proof (cases "free_size s < of_nat need")
    case True
    with snoc.prems obtain s1 where s1: "evict_loop (of_nat need) s = evict_loop (of_nat need) s1"
      "lru_rep s1 cs" "max_size s1 = max_size s"
      by (auto elim: evict_loop_step)
    from True need have "unat (max_size s) < cache_size (map snd cs @ [(k, v)]) + need"
      using less_free_iff [OF snoc.prems(1)] by simp
    then have ev: "evict_to (unat (max_size s)) need (map snd (cs @ [c]))
        = evict_to (unat (max_size s)) need (map snd cs)"
      by (simp add: evict_to_snoc)
    from snoc.prems(2) s1(3) have "need \<le> unat (max_size s1)" by simp
    from snoc.IH [OF s1(2) this] obtain s' cs' ds where
      "evict_loop (of_nat need) s1 = Some s'" "lru_rep s' cs'" "max_size s' = max_size s1"
      "map snd cs' = evict_to (unat (max_size s1)) need (map snd cs)" "cs = cs' @ ds" by blast
    note s' = this
    have "evict_loop (of_nat need) s = Some s'" "max_size s' = max_size s" using s' s1 by simp_all
    moreover have "map snd cs' = evict_to (unat (max_size s)) need (map snd (cs @ [c]))"
      using ev s1(3) s'(4) by simp
    moreover have "\<exists>ds. cs @ [c] = cs' @ ds" using s'(5) by simp
    ultimately show ?thesis using s'(2) by blast
  next
    case False
    with need have "cache_size (map snd (cs @ [c])) + need \<le> unat (max_size s)"
      using less_free_iff [OF snoc.prems(1)] by simp
    with False snoc.prems show ?thesis
      by (intro exI [of _ s] exI [of _ "cs @ [c]"]) (simp add: evict_loop.simps [of _ s] evict_to_fits)
  qed
qed

section \<open>Each operation computes its abstract counterpart\<close>

text \<open>
  \<open>completes m cap (b, xs)\<close>: the call \<open>m\<close> returns \<open>b\<close> and leaves an object that represents
  \<open>xs\<close> with the capacity unchanged.
\<close>

definition completes :: "('r \<times> simple_lru) option \<Rightarrow> size_t \<Rightarrow> 'r \<times> cache \<Rightarrow> bool" where
  "completes m cap rx \<longleftrightarrow> (\<exists>s'. m = Some (fst rx, s') \<and> represents s' (snd rx) \<and> max_size s' = cap)"

lemma PutInHead_rep:
  assumes rep: "lru_rep s cs" and absent: "map_of (map snd cs) k = None"
    and small: "in_size_t (entry_size k v)"
  shows "completes (PutInHead k v s) (max_size s) (cache_store (unat (max_size s)) k v (map snd cs))"
proof (cases "unat (max_size s) < entry_size k v")
  case True
  then have "max_size s < node_size k v" by (simp add: node_size_entry word_less_of_nat small)
  with True rep absent show ?thesis
    by (auto simp: PutInHead_def completes_def cache_store_def represents_def touch_def)
next
  case False
  then have fits: "\<not> max_size s < node_size k v" by (simp add: node_size_entry word_less_of_nat small)
  from False obtain s1 cs1 ds where s1: "evict_loop (node_size k v) s = Some s1" "lru_rep s1 cs1"
    "map snd cs1 = evict_to (unat (max_size s)) (entry_size k v) (map snd cs)" "cs = cs1 @ ds"
    "max_size s1 = max_size s"
    using evict_loop_rep [OF rep, of "entry_size k v"] by (auto simp: node_size_entry)
  have k: "cell_index cs1 k = None" "k \<notin> fst ` set (map snd cs)"
    using absent s1(4) unfolding cell_index_None map_of_eq_None_iff by (force simp: image_iff)+
  have "cache_size (map snd cs1) + entry_size k v \<le> unat (max_size s)"
    using evict_to_bound [of "entry_size k v" "unat (max_size s)" "map snd cs"] False s1(3) by simp
  then have free: "entry_size k v \<le> unat (free_size s1)" using s1(2,5) by (simp add: lru_rep_def)
  have brk: "brk s1 \<notin> fst ` set cs1" using s1(2) by (auto simp: lru_rep_def)
  have "\<exists>s'. PutInHead k v s = Some (True, s') \<and> lru_rep s' ((brk s1, k, v) # cs1) \<and> max_size s' = max_size s"
    using s1(1,2,5) k(1) k(1) [unfolded cell_index_None] fits brk unat_minus_of_nat [OF free] free
    by (cases cs1 rule: cells_cases)
      (auto simp: PutInHead_def new_node_def pointer_defs lru_rep_def node_size_entry less_SucI)
  then obtain s' where "PutInHead k v s = Some (True, s')" "lru_rep s' ((brk s1, k, v) # cs1)"
    "max_size s' = max_size s" by blast
  moreover have "snd (cache_store (unat (max_size s)) k v (map snd cs)) = map snd ((brk s1, k, v) # cs1)"
    using False s1(3) k(2) by (simp add: cache_store_def drop_key_id)
  ultimately show ?thesis
    using False unfolding completes_def represents_def by (auto simp: cache_store_def)
qed

lemma overwrite_head_rep:
  assumes rep: "lru_rep s ((r, k, old) # cs)" and small: "in_size_t (entry_size k v)"
    and grow: "length old \<le> length v \<or> unat (max_size s) < entry_size k v"
  shows "completes (overwrite_head r k v s) (max_size s)
    (cache_store (unat (max_size s)) k v ((k, old) # map snd cs))"
proof (cases "unat (max_size s) < entry_size k v")
  case True
  then have "max_size s < node_size k v" by (simp add: node_size_entry word_less_of_nat small)
  moreover from rep have "k \<notin> fst ` set (map snd cs)" by (auto simp: lru_rep_def image_comp)
  then have "touch k ((k, old) # map snd cs) = (k, old) # map snd cs"
    by (simp add: touch_def drop_key_id)
  ultimately show ?thesis
    using True rep by (auto simp: overwrite_head_def completes_def cache_store_def represents_def)
next
  case False
  then have fits: "\<not> max_size s < node_size k v" by (simp add: node_size_entry word_less_of_nat small)
  define d where "d = length v - length old"
  from False grow have d: "entry_size k v = d + entry_size k old" "d \<le> unat (max_size s)"
    by (auto simp: d_def entry_size_def)
  then have delta: "node_size k v - node_size k old = of_nat d" by (simp add: node_size_entry)
  from evict_loop_rep [OF rep d(2)] obtain s1 cs1 where s1: "evict_loop (of_nat d) s = Some s1"
    "lru_rep s1 cs1" "max_size s1 = max_size s"
    "map snd cs1 = evict_to (unat (max_size s)) d (map snd ((r, k, old) # cs))"
    "\<exists>ds. (r, k, old) # cs = cs1 @ ds" by blast
  from False d have ev: "map snd cs1 = (k, old) # evict_to (unat (max_size s)) (entry_size k v) (map snd cs)"
    by (simp add: s1(4) evict_to_Cons)
  with s1(5) obtain cs2 where cs1: "cs1 = (r, k, old) # cs2" by (cases cs1) auto
  have "cache_size (map snd cs1) + d \<le> unat (max_size s)"
    using evict_to_bound [OF d(2)] s1(4) by simp
  then have "d \<le> unat (free_size s1)" using s1(2,3) by (simp add: lru_rep_def)
  note free = this unat_minus_of_nat [OF this]
  have at: "nodes s r = Some \<lparr>node_key = k, node_value = old, node_next = first_of cs None, node_prev = None\<rparr>"
    using rep by (simp add: lru_rep_def)
  have k: "k \<notin> fst ` set (map snd cs)" using rep by (auto simp: lru_rep_def image_comp)
  have "\<exists>s'. overwrite_head r k v s = Some (True, s') \<and> lru_rep s' ((r, k, v) # cs2) \<and> max_size s' = max_size s"
    using s1(1-3) fits at free d
    by (auto simp: overwrite_head_def delta cs1 lru_rep_def upd_node_def)
  then obtain s' where "overwrite_head r k v s = Some (True, s')" "lru_rep s' ((r, k, v) # cs2)"
    "max_size s' = max_size s" by blast
  moreover have "snd (cache_store (unat (max_size s)) k v ((k, old) # map snd cs)) = map snd ((r, k, v) # cs2)"
    using False ev cs1 k by (simp add: cache_store_def drop_key_id)
  ultimately show ?thesis
    using False unfolding completes_def represents_def by (auto simp: cache_store_def)
qed

lemma MoveToHead_cases:
  assumes "represents s xs"
  obtains (absent) "MoveToHead k s = Some (None, s)" "map_of xs k = None" "lru_index s k = None"
    | (present) s' r v cs where "MoveToHead k s = Some (Some r, s')" "lru_rep s' ((r, k, v) # cs)"
        "touch k xs = (k, v) # map snd cs" "map_of xs k = Some v" "max_size s' = max_size s"
        "lru_index s k = Some r"
  using assms
proof (cases rule: represents_cases [where k = k])
  case (absent cs)
  then show ?thesis using that(1) MoveToHead_absent by metis
next
  case (present cs r v ds)
  from MoveToHead_rep [OF present(1)] obtain s' where
    "MoveToHead k s = Some (Some r, s')" "lru_rep s' ((r, k, v) # cs @ ds)" "max_size s' = max_size s"
    by blast
  with present touch_present [OF present(3,5)] show ?thesis
    by (intro that(2) [of r s' v "cs @ ds"]) simp_all
qed

lemma overwrite_touched:
  assumes "lru_rep s' ((r, k, old) # cs)" "touch k xs = (k, old) # map snd cs" "map_of xs k = Some old"
    and "max_size s' = max_size s" "in_size_t (entry_size k v)" "no_shrink (unat (max_size s)) k v xs"
  shows "completes (overwrite_head r k v s') (max_size s) (cache_store (unat (max_size s)) k v xs)"
  using overwrite_head_rep [OF assms(1,5)] assms(2-) cache_store_touch [of _ k v xs]
  by (simp add: no_shrink_def)

lemma PutInHead_represents:
  assumes "represents s xs" "map_of xs k = None" "in_size_t (entry_size k v)"
  shows "completes (PutInHead k v s) (max_size s) (cache_store (unat (max_size s)) k v xs)"
  using assms PutInHead_rep unfolding represents_def by blast

lemma Put_spec:
  assumes "represents s xs" "in_size_t (entry_size k v)" "no_shrink (unat (max_size s)) k v xs"
  shows "completes (Put k v s) (max_size s) (cache_store (unat (max_size s)) k v xs)"
  using assms(1)
proof (cases rule: MoveToHead_cases [where k = k])
  case absent
  with PutInHead_represents assms show ?thesis by (simp add: Put_def)
next
  case (present s' r old cs)
  with overwrite_touched [OF present(2-5) assms(2,3)] show ?thesis by (simp add: Put_def)
qed

lemma SetValue_spec:
  assumes "represents s xs" "in_size_t (entry_size k v)" "no_shrink (unat (max_size s)) k v xs"
  shows "completes (SetValue k v s) (max_size s) (cache_update (unat (max_size s)) k v xs)"
  using assms(1)
proof (cases rule: MoveToHead_cases [where k = k])
  case absent
  with assms show ?thesis by (simp add: SetValue_def cache_update_def completes_def)
next
  case (present s' r old cs)
  with overwrite_touched [OF present(2-5) assms(2,3)] show ?thesis
    by (simp add: SetValue_def cache_update_def)
qed

lemma PutIfAbsent_spec:
  assumes "represents s xs" "in_size_t (entry_size k v)"
  shows "completes (PutIfAbsent k v s) (max_size s) (cache_add (unat (max_size s)) k v xs)"
  using assms(1)
proof (cases rule: represents_cases [where k = k])
  case (absent cs)
  with PutInHead_represents [OF assms(1)] assms(2) show ?thesis
    by (simp add: PutIfAbsent_def cache_add_def)
next
  case (present cs r old ds)
  with assms(1) show ?thesis by (simp add: PutIfAbsent_def cache_add_def completes_def)
qed

lemma Delete_spec:
  assumes "represents s xs"
  shows "completes (Delete k s) (max_size s) (cache_remove k xs)"
  using assms
proof (cases rule: represents_cases [where k = k])
  case (absent cs)
  with assms show ?thesis
    by (simp add: Delete_def cache_remove_def completes_def drop_key_id map_of_eq_None_iff)
next
  case (present cs r old ds)
  from Delete_rep [OF present(1)] obtain s' where
    "Delete k s = Some (True, s')" "lru_rep s' (cs @ ds)" "max_size s' = max_size s" by blast
  moreover have "cache_remove k xs = (True, map snd (cs @ ds))"
    using present(3,5) by (simp add: cache_remove_def)
  ultimately show ?thesis unfolding completes_def represents_def by auto
qed

lemma Get_spec:
  assumes "represents s xs"
  shows "completes (Get k s) (max_size s) (cache_get k xs)"
  using assms
proof (cases rule: MoveToHead_cases [where k = k])
  case absent
  with assms show ?thesis by (simp add: Get_def cache_get_def completes_def touch_def)
next
  case (present s' r v cs)
  then have "nodes s' r = Some \<lparr>node_key = k, node_value = v, node_next = first_of cs None, node_prev = None\<rparr>"
    by (simp add: lru_rep_def)
  with present show ?thesis by (auto simp: Get_def cache_get_def completes_def represents_def)
qed

end
