(* ===== verification/Lru_Runs.thy ===== *)
theory Lru_Runs
  imports Simple_LRU
begin

text \<open>
  Whole lives of a \<open>SimpleLRU\<close> object: the destructor (\<open>src/storage/SimpleLRU.h\<close>), sequences
  of calls against the abstract cache, the one kind of call without a defined outcome
  (overwriting with a shorter value), and the properties of the storage.
\<close>

section \<open>Overwriting with a shorter value\<close>

text \<open>
  \<open>evict_states need s t\<close>: the eviction loop, entered in state \<open>s\<close>, reaches its test again in
  state \<open>t\<close>.
\<close>

inductive evict_states :: "size_t \<Rightarrow> simple_lru \<Rightarrow> simple_lru \<Rightarrow> bool" for need where
  here: "evict_states need s s"
| iterate: "free_size s < need \<Longrightarrow> get_node (lru_tail s) s = Some n \<Longrightarrow>
    Delete (node_key n) s = Some (b, s') \<Longrightarrow> evict_states need s' t \<Longrightarrow> evict_states need s t"

text \<open>A request that exceeds the capacity empties the cache and then dereferences \<open>nullptr\<close>.\<close>

lemma evict_loop_too_much:
  assumes "lru_rep s cs" and "unat (max_size s) < unat need"
  shows "evict_loop need s = None \<and>
    (\<exists>t. evict_states need s t \<and> represents t [] \<and> lru_tail t = None \<and> free_size t < need)"
  using assms
proof (induction cs arbitrary: s rule: rev_induct)
  case Nil
  then have "free_size s < need" by (simp add: lru_rep_def word_less_nat_alt)
  moreover have "lru_tail s = None" using Nil by (simp add: lru_rep_def)
  ultimately show ?case using Nil
    by (auto simp: evict_loop.simps [of _ s] represents_def intro: evict_states.here)
next
  case (snoc c cs)
  obtain a k v where c [simp]: "c = (a, k, v)" by (cases c)
  have "unat (free_size s) \<le> unat (max_size s)" using snoc.prems by (simp add: lru_rep_def)
  with snoc.prems have less: "free_size s < need" by (simp add: word_less_nat_alt)
  with snoc.prems obtain s' where s': "evict_loop need s = evict_loop need s'"
    "Delete k s = Some (True, s')" "lru_rep s' cs" "max_size s' = max_size s" "nodes s a \<noteq> None"
    "lru_tail s = Some a" "node_key (the (nodes s a)) = k"
    by (auto elim: evict_loop_step)
  from snoc.IH [OF s'(3)] snoc.prems s'(4) obtain t where
    t: "evict_loop need s' = None" "evict_states need s' t" "represents t []" "lru_tail t = None"
      "free_size t < need" by auto
  from less s' t(2) have "evict_states need s t"
    by (auto intro: evict_states.iterate [of s need "the (nodes s a)"])
  with s'(1) t show ?case by auto
qed

lemma shrink_delta:
  assumes "entry_size k v < entry_size k old" "entry_size k old \<le> unat m" "unat m < 2 ^ 63"
  shows "unat (m :: size_t) < unat (node_size k v - node_size k old)"
proof -
  have "in_size_t (entry_size k old)" by (rule in_size_t_le [OF in_size_t_unat assms(2)])
  moreover have "in_size_t (entry_size k v)" using assms calculation by (auto intro: in_size_t_le)
  ultimately have "unat (node_size k v - node_size k old) = 2 ^ 64 - (entry_size k old - entry_size k v)"
    using assms(1)
    by (simp add: node_size_entry unat_sub_if_size unat_of_nat_small size_word_def)
  with assms show ?thesis by simp
qed

lemma overwrite_shrink:
  assumes rep: "lru_rep s ((r, k, old) # cs)" and shrink: "length v < length old"
    and cap: "unat (max_size s) < 2 ^ 63"
  shows "overwrite_head r k v s = None \<and>
    (\<exists>t. evict_states (of_int (sint (node_size k v - node_size k old))) s t \<and>
       represents t [] \<and> lru_tail t = None \<and> free_size t < of_int (sint (node_size k v - node_size k old)))"
proof -
  let ?d = "node_size k v - node_size k old"
  have small: "entry_size k v < entry_size k old" using shrink by (simp add: entry_size_def)
  have le: "entry_size k old \<le> unat (max_size s)" using rep by (simp add: lru_rep_def)
  then have "\<not> max_size s < node_size k v"
    using small in_size_t_le [OF in_size_t_unat, of "entry_size k v" "max_size s"]
    by (simp add: node_size_entry word_less_of_nat)
  moreover have "unat (max_size s) < unat ?d" by (rule shrink_delta [OF small le cap])
  note evict_loop_too_much [OF rep this]
  moreover have "nodes s r = Some \<lparr>node_key = k, node_value = old, node_next = first_of cs None, node_prev = None\<rparr>"
    using rep by (simp add: lru_rep_def)
  ultimately show ?thesis by (simp add: overwrite_head_def)
qed

lemma shrink_undefined:
  assumes "represents s xs" "map_of xs k = Some old" "length v < length old" "unat (max_size s) < 2 ^ 63"
  shows "Put k v s = None \<and> SetValue k v s = None"
  using assms(1)
proof (cases rule: MoveToHead_cases [where k = k])
  case absent
  with assms(2) show ?thesis by simp
next
  case (present s' r v' cs)
  with assms overwrite_shrink [of s' r k old cs v] show ?thesis by (simp add: Put_def SetValue_def)
qed

section \<open>The destructor\<close>

text \<open>
  At the test of its loop the nodes up to \<open>_lru_tail\<close> are still linked both ways; the node
  behind the tail, if any, is the one the next \<open>next.reset()\<close> destroys, and it owns nothing.
\<close>

definition cut_rep :: "simple_lru \<Rightarrow> cell list \<Rightarrow> addr option \<Rightarrow> bool" where
  "cut_rep s cs q \<longleftrightarrow>
     distinct (map fst cs) \<and> dlseg (nodes s) None cs q \<and> lru_tail s = last_of None cs \<and>
     (case q of None \<Rightarrow> dom (nodes s) = fst ` set cs
      | Some u \<Rightarrow> u \<notin> fst ` set cs \<and> dom (nodes s) = insert u (fst ` set cs) \<and>
          (\<exists>n. nodes s u = Some n \<and> node_next n = None))"

lemma destructor_loop_rep:
  assumes "cut_rep s cs q"
  shows "\<exists>s' q'. destructor_loop s = Some s' \<and> cut_rep s' [] q' \<and> lru_head s' = lru_head s \<and>
    lru_index s' = lru_index s \<and> q' = first_of cs q"
  using assms
proof (induction cs arbitrary: s q rule: rev_induct)
  case Nil
  then show ?case by (auto simp: destructor_loop.simps [of s] cut_rep_def)
next
  case (snoc c cs)
  obtain a k v where c [simp]: "c = (a, k, v)" by (cases c)
  let ?n = "\<lparr>node_key = k, node_value = v, node_next = q, node_prev = last_of None cs\<rparr>"
  let ?h = "(nodes s)(a \<mapsto> ?n\<lparr>node_next := None\<rparr>)"
  define s1 where "s1 = s\<lparr>nodes := (case q of None \<Rightarrow> ?h | Some u \<Rightarrow> ?h(u := None)),
    lru_tail := last_of None cs\<rparr>"
  have step: "destructor_loop s = destructor_loop s1"
    using snoc.prems unfolding s1_def
    by (cases q) (auto simp: destructor_loop.simps [of s] cut_rep_def pointer_defs)
  moreover have "cut_rep s1 cs (Some a)"
    using snoc.prems unfolding s1_def cut_rep_def by (cases q) auto
  ultimately show ?case using snoc.IH by (fastforce simp: s1_def)
qed

lemma destructor_frees:
  assumes "represents s xs"
  shows "\<exists>s'. SimpleLRU_destructor s = Some s' \<and> nodes s' = Map.empty \<and> lru_head s' = None \<and>
    lru_tail s' = None \<and> lru_index s' = Map.empty"
proof -
  from assms obtain cs where rep: "lru_rep s cs" by (auto simp: represents_def)
  then have "cut_rep (s\<lparr>lru_index := Map.empty\<rparr>) cs None" by (simp add: lru_rep_def cut_rep_def)
  from destructor_loop_rep [OF this] rep obtain s' where
    s': "destructor_loop (s\<lparr>lru_index := Map.empty\<rparr>) = Some s'" "cut_rep s' [] (lru_head s')"
      "lru_index s' = Map.empty"
    by (auto simp: lru_rep_def)
  then show ?thesis
    by (cases "lru_head s'")
      (auto simp: SimpleLRU_destructor_def reset_head_def cut_rep_def dom_eq_singleton_conv)
qed

section \<open>Sequences of operations\<close>

datatype lru_op =
    OpPut string string
  | OpPutIfAbsent string string
  | OpSet string string
  | OpDelete string
  | OpGet string

datatype op_result = Stored bool | Found "string option"

fun run_op :: "lru_op \<Rightarrow> simple_lru \<Rightarrow> (op_result \<times> simple_lru) option" where
  "run_op (OpPut k v) s = do { (b, s) \<leftarrow> Put k v s; Some (Stored b, s) }"
| "run_op (OpPutIfAbsent k v) s = do { (b, s) \<leftarrow> PutIfAbsent k v s; Some (Stored b, s) }"
| "run_op (OpSet k v) s = do { (b, s) \<leftarrow> SetValue k v s; Some (Stored b, s) }"
| "run_op (OpDelete k) s = do { (b, s) \<leftarrow> Delete k s; Some (Stored b, s) }"
| "run_op (OpGet k) s = do { (v, s) \<leftarrow> Get k s; Some (Found v, s) }"

fun run_ops :: "lru_op list \<Rightarrow> simple_lru \<Rightarrow> (op_result list \<times> simple_lru) option" where
  "run_ops [] s = Some ([], s)"
| "run_ops (x # xs) s = do { (r, s) \<leftarrow> run_op x s; (rs, s) \<leftarrow> run_ops xs s; Some (r # rs, s) }"

fun spec_op :: "nat \<Rightarrow> lru_op \<Rightarrow> cache \<Rightarrow> op_result \<times> cache" where
  "spec_op cap (OpPut k v) c = apfst Stored (cache_store cap k v c)"
| "spec_op cap (OpPutIfAbsent k v) c = apfst Stored (cache_add cap k v c)"
| "spec_op cap (OpSet k v) c = apfst Stored (cache_update cap k v c)"
| "spec_op cap (OpDelete k) c = apfst Stored (cache_remove k c)"
| "spec_op cap (OpGet k) c = apfst Found (cache_get k c)"

fun spec_ops :: "nat \<Rightarrow> lru_op list \<Rightarrow> cache \<Rightarrow> op_result list \<times> cache" where
  "spec_ops cap [] c = ([], c)"
| "spec_ops cap (x # xs) c =
     apfst ((#) (fst (spec_op cap x c))) (spec_ops cap xs (snd (spec_op cap x c)))"

text \<open>
  The sequences with a defined outcome: texts whose lengths a \<open>size_t\<close> holds, and no value
  overwritten by a shorter one.
\<close>

fun op_ok :: "nat \<Rightarrow> lru_op \<Rightarrow> cache \<Rightarrow> bool" where
  "op_ok cap (OpPut k v) c \<longleftrightarrow> in_size_t (entry_size k v) \<and> no_shrink cap k v c"
| "op_ok cap (OpPutIfAbsent k v) c \<longleftrightarrow> in_size_t (entry_size k v)"
| "op_ok cap (OpSet k v) c \<longleftrightarrow> in_size_t (entry_size k v) \<and> no_shrink cap k v c"
| "op_ok cap (OpDelete k) c \<longleftrightarrow> True"
| "op_ok cap (OpGet k) c \<longleftrightarrow> True"

fun ops_ok :: "nat \<Rightarrow> lru_op list \<Rightarrow> cache \<Rightarrow> bool" where
  "ops_ok cap [] c \<longleftrightarrow> True"
| "ops_ok cap (x # xs) c \<longleftrightarrow> op_ok cap x c \<and> ops_ok cap xs (snd (spec_op cap x c))"

lemma completes_apfst:
  "completes m cap rx \<Longrightarrow> completes (do { (b, s) \<leftarrow> m; Some (f b, s) }) cap (apfst f rx)"
  by (auto simp: completes_def)

lemma run_op_spec:
  assumes "represents s c" "op_ok (unat (max_size s)) x c"
  shows "completes (run_op x s) (max_size s) (spec_op (unat (max_size s)) x c)"
  using assms
  by (cases x) (auto intro!: completes_apfst Put_spec PutIfAbsent_spec SetValue_spec Delete_spec Get_spec)

lemma run_ops_spec:
  assumes "represents s c" "ops_ok (unat (max_size s)) xs c"
  shows "completes (run_ops xs s) (max_size s) (spec_ops (unat (max_size s)) xs c)"
  using assms
proof (induction xs arbitrary: s c)
  case Nil
  then show ?case by (simp add: completes_def)
next
  case (Cons x xs)
  let ?cap = "unat (max_size s)"
  obtain r c' where rc: "spec_op ?cap x c = (r, c')" by (cases "spec_op ?cap x c")
  from Cons.prems run_op_spec [of s c x] rc obtain s' where
    s': "run_op x s = Some (r, s')" "represents s' c'" "max_size s' = max_size s"
    by (auto simp: completes_def)
  from Cons.IH [OF s'(2)] Cons.prems rc s'(3) show ?case
    by (auto simp: s'(1) completes_def split: prod.splits)
qed

section \<open>Byte accounting\<close>

lemma dlseg_nth:
  "dlseg h p cs q \<Longrightarrow> (a, k, v) \<in> set cs \<Longrightarrow>
     \<exists>n. h a = Some n \<and> node_key n = k \<and> node_value n = v"
  by (induction h p cs q rule: dlseg.induct) auto

lemma cell_index_iff:
  assumes "distinct (map (fst \<circ> snd) cs)"
  shows "cell_index cs k = Some a \<longleftrightarrow> (\<exists>v. (a, k, v) \<in> set cs)"
proof
  assume "cell_index cs k = Some a"
  then show "\<exists>v. (a, k, v) \<in> set cs" by (rule cell_index_SomeE) auto
next
  assume "\<exists>v. (a, k, v) \<in> set cs"
  then obtain v ds es where "cs = ds @ (a, k, v) # es" by (metis split_list)
  with assms show "cell_index cs k = Some a" using cell_index_split(1) by metis
qed

lemma sum_cells:
  assumes "distinct (map fst cs)" "dlseg h p cs q"
  shows "(\<Sum>a \<in> fst ` set cs. entry_size (node_key (the (h a))) (node_value (the (h a)))) = cache_size (map snd cs)"
  using assms by (induction h p cs q rule: dlseg.induct) auto

lemma represents_accounting:
  assumes "represents s c"
  shows "(\<Sum>a \<in> dom (nodes s). entry_size (node_key (the (nodes s a))) (node_value (the (nodes s a))))
      + unat (free_size s) = unat (max_size s) \<and>
    (\<forall>k a. lru_index s k = Some a \<longleftrightarrow> (\<exists>n. nodes s a = Some n \<and> node_key n = k))"
proof -
  from assms obtain cs where rep: "lru_rep s cs" by (auto simp: represents_def)
  then have "lru_index s k = Some a \<longleftrightarrow> (\<exists>n. nodes s a = Some n \<and> node_key n = k)" for k a
  proof -
    from rep have d: "distinct (map (fst \<circ> snd) cs)" "dom (nodes s) = fst ` set cs"
      "dlseg (nodes s) None cs None" "lru_index s = cell_index cs"
      by (auto simp: lru_rep_def)
    have "(\<exists>v. (a, k, v) \<in> set cs) \<longleftrightarrow> (\<exists>n. nodes s a = Some n \<and> node_key n = k)"
    proof
      assume "\<exists>n. nodes s a = Some n \<and> node_key n = k"
      then obtain n where n: "nodes s a = Some n" "node_key n = k" by blast
      then obtain k' v where "(a, k', v) \<in> set cs" using d(2) by force
      with n dlseg_nth [OF d(3)] show "\<exists>v. (a, k, v) \<in> set cs" by force
    qed (use dlseg_nth [OF d(3)] in blast)
    with d cell_index_iff show ?thesis by simp
  qed
  moreover have "(\<Sum>a \<in> dom (nodes s). entry_size (node_key (the (nodes s a))) (node_value (the (nodes s a))))
      + unat (free_size s) = unat (max_size s)"
    using rep sum_cells [of cs "nodes s" None None] by (simp add: lru_rep_def)
  ultimately show ?thesis by blast
qed


section \<open>Properties of the storage\<close>

text \<open>C1. Every sequence of calls on a fresh \<open>SimpleLRU(cap)\<close> in which no value is overwritten
  by a shorter one completes without an invalid pointer access, returns exactly what the
  abstract least-recently-used cache of the same capacity returns, call by call, and leaves an
  object whose list, index and byte counter represent that cache.\<close>

theorem lru_run_refines:
  assumes "ops_ok (unat cap) xs []"
  shows "\<exists>s'. run_ops xs (SimpleLRU cap) = Some (fst (spec_ops (unat cap) xs []), s') \<and>
    represents s' (snd (spec_ops (unat cap) xs [])) \<and> max_size s' = cap"
proof -
  have "max_size (SimpleLRU cap) = cap" by (simp add: SimpleLRU_def)
  with assms run_ops_spec [OF represents_new [of cap], of xs] show ?thesis
    by (simp add: completes_def)
qed

definition sample_ops :: "lru_op list" where
  "sample_ops = [OpPut ''a'' ''xx'', OpPut ''b'' ''yy'', OpGet ''a'', OpPutIfAbsent ''c'' ''zzz'',
     OpSet ''b'' ''w'', OpGet ''a'']"

lemma sample_ops_ok: "ops_ok (unat (9 :: size_t)) sample_ops []"
proof -
  have "ops_ok 9 sample_ops []" by (simp add: sample_ops_def cache_eval in_size_t_def)
  then show ?thesis by simp
qed

theorem lru_run_refines_witness:
  "ops_ok (unat (9 :: size_t)) sample_ops [] \<and>
   (\<exists>s'. run_ops sample_ops (SimpleLRU 9) =
      Some ([Stored True, Stored True, Found (Some ''xx''), Stored True, Stored False, Found (Some ''xx'')], s'))"
proof -
  have "fst (spec_ops 9 sample_ops []) =
    [Stored True, Stored True, Found (Some ''xx''), Stored True, Stored False, Found (Some ''xx'')]"
    by (simp add: sample_ops_def cache_eval)
  with lru_run_refines [OF sample_ops_ok] sample_ops_ok show ?thesis by auto
qed

text \<open>\<open>Put\<close> on a key with any history: an association larger than the capacity is refused
  and only refreshes the key; any other one is stored in front, after exactly the longest
  prefix of the remaining associations that leaves room for it has been kept. Nothing else
  changes, and the call always returns.\<close>

theorem lru_put_refines:
  assumes "represents s xs" "in_size_t (entry_size k v)" "no_shrink (unat (max_size s)) k v xs"
  shows "\<exists>s'. Put k v s = Some (entry_size k v \<le> unat (max_size s), s') \<and> max_size s' = max_size s \<and>
    represents s' (if entry_size k v \<le> unat (max_size s)
      then (k, v) # evict_to (unat (max_size s)) (entry_size k v) (drop_key k xs) else touch k xs)"
  using Put_spec [OF assms] by (auto simp: completes_def cache_store_def split: if_splits)

theorem lru_put_refines_witness:
  "\<exists>s'. Put ''k'' ''value'' (SimpleLRU 8) = Some (True, s') \<and> represents s' [(''k'', ''value'')]"
proof -
  have h: "in_size_t (entry_size ''k'' ''value'')"
    "no_shrink (unat (max_size (SimpleLRU 8))) ''k'' ''value'' []"
    by (simp_all add: in_size_t_def entry_size_def no_shrink_def)
  show ?thesis using lru_put_refines [OF represents_new h]
    by (auto simp: SimpleLRU_def entry_size_def)
qed

text \<open>C22. Eviction takes the least recently used associations and no more of them than needed:
  after a successful \<open>Put\<close> of a new key the kept associations are a prefix of the old ones in
  their order, and keeping one more would have exceeded the capacity.\<close>

theorem lru_put_evicts_lru:
  assumes "represents s xs" "map_of xs k = None" "entry_size k v \<le> unat (max_size s)"
  shows "\<exists>s' kept gone. Put k v s = Some (True, s') \<and> xs = kept @ gone \<and>
    represents s' ((k, v) # kept) \<and>
    (gone = [] \<or> unat (max_size s) < cache_size (kept @ [hd gone]) + entry_size k v)"
proof -
  let ?cap = "unat (max_size s)" and ?kept = "evict_to (unat (max_size s)) (entry_size k v) xs"
  from assms have id: "drop_key k xs = xs" by (simp add: drop_key_id map_of_eq_None_iff)
  from assms have h: "in_size_t (entry_size k v)" "no_shrink ?cap k v xs"
    by (auto simp: no_shrink_def intro: in_size_t_le [OF in_size_t_unat])
  obtain gone where gone: "xs = ?kept @ gone" using evict_to_prefix by blast
  have "gone = [] \<or> ?cap < cache_size (?kept @ [hd gone]) + entry_size k v"
    using gone evict_to_maximal [of xs ?cap "entry_size k v" "hd gone" "tl gone"] by (cases gone) auto
  with Put_spec [OF assms(1) h] gone id assms(3) show ?thesis
    by (auto simp: completes_def cache_store_def)
qed

lemma two_entries: "\<exists>s. represents s [(''b'', ''yy''), (''a'', ''xx'')] \<and> max_size s = 6"
proof -
  let ?xs = "[OpPut ''a'' ''xx'', OpPut ''b'' ''yy'']"
  have "ops_ok 6 ?xs []" "snd (spec_ops 6 ?xs []) = [(''b'', ''yy''), (''a'', ''xx'')]"
    by (simp_all add: cache_eval in_size_t_def)
  then show ?thesis
    using run_ops_spec [OF represents_new [of 6], of ?xs] by (auto simp: completes_def SimpleLRU_def)
qed

theorem lru_put_evicts_lru_witness:
  "\<exists>s s' kept gone. represents s [(''b'', ''yy''), (''a'', ''xx'')] \<and> Put ''c'' ''zz'' s = Some (True, s') \<and>
     [(''b'', ''yy''), (''a'', ''xx'')] = kept @ gone \<and> represents s' ((''c'', ''zz'') # kept)"
proof -
  from two_entries obtain s where s: "represents s [(''b'', ''yy''), (''a'', ''xx'')]" "max_size s = 6"
    by blast
  have "map_of [(''b'', ''yy''), (''a'', ''xx'')] ''c'' = None" "entry_size ''c'' ''zz'' \<le> unat (max_size s)"
    by (simp_all add: entry_size_def s(2))
  from s(1) lru_put_evicts_lru [OF s(1) this] show ?thesis by blast
qed

text \<open>C35. Overwriting an association with a shorter value through \<open>Put\<close> or \<open>Set\<close> has no defined
  outcome: the negative size difference, compared with the unsigned free size, keeps the
  eviction loop running until the whole cache, the overwritten node included, is gone, and the
  loop then reads \<open>_lru_tail->key\<close> through a null pointer.\<close>

theorem lru_shrink_undefined:
  assumes "represents s xs" "map_of xs k = Some old" "length v < length old" "unat (max_size s) < 2 ^ 63"
  shows "Put k v s = None \<and> SetValue k v s = None \<and>
    (\<exists>r s1 t. MoveToHead k s = Some (Some r, s1) \<and>
      evict_states (node_size k v - node_size k old) s1 t \<and> represents t [] \<and> lru_tail t = None \<and>
      free_size t < node_size k v - node_size k old)"
  using assms(1)
proof (cases rule: MoveToHead_cases [where k = k])
  case absent
  with assms(2) show ?thesis by simp
next
  case (present s' r v' cs)
  with assms overwrite_shrink [of s' r k old cs v] shrink_undefined [OF assms] show ?thesis by auto
qed

theorem lru_shrink_undefined_witness:
  "\<exists>s. represents s [(''k'', ''long'')] \<and> Put ''k'' ''s'' s = None \<and> SetValue ''k'' ''s'' s = None"
proof -
  have h: "in_size_t (entry_size ''k'' ''long'')" "no_shrink (unat (max_size (SimpleLRU 1024))) ''k'' ''long'' []"
    by (simp_all add: in_size_t_def entry_size_def no_shrink_def)
  obtain s where s: "represents s [(''k'', ''long'')]" "max_size s = 1024"
    using Put_spec [OF represents_new h] by (auto simp: completes_def cache_store_def SimpleLRU_def entry_size_def)
  then show ?thesis
    using lru_shrink_undefined [OF s(1), of "''k''" "''long''" "''s''"] by auto
qed

text \<open>C36. The destructor of any object a defined sequence of calls leaves behind returns, every
  node it ever allocated and still owned is freed exactly once, and no pointer is left.\<close>

theorem lru_destructor_frees_all:
  assumes "ops_ok (unat cap) xs []"
  shows "\<exists>rs s s'. run_ops xs (SimpleLRU cap) = Some (rs, s) \<and> SimpleLRU_destructor s = Some s' \<and>
    nodes s' = Map.empty \<and> lru_head s' = None \<and> lru_tail s' = None \<and> lru_index s' = Map.empty"
proof -
  have "max_size (SimpleLRU cap) = cap" by (simp add: SimpleLRU_def)
  with assms run_ops_spec [OF represents_new [of cap], of xs] obtain rs s c where
    "run_ops xs (SimpleLRU cap) = Some (rs, s)" "represents s c" by (auto simp: completes_def)
  with destructor_frees show ?thesis by blast
qed

theorem lru_destructor_frees_all_witness:
  "\<exists>rs s s'. run_ops sample_ops (SimpleLRU 9) = Some (rs, s) \<and> SimpleLRU_destructor s = Some s' \<and>
     nodes s' = Map.empty"
proof -
  show ?thesis using lru_destructor_frees_all [OF sample_ops_ok] by blast
qed

text \<open>C37. The byte accounting is exact in every state a defined sequence of calls reaches: the
  sizes of all live nodes and \<open>_free_size\<close> add up to \<open>_max_size\<close>, so the cache never holds more
  than its capacity, and the index holds exactly the keys of the live nodes.\<close>

theorem lru_memory_bounded:
  assumes "ops_ok (unat cap) xs []"
  shows "\<exists>rs s. run_ops xs (SimpleLRU cap) = Some (rs, s) \<and>
    (\<Sum>a \<in> dom (nodes s). entry_size (node_key (the (nodes s a))) (node_value (the (nodes s a))))
      + unat (free_size s) = unat cap \<and>
    (\<forall>k a. lru_index s k = Some a \<longleftrightarrow> (\<exists>n. nodes s a = Some n \<and> node_key n = k))"
proof -
  have "max_size (SimpleLRU cap) = cap" by (simp add: SimpleLRU_def)
  with assms run_ops_spec [OF represents_new [of cap], of xs] obtain rs s c where
    run: "run_ops xs (SimpleLRU cap) = Some (rs, s)" and "represents s c" "max_size s = cap"
    by (auto simp: completes_def)
  with represents_accounting show ?thesis by blast
qed

theorem lru_memory_bounded_witness:
  "\<exists>rs s. run_ops sample_ops (SimpleLRU 9) = Some (rs, s) \<and>
    (\<Sum>a \<in> dom (nodes s). entry_size (node_key (the (nodes s a))) (node_value (the (nodes s a))))
      + unat (free_size s) = 9"
proof -
  show ?thesis using lru_memory_bounded [OF sample_ops_ok] by auto
qed

end
