(* ===== verification/Storage_Interface.thy ===== *)
theory Storage_Interface
  imports Lru_Runs
begin

text \<open>
  The interface \<open>Afina::Storage\<close> (\<open>include/afina/Storage.h\<close>): its virtual functions as a
  record of operations, what its comments promise as a locale, and the interpretation of that
  locale on \<open>SimpleLRU\<close>. The commands and the network layer see a storage only through it.
\<close>

section \<open>The virtual functions\<close>

record 's storage_ops =
  st_put :: "string \<Rightarrow> string \<Rightarrow> 's \<Rightarrow> (bool \<times> 's) option"
  st_put_if_absent :: "string \<Rightarrow> string \<Rightarrow> 's \<Rightarrow> (bool \<times> 's) option"
  st_set :: "string \<Rightarrow> string \<Rightarrow> 's \<Rightarrow> (bool \<times> 's) option"
  st_delete :: "string \<Rightarrow> 's \<Rightarrow> (bool \<times> 's) option"
  st_get :: "string \<Rightarrow> 's \<Rightarrow> (string option \<times> 's) option"

section \<open>The contract\<close>

text \<open>
  \<open>stores look k v s b s'\<close>: the effect of storing \<open>v\<close> under \<open>k\<close> with result \<open>b\<close>. On success
  the association is visible, on failure nothing changed, and in any case no other key got a
  new value (a bounded storage may have dropped it).
\<close>

definition stores ::
  "('s \<Rightarrow> string \<Rightarrow> string option) \<Rightarrow> string \<Rightarrow> string \<Rightarrow> 's \<Rightarrow> bool \<Rightarrow> 's \<Rightarrow> bool" where
  "stores look k v s b s' \<longleftrightarrow>
     (if b then look s' k = Some v else look s' = look s) \<and>
     (\<forall>k'. k' \<noteq> k \<longrightarrow> look s' k' = None \<or> look s' k' = look s k')"

text \<open>
  \<open>accepts k v s\<close> is the provider's precondition for storing \<open>v\<close> under \<open>k\<close>: where it holds,
  the storing operations return.
\<close>

locale storage =
  fixes st :: "'s storage_ops"
    and invar :: "'s \<Rightarrow> bool"
    and look :: "'s \<Rightarrow> string \<Rightarrow> string option"
    and accepts :: "string \<Rightarrow> string \<Rightarrow> 's \<Rightarrow> bool"
  assumes put: "invar s \<Longrightarrow> accepts k v s \<Longrightarrow>
      \<exists>b s'. st_put st k v s = Some (b, s') \<and> invar s' \<and> stores look k v s b s'"
    and put_if_absent_present: "invar s \<Longrightarrow> look s k \<noteq> None \<Longrightarrow>
      st_put_if_absent st k v s = Some (False, s)"
    and put_if_absent: "invar s \<Longrightarrow> look s k = None \<Longrightarrow> accepts k v s \<Longrightarrow>
      \<exists>b s'. st_put_if_absent st k v s = Some (b, s') \<and> invar s' \<and> stores look k v s b s'"
    and set_absent: "invar s \<Longrightarrow> look s k = None \<Longrightarrow> st_set st k v s = Some (False, s)"
    and set_present: "invar s \<Longrightarrow> look s k \<noteq> None \<Longrightarrow> accepts k v s \<Longrightarrow>
      \<exists>b s'. st_set st k v s = Some (b, s') \<and> invar s' \<and> stores look k v s b s'"
    and delete: "invar s \<Longrightarrow>
      \<exists>s'. st_delete st k s = Some (look s k \<noteq> None, s') \<and> invar s' \<and> look s' = (look s)(k := None)"
    and get: "invar s \<Longrightarrow> \<exists>s'. st_get st k s = Some (look s k, s') \<and> invar s' \<and> look s' = look s"
begin

text \<open>"Once method returns true any subsequent access must indicate that the association exists."\<close>

lemma put_then_get:
  assumes "invar s" "accepts k v s" "st_put st k v s = Some (True, s')"
  shows "\<exists>s''. st_get st k s' = Some (Some v, s'') \<and> invar s'' \<and> look s'' = look s'"
proof -
  from put [OF assms(1,2)] assms(3) have "invar s'" "look s' k = Some v" by (auto simp: stores_def)
  with get [of s' k] show ?thesis by simp
qed

lemma delete_then_get:
  assumes "invar s" "st_delete st k s = Some (b, s')"
  shows "\<exists>s''. st_get st k s' = Some (None, s'')" "b \<longleftrightarrow> look s k \<noteq> None"
proof -
  from delete [OF assms(1), of k] assms(2) have "invar s'" "look s' k = None" "b \<longleftrightarrow> look s k \<noteq> None"
    by auto
  with get [of s' k] show "\<exists>s''. st_get st k s' = Some (None, s'')" "b \<longleftrightarrow> look s k \<noteq> None" by auto
qed

end

text \<open>
  A storage bounded in bytes: an association no larger than the capacity is always stored, a
  larger one never, and the capacity does not change.
\<close>

locale bounded_storage = storage +
  fixes capacity :: "'s \<Rightarrow> nat"
  assumes put_fits: "invar s \<Longrightarrow> accepts k v s \<Longrightarrow> st_put st k v s = Some (b, s') \<Longrightarrow>
      b = (entry_size k v \<le> capacity s) \<and> capacity s' = capacity s"
    and get_capacity: "invar s \<Longrightarrow> st_get st k s = Some (r, s') \<Longrightarrow> capacity s' = capacity s"
begin

lemma put_fitting:
  assumes "invar s" "accepts k v s" "entry_size k v \<le> capacity s"
  obtains s' where "st_put st k v s = Some (True, s')" "invar s'" "look s' k = Some v"
  using put [OF assms(1,2)] put_fits [OF assms(1,2)] assms(3) by (force simp: stores_def)

lemma put_oversized:
  assumes "invar s" "accepts k v s" "capacity s < entry_size k v"
  obtains s' where "st_put st k v s = Some (False, s')" "invar s'" "look s' = look s"
  using put [OF assms(1,2)] put_fits [OF assms(1,2)] assms(3) by (force simp: stores_def)

end

section \<open>The interpretation on SimpleLRU\<close>

definition simple_lru_ops :: "simple_lru storage_ops" where
  "simple_lru_ops = \<lparr>st_put = Put, st_put_if_absent = PutIfAbsent, st_set = SetValue,
     st_delete = Delete, st_get = Get\<rparr>"

definition lru_invar :: "simple_lru \<Rightarrow> bool" where
  "lru_invar s \<longleftrightarrow> (\<exists>xs. represents s xs)"

definition lru_look :: "simple_lru \<Rightarrow> string \<Rightarrow> string option" where
  "lru_look s k = (case lru_index s k of None \<Rightarrow> None
     | Some a \<Rightarrow> map_option node_value (nodes s a))"

definition lru_capacity :: "simple_lru \<Rightarrow> nat" where
  "lru_capacity s = unat (max_size s)"

definition lru_accepts :: "string \<Rightarrow> string \<Rightarrow> simple_lru \<Rightarrow> bool" where
  "lru_accepts k v s \<longleftrightarrow> in_size_t (entry_size k v) \<and>
     (case lru_look s k of None \<Rightarrow> True
      | Some old \<Rightarrow> length old \<le> length v \<or> lru_capacity s < entry_size k v)"

lemma lru_look_represents: "represents s xs \<Longrightarrow> lru_look s k = map_of xs k"
  by (erule represents_cases [where k = k]) (auto simp: lru_look_def lru_rep_def)

lemma lru_look_map: "represents s xs \<Longrightarrow> lru_look s = map_of xs"
  by (auto simp: lru_look_represents)

lemma lru_accepts_represents:
  "represents s xs \<Longrightarrow> lru_accepts k v s \<longleftrightarrow>
     in_size_t (entry_size k v) \<and> no_shrink (unat (max_size s)) k v xs"
  by (simp add: lru_accepts_def no_shrink_def lru_look_represents lru_capacity_def split: option.splits)

lemma map_of_evict:
  "distinct (map fst xs) \<Longrightarrow>
     map_of (evict_to cap need xs) k = None \<or> map_of (evict_to cap need xs) k = map_of xs k"
  using evict_to_prefix [of xs cap need] by (cases "map_of (evict_to cap need xs) k") (metis map_of_prefix)+

lemma map_of_cache_store:
  assumes "distinct (map fst xs)"
  shows "let (b, ys) = cache_store cap k v xs in
    b = (entry_size k v \<le> cap) \<and> (if b then map_of ys k = Some v else map_of ys = map_of xs) \<and>
    (\<forall>k'. k' \<noteq> k \<longrightarrow> map_of ys k' = None \<or> map_of ys k' = map_of xs k')"
proof -
  have "map_of (evict_to cap (entry_size k v) (drop_key k xs)) k' = None \<or>
    map_of (evict_to cap (entry_size k v) (drop_key k xs)) k' = map_of xs k'" if "k' \<noteq> k" for k'
    using map_of_evict [OF distinct_drop_key [OF assms, of k], of cap "entry_size k v" k'] that
    by (auto simp: map_of_drop_key)
  then show ?thesis by (auto simp: cache_store_def map_of_touch)
qed

lemma completes_store:
  assumes "represents s xs" "completes m (max_size s) (cache_store (unat (max_size s)) k v xs)"
  shows "\<exists>b s'. m = Some (b, s') \<and> b = (entry_size k v \<le> lru_capacity s) \<and> lru_capacity s' = lru_capacity s \<and>
    lru_invar s' \<and> stores lru_look k v s b s'"
proof -
  from assms(1) have d: "distinct (map fst xs)" using represents_wf by (auto simp: cache_wf_def)
  obtain b ys where bys: "cache_store (unat (max_size s)) k v xs = (b, ys)" by fastforce
  with assms(2) obtain s' where "m = Some (b, s')" "represents s' ys" "max_size s' = max_size s"
    by (auto simp: completes_def)
  moreover from this map_of_cache_store [OF d, of "unat (max_size s)" k v] bys assms(1)
  have "stores lru_look k v s b s'" "b = (entry_size k v \<le> lru_capacity s)"
    by (simp_all add: stores_def lru_look_map lru_capacity_def)
  ultimately show ?thesis by (auto simp: lru_invar_def lru_capacity_def)
qed

lemma lru_put_law:
  assumes "lru_invar s" "lru_accepts k v s"
  shows "\<exists>b s'. Put k v s = Some (b, s') \<and> b = (entry_size k v \<le> lru_capacity s) \<and>
    lru_capacity s' = lru_capacity s \<and> lru_invar s' \<and> stores lru_look k v s b s'"
proof -
  from assms obtain xs where "represents s xs" by (auto simp: lru_invar_def)
  with assms(2) show ?thesis by (intro completes_store Put_spec) (auto simp: lru_accepts_represents)
qed

lemma lru_get_law:
  assumes "lru_invar s"
  shows "\<exists>s'. Get k s = Some (lru_look s k, s') \<and> lru_invar s' \<and> lru_look s' = lru_look s \<and>
    lru_capacity s' = lru_capacity s"
proof -
  from assms obtain xs where "represents s xs" by (auto simp: lru_invar_def)
  with Get_spec [of s xs k] show ?thesis
    by (auto simp: completes_def cache_get_def lru_invar_def lru_look_map map_of_touch lru_capacity_def)
qed

lemma lru_delete_law:
  assumes "lru_invar s"
  shows "\<exists>s'. Delete k s = Some (lru_look s k \<noteq> None, s') \<and> lru_invar s' \<and>
    lru_look s' = (lru_look s)(k := None)"
proof -
  from assms obtain xs where "represents s xs" by (auto simp: lru_invar_def)
  with Delete_spec [of s xs k] show ?thesis
    by (auto simp: completes_def cache_remove_def lru_invar_def lru_look_map map_of_drop_key)
qed

interpretation lru: bounded_storage simple_lru_ops lru_invar lru_look lru_accepts lru_capacity
proof (unfold_locales, goal_cases)
  case (1 s k v)
  then show ?case using lru_put_law [of s k v] by (auto simp: simple_lru_ops_def)
next
  case (2 s k v)
  then show ?case
    by (auto simp: simple_lru_ops_def PutIfAbsent_def lru_look_def split: option.splits)
next
  case (3 s k v)
  then obtain xs where xs: "represents s xs" by (auto simp: lru_invar_def)
  with 3 have "completes (PutIfAbsent k v s) (max_size s) (cache_store (unat (max_size s)) k v xs)"
    using PutIfAbsent_spec [of s xs k v] by (simp add: cache_add_def lru_look_map lru_accepts_def)
  from completes_store [OF xs this] show ?case by (auto simp: simple_lru_ops_def)
next
  case (4 s k v)
  then obtain xs where xs: "represents s xs" "map_of xs k = None"
    by (auto simp: lru_invar_def lru_look_map)
  from xs(1) show ?case
    by (cases rule: MoveToHead_cases [where k = k]) (auto simp: xs(2) simple_lru_ops_def SetValue_def)
next
  case (5 s k v)
  then obtain xs where xs: "represents s xs" by (auto simp: lru_invar_def)
  with 5 have "completes (SetValue k v s) (max_size s) (cache_store (unat (max_size s)) k v xs)"
    using SetValue_spec [of s xs k v]
    by (auto simp: cache_update_def lru_look_map lru_accepts_represents split: if_splits)
  from completes_store [OF xs this] show ?case by (auto simp: simple_lru_ops_def)
next
  case (6 s k)
  then show ?case using lru_delete_law by (simp add: simple_lru_ops_def)
next
  case (7 s k)
  then show ?case using lru_get_law [of s k] by (auto simp: simple_lru_ops_def)
next
  case (8 s k v b s')
  then show ?case using lru_put_law [of s k v] by (auto simp: simple_lru_ops_def)
next
  case (9 s k r s')
  then show ?case using lru_get_law [of s k] by (auto simp: simple_lru_ops_def)
qed

end
