(* ===== verification/Transition_Systems.thy ===== *)
theory Transition_Systems
  imports Afina_Prelude
begin

text \<open>
  What the components with threads share: the states a step relation reaches, and four contracts a
  component can show of its steps, each with what follows for whole runs. An invariant is kept; a
  quantity is conserved; a measure of the work left decreases, so that the number of steps is
  bounded; what a component shows of its state moves as an abstract system does.
\<close>

inductive reaches :: "('s \<Rightarrow> 's \<Rightarrow> bool) \<Rightarrow> 's \<Rightarrow> 's \<Rightarrow> bool" for step where
  reaches_refl: "reaches step s s"
| reaches_step: "reaches step s t \<Longrightarrow> step t u \<Longrightarrow> reaches step s u"

lemma reaches_one: "step s t \<Longrightarrow> reaches step s t"
  by (rule reaches_step [OF reaches_refl])

lemma reaches_trans:
  assumes "reaches step s t" "reaches step t u"
  shows "reaches step s u"
  using assms(2, 1) by (induction rule: reaches.induct) (auto intro: reaches_step)

lemma relpowp_reaches: "(step ^^ n) s t \<Longrightarrow> reaches step s t"
  by (induction n arbitrary: t) (auto intro: reaches.intros)

locale step_invariant =
  fixes step :: "'s \<Rightarrow> 's \<Rightarrow> bool" and inv :: "'s \<Rightarrow> bool"
  assumes preserved: "step s t \<Longrightarrow> inv s \<Longrightarrow> inv t"
begin

lemma along: "reaches step s t \<Longrightarrow> inv s \<Longrightarrow> inv t"
  by (induction rule: reaches.induct) (auto intro: preserved)

lemma along_n: "(step ^^ n) s t \<Longrightarrow> inv s \<Longrightarrow> inv t"
  by (induction n arbitrary: t) (auto intro: preserved)

end

locale conserved_quantity =
  fixes step :: "'s \<Rightarrow> 's \<Rightarrow> bool" and quantity :: "'s \<Rightarrow> 'a"
  assumes conserved: "step s t \<Longrightarrow> quantity t = quantity s"

sublocale conserved_quantity \<subseteq> step_invariant step "\<lambda>s. quantity s = x" for x
  by unfold_locales (simp add: conserved)

locale decreasing_work = step_invariant +
  fixes work :: "'s \<Rightarrow> nat"
  assumes decreases: "step s t \<Longrightarrow> inv s \<Longrightarrow> work t < work s"
begin

lemma steps_bounded: "(step ^^ n) s t \<Longrightarrow> inv s \<Longrightarrow> n + work t \<le> work s"
proof (induction n arbitrary: t)
  case (Suc n)
  then obtain u where u: "(step ^^ n) s u" "step u t" by auto
  from Suc.IH [OF u(1) Suc.prems(2)] decreases [OF u(2) along_n [OF u(1) Suc.prems(2)]] show ?case by simp
qed simp

end

text \<open>A refinement mapping: every step either shows nothing or is a step of the abstract system.\<close>

locale refinement_map = step_invariant +
  fixes abstract_step :: "'b \<Rightarrow> 'b \<Rightarrow> bool" and shown :: "'a \<Rightarrow> 'b"
  assumes simulated: "step s t \<Longrightarrow> inv s \<Longrightarrow> shown t = shown s \<or> abstract_step (shown s) (shown t)"
begin

lemma run_simulated: "reaches step s t \<Longrightarrow> inv s \<Longrightarrow> reaches abstract_step (shown s) (shown t)"
proof (induction rule: reaches.induct)
  case (reaches_step s t u)
  from simulated [OF reaches_step.hyps(2) along [OF reaches_step.hyps(1) reaches_step.prems]] reaches_step.IH [OF reaches_step.prems]
  show ?case by (auto intro: reaches.reaches_step)
qed (rule reaches_refl)

end

end
