(* ===== verification/Thread_Safe_LRU.thy ===== *)
theory Thread_Safe_LRU
  imports Storage_Interface Transition_Systems
begin

text \<open>
  \<open>ThreadSafeSimplLRU\<close> (\<open>src/storage/ThreadSafeSimpleLRU.h\<close>): every member function takes the
  lock \<open>storage_lock\<close> for the whole call of the base class. First the calls of one thread, which
  make it another provider of the storage interface, then any number of threads whose steps
  interleave.
\<close>

section \<open>One caller\<close>

record ts_lru =
  ts_base :: simple_lru
  storage_lock :: bool

definition ThreadSafeSimplLRU :: "size_t \<Rightarrow> ts_lru" where
  "ThreadSafeSimplLRU n = \<lparr>ts_base = SimpleLRU n, storage_lock = False\<rparr>"

text \<open>\<open>std::lock_guard\<close>: a thread that locks a mutex it holds has no defined outcome.\<close>

definition locked :: "(simple_lru \<Rightarrow> ('r \<times> simple_lru) option) \<Rightarrow> ts_lru \<Rightarrow> ('r \<times> ts_lru) option" where
  "locked f t = do {
     t \<leftarrow> (if storage_lock t then None else Some (t\<lparr>storage_lock := True\<rparr>));
     (r, b) \<leftarrow> f (ts_base t);
     Some (r, t\<lparr>ts_base := b, storage_lock := False\<rparr>) }"

definition thread_safe_ops :: "ts_lru storage_ops" where
  "thread_safe_ops = \<lparr>st_put = \<lambda>k v. locked (Put k v), st_put_if_absent = \<lambda>k v. locked (PutIfAbsent k v),
     st_set = \<lambda>k v. locked (SetValue k v), st_delete = \<lambda>k. locked (Delete k), st_get = \<lambda>k. locked (Get k)\<rparr>"

definition ts_invar :: "ts_lru \<Rightarrow> bool" where
  "ts_invar t \<longleftrightarrow> \<not> storage_lock t \<and> lru_invar (ts_base t)"

definition ts_look :: "ts_lru \<Rightarrow> string \<Rightarrow> string option" where
  "ts_look t = lru_look (ts_base t)"

definition ts_accepts :: "string \<Rightarrow> string \<Rightarrow> ts_lru \<Rightarrow> bool" where
  "ts_accepts k v t = lru_accepts k v (ts_base t)"

definition ts_capacity :: "ts_lru \<Rightarrow> nat" where
  "ts_capacity t = lru_capacity (ts_base t)"

lemma locked_eq:
  "\<not> storage_lock t \<Longrightarrow> locked f t = map_option (\<lambda>(r, b). (r, t\<lparr>ts_base := b\<rparr>)) (f (ts_base t))"
  by (cases "f (ts_base t)") (auto simp: locked_def)

lemma locked_law:
  assumes "ts_invar t" and "\<exists>r b. f (ts_base t) = Some (r, b) \<and> lru_invar b \<and> P r b"
  shows "\<exists>r t'. locked f t = Some (r, t') \<and> ts_invar t' \<and> P r (ts_base t')"
  using assms by (auto simp: ts_invar_def locked_eq)

lemmas ts_defs = thread_safe_ops_def ts_look_def ts_accepts_def ts_capacity_def

lemma stores_ts: "stores ts_look k v t b t' = stores lru_look k v (ts_base t) b (ts_base t')"
  by (simp add: stores_def ts_look_def)

interpretation ts: bounded_storage thread_safe_ops ts_invar ts_look ts_accepts ts_capacity
proof (unfold_locales, goal_cases)
  case (1 t k v)
  then show ?case using locked_law [OF 1(1), of "Put k v" "\<lambda>b s'. stores lru_look k v (ts_base t) b s'"]
      lru.put [of "ts_base t" k v] by (auto simp: ts_defs ts_invar_def simple_lru_ops_def stores_ts)
next
  case (2 t k v)
  then show ?case using lru.put_if_absent_present [of "ts_base t" k v]
    by (auto simp: ts_defs ts_invar_def simple_lru_ops_def locked_eq)
next
  case (3 t k v)
  then show ?case using locked_law [OF 3(1), of "PutIfAbsent k v" "\<lambda>b s'. stores lru_look k v (ts_base t) b s'"]
      lru.put_if_absent [of "ts_base t" k v] by (auto simp: ts_defs ts_invar_def simple_lru_ops_def stores_ts)
next
  case (4 t k v)
  then show ?case using lru.set_absent [of "ts_base t" k v]
    by (auto simp: ts_defs ts_invar_def simple_lru_ops_def locked_eq)
next
  case (5 t k v)
  then show ?case using locked_law [OF 5(1), of "SetValue k v" "\<lambda>b s'. stores lru_look k v (ts_base t) b s'"]
      lru.set_present [of "ts_base t" k v] by (auto simp: ts_defs ts_invar_def simple_lru_ops_def stores_ts)
next
  case (6 t k)
  then show ?case using lru.delete [of "ts_base t" k]
    by (auto simp: ts_defs ts_invar_def simple_lru_ops_def locked_eq)
next
  case (7 t k)
  then show ?case using lru.get [of "ts_base t" k]
    by (auto simp: ts_defs ts_invar_def simple_lru_ops_def locked_eq)
next
  case (8 t k v b t')
  then show ?case using lru.put_fits [of "ts_base t" k v]
    by (auto simp: ts_defs ts_invar_def simple_lru_ops_def locked_eq)
next
  case (9 t k r t')
  then show ?case using lru.get_capacity [of "ts_base t" k]
    by (auto simp: ts_defs ts_invar_def simple_lru_ops_def locked_eq)
qed

section \<open>Any number of callers\<close>

text \<open>
  A thread is outside, holds the lock, has read the object and works on what it read, or is
  about to release the lock. Reading and writing back are separate steps, so that without the
  lock an update made in between would be lost. \<open>ts_log\<close> records the finished calls.
\<close>

datatype ts_phase = Outside | Holding lru_op | Working lru_op simple_lru | Leaving op_result

record ts_sys =
  ts_object :: simple_lru
  ts_owner :: "nat option"
  ts_phase :: "nat \<Rightarrow> ts_phase"
  ts_log :: "(nat \<times> lru_op \<times> op_result) list"

definition ts_start :: "simple_lru \<Rightarrow> ts_sys" where
  "ts_start s = \<lparr>ts_object = s, ts_owner = None, ts_phase = (\<lambda>_. Outside), ts_log = []\<rparr>"

inductive ts_step :: "ts_sys \<Rightarrow> ts_sys \<Rightarrow> bool" where
  acquire: "ts_phase s i = Outside \<Longrightarrow> ts_owner s = None \<Longrightarrow>
    ts_step s (s\<lparr>ts_owner := Some i, ts_phase := (ts_phase s)(i := Holding x)\<rparr>)"
| read_object: "ts_phase s i = Holding x \<Longrightarrow>
    ts_step s (s\<lparr>ts_phase := (ts_phase s)(i := Working x (ts_object s))\<rparr>)"
| write_object: "ts_phase s i = Working x v \<Longrightarrow> run_op x v = Some (r, v') \<Longrightarrow>
    ts_step s (s\<lparr>ts_object := v', ts_phase := (ts_phase s)(i := Leaving r), ts_log := ts_log s @ [(i, x, r)]\<rparr>)"
| release: "ts_phase s i = Leaving r \<Longrightarrow>
    ts_step s (s\<lparr>ts_owner := None, ts_phase := (ts_phase s)(i := Outside)\<rparr>)"

abbreviation ts_reachable :: "simple_lru \<Rightarrow> ts_sys \<Rightarrow> bool" where
  "ts_reachable s0 \<equiv> reaches ts_step (ts_start s0)"

definition ts_inv :: "simple_lru \<Rightarrow> ts_sys \<Rightarrow> bool" where
  "ts_inv s0 s \<longleftrightarrow>
     (\<forall>i. ts_phase s i \<noteq> Outside \<longleftrightarrow> ts_owner s = Some i) \<and>
     (\<forall>i x v. ts_phase s i = Working x v \<longrightarrow> v = ts_object s) \<and>
     run_ops (map (fst \<circ> snd) (ts_log s)) s0 = Some (map (snd \<circ> snd) (ts_log s), ts_object s)"

lemma run_ops_snoc:
  "run_ops (xs @ [x]) s = do { (rs, s) \<leftarrow> run_ops xs s; (r, s) \<leftarrow> run_op x s; Some (rs @ [r], s) }"
proof (induction xs arbitrary: s)
  case Nil
  show ?case by (cases "run_op x s") auto
next
  case (Cons y xs)
  show ?case
  proof (cases "run_op y s")
    case (Some p)
    then obtain r s' where p: "run_op y s = Some (r, s')" by (cases p) auto
    then show ?thesis using Cons [of s'] by (cases "run_ops xs s'") (auto simp: bind_eq_Some_conv split: Option.bind_splits)
  qed simp
qed

lemma only_owner_inside:
  "ts_inv s0 s \<Longrightarrow> ts_phase s i \<noteq> Outside \<Longrightarrow> j \<noteq> i \<Longrightarrow> ts_phase s j = Outside"
  unfolding ts_inv_def by (metis option.inject)

lemma ts_step_inv: "ts_step s t \<Longrightarrow> ts_inv s0 s \<Longrightarrow> ts_inv s0 t"
proof (induction rule: ts_step.induct)
  case (acquire s i x)
  then show ?case by (auto simp: ts_inv_def)
next
  case (read_object s i x)
  then show ?case by (auto simp: ts_inv_def)
next
  case (write_object s i x v r v')
  then have v: "v = ts_object s" "ts_owner s = Some i" by (auto simp: ts_inv_def)
  have out: "ts_phase s j = Outside" if "j \<noteq> i" for j
    using only_owner_inside [of s0 s i j] write_object that by simp
  from write_object.prems have
    "run_ops (map (fst \<circ> snd) (ts_log s)) s0 = Some (map (snd \<circ> snd) (ts_log s), ts_object s)"
    by (simp add: ts_inv_def)
  with write_object.hyps(2) v show ?case by (simp add: ts_inv_def run_ops_snoc out)
next
  case (release s i r)
  then have "ts_phase s j = Outside" if "j \<noteq> i" for j
    using only_owner_inside [of s0 s i j] that by simp
  with release.prems show ?case by (simp add: ts_inv_def)
qed

interpretation ts_lock: step_invariant ts_step "ts_inv s0" for s0
  by unfold_locales (rule ts_step_inv)

lemma ts_reachable_inv: "ts_reachable s0 s \<Longrightarrow> ts_inv s0 s"
  by (erule ts_lock.along) (simp_all add: ts_inv_def ts_start_def)

section \<open>Properties\<close>

text \<open>C14. Linearisability of the locked storage: in every state that any number of threads reach by
  interleaved steps, at most one thread is inside a storage call, and the finished calls, in the
  order in which they finished, returned what the same sequence of calls returns when one thread
  makes them, leaving the same object. No update is lost, although each call reads the object and
  writes it back in separate steps.\<close>

theorem ts_linearizable:
  assumes "ts_reachable s0 s"
  shows "(\<forall>i j. ts_phase s i \<noteq> Outside \<and> ts_phase s j \<noteq> Outside \<longrightarrow> i = j) \<and>
    run_ops (map (fst \<circ> snd) (ts_log s)) s0 = Some (map (snd \<circ> snd) (ts_log s), ts_object s)"
  using ts_reachable_inv [OF assms] by (auto simp: ts_inv_def)

lemma run_delete_fresh: "run_op (OpDelete k) (SimpleLRU n) = Some (Stored False, SimpleLRU n)"
  by (simp add: Delete_def SimpleLRU_def)

theorem ts_linearizable_witness:
  "\<exists>s. ts_reachable (SimpleLRU 8) s \<and> ts_log s = [(3, OpDelete ''k'', Stored False)] \<and>
     run_ops [OpDelete ''k''] (SimpleLRU 8) = Some ([Stored False], ts_object s)"
proof -
  let ?x = "OpDelete ''k''" and ?s0 = "ts_start (SimpleLRU 8)"
  let ?s1 = "?s0\<lparr>ts_owner := Some 3, ts_phase := (ts_phase ?s0)(3 := Holding ?x)\<rparr>"
  let ?s2 = "?s1\<lparr>ts_phase := (ts_phase ?s1)(3 := Working ?x (ts_object ?s1))\<rparr>"
  let ?s3 = "?s2\<lparr>ts_object := SimpleLRU 8, ts_phase := (ts_phase ?s2)(3 := Leaving (Stored False)),
    ts_log := ts_log ?s2 @ [(3, ?x, Stored False)]\<rparr>"
  have "ts_step ?s0 ?s1" by (rule ts_step.acquire) (simp_all add: ts_start_def)
  moreover have "ts_step ?s1 ?s2" by (rule ts_step.read_object) simp
  moreover have "ts_step ?s2 ?s3"
    by (rule ts_step.write_object [where v = "SimpleLRU 8"])
      (simp_all add: ts_start_def run_delete_fresh del: run_op.simps)
  ultimately have reach: "ts_reachable (SimpleLRU 8) ?s3"
    by (meson reaches_refl reaches_step)
  with ts_linearizable [OF reach] show ?thesis by (intro exI [of _ ?s3]) (simp add: ts_start_def)
qed

end
