(* ===== verification/Commands.thy ===== *)
theory Commands
  imports Thread_Safe_LRU
begin

text \<open>
  The commands (\<open>include/afina/execute/*.h\<close>, \<open>src/execute/*.cpp\<close>): one definition per
  \<open>Execute\<close> member function, over the operations of any storage. The console output each
  command writes to \<open>std::cout\<close> is left out. \<open>Delete\<close> is declared in \<open>Delete.h\<close> but has no
  definition in the repository, so there is no such constructor.
\<close>

section \<open>Command objects\<close>

text \<open>The members of \<open>InsertCommand\<close>: key, flags, expiration time.\<close>

datatype command =
    SetCmd string u32 i32
  | AddCmd string u32 i32
  | AppendCmd string u32 i32
  | ReplaceCmd string u32 i32
  | GetCmd "string list"
  | StatsCmd

section \<open>Execute\<close>

definition Set_Execute :: "'s storage_ops \<Rightarrow> string \<Rightarrow> string \<Rightarrow> 's \<Rightarrow> (string \<times> 's) option" where
  "Set_Execute st key args s = do {
     (_, s) \<leftarrow> st_put st key args s;
     Some (''STORED'', s) }"

definition Add_Execute :: "'s storage_ops \<Rightarrow> string \<Rightarrow> string \<Rightarrow> 's \<Rightarrow> (string \<times> 's) option" where
  "Add_Execute st key args s = do {
     (b, s) \<leftarrow> st_put_if_absent st key args s;
     Some (if b then ''STORED'' else ''NOT_STORED'', s) }"

definition Append_Execute :: "'s storage_ops \<Rightarrow> string \<Rightarrow> string \<Rightarrow> 's \<Rightarrow> (string \<times> 's) option" where
  "Append_Execute st key args s = do {
     (found, s) \<leftarrow> st_get st key s;
     case found of None \<Rightarrow> Some (''NOT_STORED'', s)
     | Some v \<Rightarrow> do {
         (_, s) \<leftarrow> st_put st key (v @ args) s;
         Some (''STORED'', s) } }"

definition Replace_Execute :: "'s storage_ops \<Rightarrow> string \<Rightarrow> string \<Rightarrow> 's \<Rightarrow> (string \<times> 's) option" where
  "Replace_Execute st key args s = do {
     (found, s) \<leftarrow> st_get st key s;
     case found of None \<Rightarrow> Some (''NOT_STORED'', s)
     | Some _ \<Rightarrow> do {
         (_, s) \<leftarrow> st_set st key args s;
         Some (''STORED'', s) } }"

text \<open>What \<open>operator<<\<close> writes for an unsigned number.\<close>

fun decimal :: "nat \<Rightarrow> string" where
  "decimal n = (if n < 10 then [char_of (48 + n)] else decimal (n div 10) @ [char_of (48 + n mod 10)])"

declare decimal.simps [simp del]

definition crlf :: string where
  "crlf = [CHR 0x0D, CHR 0x0A]"

definition value_item :: "string \<Rightarrow> string \<Rightarrow> string" where
  "value_item key v = ''VALUE '' @ key @ '' 0 '' @ decimal (length v) @ crlf @ v @ crlf"

text \<open>The loop of \<open>Get::Execute\<close> over \<open>_keys\<close>, with what it writes to the string stream.\<close>

fun get_items :: "'s storage_ops \<Rightarrow> string list \<Rightarrow> 's \<Rightarrow> (string \<times> 's) option" where
  "get_items st [] s = Some ([], s)"
| "get_items st (key # keys) s = do {
     (found, s) \<leftarrow> st_get st key s;
     (rest, s) \<leftarrow> get_items st keys s;
     Some ((case found of None \<Rightarrow> [] | Some v \<Rightarrow> value_item key v) @ rest, s) }"

definition Get_Execute :: "'s storage_ops \<Rightarrow> string list \<Rightarrow> 's \<Rightarrow> (string \<times> 's) option" where
  "Get_Execute st keys s = do {
     (items, s) \<leftarrow> get_items st keys s;
     Some (items @ ''END'', s) }"

definition Stats_Execute :: "'s \<Rightarrow> (string \<times> 's) option" where
  "Stats_Execute s = Some (''END'', s)"

text \<open>The virtual call \<open>command->Execute(storage, args, out)\<close>.\<close>

fun execute :: "'s storage_ops \<Rightarrow> command \<Rightarrow> string \<Rightarrow> 's \<Rightarrow> (string \<times> 's) option" where
  "execute st (SetCmd key _ _) args s = Set_Execute st key args s"
| "execute st (AddCmd key _ _) args s = Add_Execute st key args s"
| "execute st (AppendCmd key _ _) args s = Append_Execute st key args s"
| "execute st (ReplaceCmd key _ _) args s = Replace_Execute st key args s"
| "execute st (GetCmd keys) args s = Get_Execute st keys s"
| "execute st StatsCmd args s = Stats_Execute s"

text \<open>Commands executed one after another by one thread.\<close>

fun run_commands :: "'s storage_ops \<Rightarrow> (command \<times> string) list \<Rightarrow> 's \<Rightarrow> (string list \<times> 's) option" where
  "run_commands st [] s = Some ([], s)"
| "run_commands st ((c, args) # cs) s = do {
     (out, s) \<leftarrow> execute st c args s;
     (outs, s) \<leftarrow> run_commands st cs s;
     Some (out # outs, s) }"

section \<open>Decimal numbers\<close>

lemma decimal_not_Nil [simp]: "decimal n \<noteq> []"
  by (subst decimal.simps) simp

definition digit_value :: "char \<Rightarrow> nat" where
  "digit_value c = of_char c - 48"

definition decimal_value :: "string \<Rightarrow> nat" where
  "decimal_value ds = foldl (\<lambda>n c. n * 10 + digit_value c) 0 ds"

lemma digit_value_char [simp]: "d < 10 \<Longrightarrow> digit_value (char_of (48 + d)) = d"
  by (simp add: digit_value_def of_char_of)

lemma decimal_value_decimal: "decimal_value (decimal n) = n"
proof (induction n rule: decimal.induct)
  case (1 n)
  show ?case
  proof (cases "n < 10")
    case True
    then show ?thesis by (simp add: decimal.simps [of n] decimal_value_def)
  next
    case False
    with 1 show ?thesis by (simp add: decimal.simps [of n] decimal_value_def)
  qed
qed

lemma decimal_digits: "c \<in> set (decimal n) \<Longrightarrow> 48 \<le> (of_char c :: nat) \<and> (of_char c :: nat) \<le> 57"
proof (induction n rule: decimal.induct)
  case (1 n)
  then show ?case by (cases "n < 10") (auto simp: decimal.simps [of n] of_char_of)
qed

section \<open>The commands over any storage\<close>

definition get_reply :: "(string \<Rightarrow> string option) \<Rightarrow> string list \<Rightarrow> string" where
  "get_reply look keys =
     concat (map (\<lambda>k. case look k of None \<Rightarrow> [] | Some v \<Rightarrow> value_item k v) keys) @ ''END''"

context storage begin

lemma get_items_result:
  "invar s \<Longrightarrow> \<exists>s'. get_items st keys s =
     Some (concat (map (\<lambda>k. case look s k of None \<Rightarrow> [] | Some v \<Rightarrow> value_item k v) keys), s') \<and>
     invar s' \<and> look s' = look s"
proof (induction keys arbitrary: s)
  case (Cons k keys)
  from get [OF Cons.prems, of k] obtain s1 where
    s1: "st_get st k s = Some (look s k, s1)" "invar s1" "look s1 = look s" by blast
  from Cons.IH [OF s1(2)] obtain s2 where
    "get_items st keys s1 = Some (concat (map (\<lambda>k. case look s k of None \<Rightarrow> [] | Some v \<Rightarrow> value_item k v) keys), s2)"
    "invar s2" "look s2 = look s" unfolding s1(3) by blast
  with s1(1) show ?case by simp
qed simp

lemma Get_Execute_result:
  assumes "invar s"
  shows "\<exists>s'. Get_Execute st keys s = Some (get_reply (look s) keys, s') \<and> invar s' \<and> look s' = look s"
  using get_items_result [OF assms, of keys] by (auto simp: Get_Execute_def get_reply_def)

lemma Add_Execute_present:
  assumes "invar s" "look s k \<noteq> None"
  shows "Add_Execute st k args s = Some (''NOT_STORED'', s)"
  using put_if_absent_present [OF assms] by (simp add: Add_Execute_def)

lemma Add_Execute_absent:
  assumes "invar s" "look s k = None" "accepts k args s"
  shows "\<exists>b s'. Add_Execute st k args s = Some (if b then ''STORED'' else ''NOT_STORED'', s') \<and> invar s' \<and>
    stores look k args s b s'"
proof -
  from put_if_absent [OF assms] obtain b s' where
    "st_put_if_absent st k args s = Some (b, s')" "invar s'" "stores look k args s b s'" by blast
  then show ?thesis by (intro exI [of _ b] exI [of _ s']) (simp add: Add_Execute_def)
qed

lemma Append_Execute_absent:
  assumes "invar s" "look s k = None"
  shows "\<exists>s'. Append_Execute st k args s = Some (''NOT_STORED'', s') \<and> invar s' \<and> look s' = look s"
proof -
  from get [OF assms(1), of k, unfolded assms(2)] obtain s' where
    "st_get st k s = Some (None, s')" "invar s'" "look s' = look s" by blast
  then show ?thesis by (simp add: Append_Execute_def)
qed

lemma Replace_Execute_absent:
  assumes "invar s" "look s k = None"
  shows "\<exists>s'. Replace_Execute st k args s = Some (''NOT_STORED'', s') \<and> invar s' \<and> look s' = look s"
proof -
  from get [OF assms(1), of k, unfolded assms(2)] obtain s' where
    "st_get st k s = Some (None, s')" "invar s'" "look s' = look s" by blast
  then show ?thesis by (simp add: Replace_Execute_def)
qed

text \<open>A command that the storage accepts leaves the storage in a valid state.\<close>

lemma Set_Execute_result:
  assumes "invar s" "accepts k args s"
  shows "\<exists>b s'. Set_Execute st k args s = Some (''STORED'', s') \<and> invar s' \<and> stores look k args s b s'"
proof -
  from put [OF assms] obtain b s' where
    "st_put st k args s = Some (b, s')" "invar s'" "stores look k args s b s'" by blast
  then show ?thesis by (auto simp: Set_Execute_def)
qed

end

text \<open>
  The precondition of a store must survive the \<open>Get\<close> that \<open>append\<close> and \<open>replace\<close> make first;
  a provider whose precondition depends only on the visible associations and the capacity
  has that.
\<close>

locale command_storage = bounded_storage +
  assumes accepts_look: "look s' = look s \<Longrightarrow> capacity s' = capacity s \<Longrightarrow> accepts k v s \<Longrightarrow> accepts k v s'"
begin

lemma set_then_get:
  assumes "invar s" "accepts k args s" "entry_size k args \<le> capacity s"
  shows "\<exists>s' s''. Set_Execute st k args s = Some (''STORED'', s') \<and>
    Get_Execute st [k] s' = Some (value_item k args @ ''END'', s'')"
proof -
  from put_fitting [OF assms] obtain s' where
    "st_put st k args s = Some (True, s')" "invar s'" "look s' k = Some args" by blast
  with Get_Execute_result [of s' "[k]"] show ?thesis
    by (auto simp: Set_Execute_def get_reply_def)
qed

text \<open>\<open>Set::Execute\<close> ignores the result of \<open>Put\<close>.\<close>

lemma set_oversized:
  assumes "invar s" "accepts k args s" "capacity s < entry_size k args"
  shows "\<exists>s'. Set_Execute st k args s = Some (''STORED'', s') \<and> invar s' \<and> look s' = look s"
proof -
  from put_oversized [OF assms] obtain s' where
    "st_put st k args s = Some (False, s')" "invar s'" "look s' = look s" by blast
  then show ?thesis by (simp add: Set_Execute_def)
qed

lemma append_then_get:
  assumes "invar s" "look s k = Some v" "accepts k (v @ args) s" "entry_size k (v @ args) \<le> capacity s"
  shows "\<exists>s' s''. Append_Execute st k args s = Some (''STORED'', s') \<and>
    Get_Execute st [k] s' = Some (value_item k (v @ args) @ ''END'', s'')"
proof -
  from get [OF assms(1), of k, unfolded assms(2)] obtain s1 where
    s1: "st_get st k s = Some (Some v, s1)" "invar s1" "look s1 = look s" by blast
  have cap: "capacity s1 = capacity s" using get_capacity [OF assms(1) s1(1)] .
  have "accepts k (v @ args) s1" using accepts_look [OF s1(3) cap assms(3)] .
  with put_fitting [of s1 k "v @ args"] s1(2) cap assms(4) obtain s' where
    "st_put st k (v @ args) s1 = Some (True, s')" "invar s'" "look s' k = Some (v @ args)" by auto
  with s1(1) Get_Execute_result [of s' "[k]"] show ?thesis
    by (auto simp: Append_Execute_def get_reply_def)
qed

end

section \<open>The interpretations\<close>

interpretation lru_cmd: command_storage simple_lru_ops lru_invar lru_look lru_accepts lru_capacity
  by unfold_locales (auto simp: lru_accepts_def split: option.splits)

interpretation ts_cmd: command_storage thread_safe_ops ts_invar ts_look ts_accepts ts_capacity
  by unfold_locales (auto simp: ts_defs lru_accepts_def split: option.splits)

end
