(* ===== verification/Protocol_Parser.thy ===== *)
theory Protocol_Parser
  imports Commands
begin

text \<open>
  The parser of the memcached text protocol (\<open>src/protocol/Parser.h\<close>, \<open>Parser.cpp\<close>): its
  members as a record, one character of the loop of \<open>Parse\<close> as \<open>parse_char\<close>, the loop, \<open>Build\<close>
  and \<open>Reset\<close>. An exception is a value next to the state the parser is left in, since the
  connections keep the parser after one.
\<close>

section \<open>State\<close>

datatype parser_state = sCR | sLF | sName | spKey | spFlags | spExprTimeStart | spExprTime | spBytes | sgKey

record parser =
  p_state :: parser_state
  p_name :: string
  p_keys :: "string list"
  p_flags :: u32
  p_exprtime :: i32
  p_bytes :: u32
  p_negative :: bool
  p_curKey :: string
  p_complete :: bool

text \<open>
  The exceptions, and the two undefined behaviours the text of the program contains: signed
  overflow of the expiration time and \<open>keys[0]\<close> on an empty vector.
\<close>

datatype parse_error =
    UnknownCommand string
  | NoKeys
  | FlagsOverflow
  | ExprTimeOverflow
  | BytesOverflow
  | InvalidChar char nat
  | UnknownState
  | UnsupportedCommand
  | SignedOverflow
  | KeysOutOfRange

section \<open>Parse\<close>

text \<open>The integer literals and the arithmetic on \<open>int32_t\<close>.\<close>

definition is_digit :: "char \<Rightarrow> bool" where
  "is_digit c \<longleftrightarrow> 48 \<le> (of_char c :: nat) \<and> (of_char c :: nat) \<le> 57"

definition int32 :: "int \<Rightarrow> i32 option" where
  "int32 i = (if - (2 ^ 31) \<le> i \<and> i < 2 ^ 31 then Some (word_of_int i) else None)"

definition insert_names :: "string list" where
  "insert_names = [''set'', ''add'', ''append'', ''prepend'']"

definition retrieve_names :: "string list" where
  "retrieve_names = [''get'', ''gets'']"

definition CR :: char where "CR = CHR 0x0D"

definition LF :: char where "LF = CHR 0x0A"

definition SP :: char where "SP = CHR 0x20"

definition MINUS :: char where "MINUS = CHR 0x2D"

text \<open>The body of the loop: an exception, if any, and the parser afterwards.\<close>

fun parse_char :: "char \<Rightarrow> nat \<Rightarrow> parser \<Rightarrow> parse_error option \<times> parser" where
  "parse_char c pos p = (case p_state p of
     sName \<Rightarrow>
       (if c = SP \<or> c = CR then
          (if p_name p \<in> set insert_names then (None, p\<lparr>p_state := spKey\<rparr>)
           else if p_name p \<in> set retrieve_names then (None, p\<lparr>p_state := sgKey\<rparr>)
           else if p_name p = ''stats'' then (None, p\<lparr>p_state := sLF\<rparr>)
           else (Some (UnknownCommand (p_name p)), p))
        else (None, p\<lparr>p_name := p_name p @ [c]\<rparr>))
   | spKey \<Rightarrow>
       (if c = SP then (None, p\<lparr>p_state := spFlags, p_keys := p_keys p @ [p_curKey p]\<rparr>)
        else (None, p\<lparr>p_curKey := p_curKey p @ [c]\<rparr>))
   | sgKey \<Rightarrow>
       (if c = CR then
          (let p = p\<lparr>p_keys := p_keys p @ [p_curKey p]\<rparr> in
           if length (p_keys p) = 0 then (Some NoKeys, p)
           else (None, p\<lparr>p_curKey := [], p_state := sLF\<rparr>))
        else if c = SP then (None, p\<lparr>p_state := sgKey, p_keys := p_keys p @ [p_curKey p], p_curKey := []\<rparr>)
        else (None, p\<lparr>p_curKey := p_curKey p @ [c]\<rparr>))
   | spFlags \<Rightarrow>
       (if c = SP then (None, p\<lparr>p_negative := False, p_state := spExprTimeStart\<rparr>)
        else if is_digit c then
          (let f = p_flags p * 10 + of_nat (digit_value c) in
           if f < p_flags p then (Some FlagsOverflow, p) else (None, p\<lparr>p_flags := f\<rparr>))
        else (None, p))
   | spExprTimeStart \<Rightarrow>
       (if c = MINUS then (None, p\<lparr>p_negative := True, p_state := spExprTime\<rparr>)
        else if is_digit c then
          (None, p\<lparr>p_exprtime := of_nat (digit_value c), p_state := spExprTime\<rparr>)
        else (None, p))
   | spExprTime \<Rightarrow>
       (if c = SP then (None, p\<lparr>p_state := spBytes\<rparr>)
        else if is_digit c then
          (if p_negative p then
             (case int32 (sint (p_exprtime p) - int (digit_value c)) of
                None \<Rightarrow> (Some SignedOverflow, p)
              | Some et \<Rightarrow> if sint et > sint (p_exprtime p) then (Some ExprTimeOverflow, p)
                           else (None, p\<lparr>p_exprtime := et\<rparr>))
           else
             (case int32 (sint (p_exprtime p) + int (digit_value c)) of
                None \<Rightarrow> (Some SignedOverflow, p)
              | Some et \<Rightarrow> if sint et < sint (p_exprtime p) then (Some ExprTimeOverflow, p)
                           else (None, p\<lparr>p_exprtime := et\<rparr>)))
        else (None, p))
   | spBytes \<Rightarrow>
       (if c = CR then (None, p\<lparr>p_state := sLF\<rparr>)
        else if is_digit c then
          (let b = p_bytes p * 10 + of_nat (digit_value c) in
           if b < p_bytes p then (Some BytesOverflow, p) else (None, p\<lparr>p_bytes := b\<rparr>))
        else (None, p))
   | sLF \<Rightarrow>
       (if c = LF then (None, p\<lparr>p_complete := True\<rparr>) else (Some (InvalidChar c pos), p))
   | _ \<Rightarrow> (Some UnknownState, p))"

declare parse_char.simps [simp del]

text \<open>
  The loop. The result is the exception or the number of consumed characters; an exception
  leaves the caller's \<open>parsed\<close> unset.
\<close>

fun parse_loop :: "string \<Rightarrow> nat \<Rightarrow> parser \<Rightarrow> (parse_error + nat) \<times> parser" where
  "parse_loop [] pos p = (Inr pos, p)"
| "parse_loop (c # cs) pos p =
     (if p_complete p then (Inr pos, p)
      else (case parse_char c pos p of
          (Some e, p') \<Rightarrow> (Inl e, p')
        | (None, p') \<Rightarrow> parse_loop cs (Suc pos) p'))"

definition Parse :: "string \<Rightarrow> parser \<Rightarrow> (parse_error + bool \<times> nat) \<times> parser" where
  "Parse input p = (case parse_loop input 0 p of
      (Inl e, p') \<Rightarrow> (Inl e, p')
    | (Inr pos, p') \<Rightarrow> (Inr (p_complete p', pos), p'))"

section \<open>Build and Reset\<close>

text \<open>\<open>Inr None\<close> is the null pointer; \<open>Inr (Some (command, body_size))\<close> a command.\<close>

definition first_key :: "parser \<Rightarrow> (string \<Rightarrow> command) \<Rightarrow> parse_error + command" where
  "first_key p f = (case p_keys p of [] \<Rightarrow> Inl KeysOutOfRange | k # _ \<Rightarrow> Inr (f k))"

definition Build :: "parser \<Rightarrow> parse_error + (command \<times> size_t) option" where
  "Build p =
     (if p_state p \<noteq> sLF then Inr None
      else case (if p_name p = ''set'' then first_key p (\<lambda>k. SetCmd k (p_flags p) (p_exprtime p))
            else if p_name p = ''add'' then first_key p (\<lambda>k. AddCmd k (p_flags p) (p_exprtime p))
            else if p_name p = ''append'' then first_key p (\<lambda>k. AppendCmd k (p_flags p) (p_exprtime p))
            else if p_name p = ''get'' then Inr (GetCmd (p_keys p))
            else if p_name p = ''stats'' then Inr StatsCmd
            else Inl UnsupportedCommand) of
          Inl e \<Rightarrow> Inl e
        | Inr cmd \<Rightarrow> Inr (Some (cmd, ucast (p_bytes p))))"

definition Reset :: "parser \<Rightarrow> parser" where
  "Reset p = p\<lparr>p_state := sName, p_name := [], p_keys := [], p_curKey := [], p_complete := False,
     p_flags := 0, p_bytes := 0, p_exprtime := 0\<rparr>"

text \<open>The constructor calls \<open>Reset\<close>, which sets every member but \<open>negative\<close>.\<close>

definition new_parser :: "bool \<Rightarrow> parser" where
  "new_parser neg = \<lparr>p_state = sName, p_name = [], p_keys = [], p_flags = 0, p_exprtime = 0, p_bytes = 0,
     p_negative = neg, p_curKey = [], p_complete = False\<rparr>"

lemma Reset_new_parser [simp]: "Reset (new_parser neg) = new_parser neg"
  by (simp add: Reset_def new_parser_def)

lemma Reset_eq: "Reset p = new_parser (p_negative p)"
  by (simp add: Reset_def new_parser_def)

lemma Reset_Reset [simp]: "Reset (Reset p) = Reset p"
  by (simp add: Reset_def)

end
