(* ===== verification/Parser_Facts.thy ===== *)
theory Parser_Facts
  imports Protocol_Parser
begin

text \<open>
  What the parser does: parsing is independent of how the stream is cut into chunks; storage
  and retrieval lines are read back as the command they spell; a state invariant shows which
  of the exceptions can happen at all and that \<open>Build\<close> never returns a null pointer on a
  complete command; the overflow checks of the numeric fields are shown to be incomplete.
\<close>

section \<open>Chunks\<close>

lemma parse_loop_complete: "p_complete p \<Longrightarrow> parse_loop cs pos p = (Inr pos, p)"
  by (cases cs) simp_all

lemma parse_loop_append:
  "parse_loop (xs @ ys) pos p = (case parse_loop xs pos p of
     (Inl e, p') \<Rightarrow> (Inl e, p')
   | (Inr n, p') \<Rightarrow> if p_complete p' then (Inr n, p') else parse_loop ys n p')"
  by (induction xs pos p rule: parse_loop.induct)
    (auto simp: parse_loop_complete split: option.splits prod.splits)

lemma parse_loop_consumed:
  "parse_loop cs pos p = (Inr n, p') \<Longrightarrow> pos \<le> n \<and> n \<le> pos + length cs \<and> (\<not> p_complete p' \<longrightarrow> n = pos + length cs)"
proof (induction cs arbitrary: pos p)
  case (Cons c cs)
  show ?case
  proof (cases "p_complete p")
    case True with Cons.prems show ?thesis by auto
  next
    case False
    with Cons.prems obtain q where "parse_loop cs (Suc pos) q = (Inr n, p')"
      by (auto split: prod.splits option.splits)
    from Cons.IH [OF this] show ?thesis by auto
  qed
qed simp

text \<open>The position is used only in the text of one exception.\<close>

fun shift_error :: "nat \<Rightarrow> parse_error \<Rightarrow> parse_error" where
  "shift_error k (InvalidChar c n) = InvalidChar c (n + k)"
| "shift_error k e = e"

definition shift_result :: "nat \<Rightarrow> (parse_error + nat) \<times> parser \<Rightarrow> (parse_error + nat) \<times> parser" where
  "shift_result k r = (case r of (Inl e, p) \<Rightarrow> (Inl (shift_error k e), p) | (Inr n, p) \<Rightarrow> (Inr (n + k), p))"

lemma parse_char_shift:
  "parse_char c (pos + k) p = (map_option (shift_error k) (fst (parse_char c pos p)), snd (parse_char c pos p))"
  by (cases "p_state p") (simp_all add: parse_char.simps Let_def split: option.split)

lemma parse_loop_shift: "parse_loop cs (pos + k) p = shift_result k (parse_loop cs pos p)"
proof (induction cs arbitrary: pos p)
  case (Cons c cs)
  from Cons.IH [of "Suc pos"] show ?case
    by (cases "parse_char c pos p"; cases "fst (parse_char c pos p)")
      (simp_all add: parse_char_shift shift_result_def)
qed (simp add: shift_result_def)

text \<open>
  C21. Cutting the stream anywhere does not change what is parsed: parsing \<open>xs @ ys\<close> in one call
  gives what a call on \<open>xs\<close> and, unless it completed a command or threw, a second call on \<open>ys\<close>
  give together, up to the position in the message of one exception, which counts from the
  start of the chunk.
\<close>

theorem parse_chunks:
  "Parse (xs @ ys) p = (case Parse xs p of
     (Inl e, p') \<Rightarrow> (Inl e, p')
   | (Inr (True, n), p') \<Rightarrow> (Inr (True, n), p')
   | (Inr (False, n), p') \<Rightarrow> (case Parse ys p' of
        (Inl e, p'') \<Rightarrow> (Inl (shift_error (length xs) e), p'')
      | (Inr (b, m), p'') \<Rightarrow> (Inr (b, m + length xs), p'')))"
proof (cases "parse_loop xs 0 p")
  case (Pair r p')
  show ?thesis
  proof (cases r)
    case (Inl e) with Pair show ?thesis by (simp add: Parse_def parse_loop_append)
  next
    case (Inr n)
    with Pair parse_loop_consumed [of xs 0 p n p'] have n: "\<not> p_complete p' \<Longrightarrow> n = length xs" by simp
    have "parse_loop ys (length xs) p' = shift_result (length xs) (parse_loop ys 0 p')"
      using parse_loop_shift [of ys 0 "length xs" p'] by simp
    with Pair Inr n show ?thesis
      by (cases "p_complete p'"; cases "parse_loop ys 0 p'"; cases "fst (parse_loop ys 0 p')")
        (simp_all add: Parse_def parse_loop_append shift_result_def)
  qed
qed

section \<open>Single fields\<close>

text \<open>\<open>eats cs p p'\<close>: the loop consumes \<open>cs\<close> without exception and goes from \<open>p\<close> to \<open>p'\<close>.\<close>

definition eats :: "string \<Rightarrow> parser \<Rightarrow> parser \<Rightarrow> bool" where
  "eats cs p p' \<longleftrightarrow> (\<forall>pos. parse_loop cs pos p = (Inr (pos + length cs), p'))"

lemma eats_Nil: "eats [] p p" by (simp add: eats_def)

lemma eats_append:
  assumes "eats xs p p'" "\<not> p_complete p'" "eats ys p' p''"
  shows "eats (xs @ ys) p p''"
  using assms by (simp add: eats_def parse_loop_append)

lemma eats_Cons:
  assumes "\<not> p_complete p" "\<And>pos. parse_char c pos p = (None, p')" "eats cs p' p''"
  shows "eats (c # cs) p p''"
  using assms by (simp add: eats_def)

lemma eats_char: "\<not> p_complete p \<Longrightarrow> (\<And>pos. parse_char c pos p = (None, p')) \<Longrightarrow> eats [c] p p'"
  by (rule eats_Cons [OF _ _ eats_Nil])

lemma eats_Parse: "eats cs p p' \<Longrightarrow> Parse cs p = (Inr (p_complete p', length cs), p')"
  by (simp add: eats_def Parse_def)

lemma eats_Parse_rest:
  "eats cs p p' \<Longrightarrow> p_complete p' \<Longrightarrow> Parse (cs @ rest) p = (Inr (True, length cs), p')"
  by (simp add: eats_def Parse_def parse_loop_append)

lemma eats_name:
  assumes "\<forall>c\<in>set cs. c \<noteq> SP \<and> c \<noteq> CR" "p_state p = sName" "\<not> p_complete p"
  shows "eats cs p (p\<lparr>p_name := p_name p @ cs\<rparr>)"
  using assms
proof (induction cs arbitrary: p)
  case (Cons c cs)
  from Cons.IH [of "p\<lparr>p_name := p_name p @ [c]\<rparr>"] Cons.prems
  have "eats cs (p\<lparr>p_name := p_name p @ [c]\<rparr>) (p\<lparr>p_name := p_name p @ c # cs\<rparr>)" by simp
  with Cons.prems show ?case by (intro eats_Cons) (simp_all add: parse_char.simps)
qed (simp add: eats_Nil)

lemma eats_key:
  assumes "\<forall>c\<in>set cs. c \<noteq> SP" "p_state p = spKey" "\<not> p_complete p"
  shows "eats cs p (p\<lparr>p_curKey := p_curKey p @ cs\<rparr>)"
  using assms
proof (induction cs arbitrary: p)
  case (Cons c cs)
  from Cons.IH [of "p\<lparr>p_curKey := p_curKey p @ [c]\<rparr>"] Cons.prems
  have "eats cs (p\<lparr>p_curKey := p_curKey p @ [c]\<rparr>) (p\<lparr>p_curKey := p_curKey p @ c # cs\<rparr>)" by simp
  with Cons.prems show ?case by (intro eats_Cons) (simp_all add: parse_char.simps)
qed (simp add: eats_Nil)

lemma eats_get_key:
  assumes "\<forall>c\<in>set cs. c \<noteq> SP \<and> c \<noteq> CR" "p_state p = sgKey" "\<not> p_complete p"
  shows "eats cs p (p\<lparr>p_curKey := p_curKey p @ cs\<rparr>)"
  using assms
proof (induction cs arbitrary: p)
  case (Cons c cs)
  from Cons.IH [of "p\<lparr>p_curKey := p_curKey p @ [c]\<rparr>"] Cons.prems
  have "eats cs (p\<lparr>p_curKey := p_curKey p @ [c]\<rparr>) (p\<lparr>p_curKey := p_curKey p @ c # cs\<rparr>)" by simp
  with Cons.prems show ?case by (intro eats_Cons) (simp_all add: parse_char.simps)
qed (simp add: eats_Nil)


section \<open>Numeric fields\<close>

definition digits_from :: "nat \<Rightarrow> string \<Rightarrow> nat" where
  "digits_from n ds = foldl (\<lambda>n c. n * 10 + digit_value c) n ds"

lemma digits_from_Nil [simp]: "digits_from n [] = n"
  by (simp add: digits_from_def)

lemma digits_from_Cons [simp]: "digits_from n (d # ds) = digits_from (n * 10 + digit_value d) ds"
  by (simp add: digits_from_def)

lemma digits_from_0: "digits_from 0 ds = decimal_value ds"
  by (simp add: digits_from_def decimal_value_def)

lemma digits_from_ge: "n \<le> digits_from n ds"
proof (induction ds arbitrary: n)
  case (Cons d ds)
  have "n \<le> n * 10 + digit_value d" by simp
  also have "\<dots> \<le> digits_from n (d # ds)" using Cons.IH by simp
  finally show ?case .
qed simp

lemma u32_digit_step:
  assumes "unat (w :: u32) * 10 + d < 2 ^ 32"
  shows "unat (w * 10 + of_nat d) = unat w * 10 + d" and "\<not> w * 10 + of_nat d < w"
proof -
  have "w * 10 + of_nat d = of_nat (unat w * 10 + d)" by simp
  also have "unat \<dots> = unat w * 10 + d" using assms by (simp add: unat_of_nat take_bit_nat_eq_self del: of_nat_add of_nat_mult)
  finally show eq: "unat (w * 10 + of_nat d) = unat w * 10 + d" .
  show "\<not> w * 10 + of_nat d < w" using eq by (simp add: word_less_nat_alt)
qed

lemma digit_not_sep: "is_digit c \<Longrightarrow> c \<noteq> SP \<and> c \<noteq> CR \<and> c \<noteq> MINUS \<and> c \<noteq> LF"
  by (auto simp: is_digit_def SP_def CR_def MINUS_def LF_def)

lemma digit_value_le: "is_digit c \<Longrightarrow> digit_value c \<le> 9"
  unfolding is_digit_def digit_value_def by linarith

text \<open>
  \<open>accepted w ds\<close>: reading the digits \<open>ds\<close> after the value \<open>w\<close> passes the overflow check of the
  code at every digit.
\<close>

fun accepted :: "u32 \<Rightarrow> string \<Rightarrow> bool" where
  "accepted w [] \<longleftrightarrow> True"
| "accepted w (d # ds) \<longleftrightarrow>
     (let f = w * 10 + of_nat (digit_value d) in \<not> f < w \<and> accepted f ds)"

lemma accepted_small: "digits_from (unat w) ds < 2 ^ 32 \<Longrightarrow> accepted w ds"
proof (induction ds arbitrary: w)
  case (Cons d ds)
  have small: "unat w * 10 + digit_value d < 2 ^ 32"
    using Cons.prems digits_from_ge [of "unat w * 10 + digit_value d" ds] by simp
  from u32_digit_step [OF small] Cons show ?case by (simp add: Let_def)
qed simp

lemma digits_from_cong: "(of_nat n :: u32) = of_nat m \<Longrightarrow> (of_nat (digits_from n ds) :: u32) = of_nat (digits_from m ds)"
  by (induction ds arbitrary: n m) simp_all

lemma digits_from_step:
  "(of_nat (digits_from (unat (w * 10 + of_nat d :: u32)) ds) :: u32) = of_nat (digits_from (unat w * 10 + d) ds)"
  by (rule digits_from_cong) simp

lemma eats_flags:
  assumes "\<forall>c\<in>set ds. is_digit c" "accepted (p_flags p) ds" "p_state p = spFlags" "\<not> p_complete p"
  shows "eats ds p (p\<lparr>p_flags := of_nat (digits_from (unat (p_flags p)) ds)\<rparr>)"
  using assms
proof (induction ds arbitrary: p)
  case (Cons d ds)
  let ?q = "p\<lparr>p_flags := p_flags p * 10 + of_nat (digit_value d)\<rparr>"
  have "eats ds ?q (?q\<lparr>p_flags := of_nat (digits_from (unat (p_flags ?q)) ds)\<rparr>)"
    using Cons.prems by (intro Cons.IH) (simp_all add: Let_def)
  then show ?case using Cons.prems digit_not_sep [of d]
    by (intro eats_Cons) (simp_all add: parse_char.simps Let_def digits_from_step)
qed (simp add: eats_Nil)

lemma eats_bytes:
  assumes "\<forall>c\<in>set ds. is_digit c" "accepted (p_bytes p) ds" "p_state p = spBytes" "\<not> p_complete p"
  shows "eats ds p (p\<lparr>p_bytes := of_nat (digits_from (unat (p_bytes p)) ds)\<rparr>)"
  using assms
proof (induction ds arbitrary: p)
  case (Cons d ds)
  let ?q = "p\<lparr>p_bytes := p_bytes p * 10 + of_nat (digit_value d)\<rparr>"
  have "eats ds ?q (?q\<lparr>p_bytes := of_nat (digits_from (unat (p_bytes ?q)) ds)\<rparr>)"
    using Cons.prems by (intro Cons.IH) (simp_all add: Let_def)
  then show ?case using Cons.prems digit_not_sep [of d]
    by (intro eats_Cons) (simp_all add: parse_char.simps Let_def digits_from_step)
qed (simp add: eats_Nil)

text \<open>The expiration time: a sum, since the code does not multiply by ten.\<close>

definition digit_sum :: "string \<Rightarrow> nat" where
  "digit_sum ds = sum_list (map digit_value ds)"

lemma digit_sum_simps [simp]: "digit_sum [] = 0" "digit_sum (d # ds) = digit_value d + digit_sum ds"
  by (simp_all add: digit_sum_def)

lemma int32_Some: "- (2 ^ 31) \<le> i \<Longrightarrow> i < 2 ^ 31 \<Longrightarrow> int32 i = Some (word_of_int i)"
  by (simp add: int32_def)

lemma sint_i32: "- (2 ^ 31) \<le> i \<Longrightarrow> i < 2 ^ 31 \<Longrightarrow> sint (word_of_int i :: i32) = i"
  by (simp add: signed_of_int signed_take_bit_int_eq_self)

definition signed_add :: "bool \<Rightarrow> int \<Rightarrow> nat \<Rightarrow> int" where
  "signed_add neg i n = (if neg then i - int n else i + int n)"

lemma eats_exprtime:
  assumes "\<forall>c\<in>set ds. is_digit c" "\<bar>sint (p_exprtime p)\<bar> + int (digit_sum ds) < 2 ^ 31"
    "p_state p = spExprTime" "\<not> p_complete p"
  shows "eats ds p (p\<lparr>p_exprtime := word_of_int (signed_add (p_negative p) (sint (p_exprtime p)) (digit_sum ds))\<rparr>)"
  using assms
proof (induction ds arbitrary: p)
  case Nil
  then show ?case by (simp add: signed_add_def eats_Nil)
next
  case (Cons d ds)
  let ?e = "signed_add (p_negative p) (sint (p_exprtime p)) (digit_value d)"
  let ?q = "p\<lparr>p_exprtime := word_of_int ?e\<rparr>"
  have e: "- (2 ^ 31) \<le> ?e" "?e < 2 ^ 31" "\<bar>?e\<bar> + int (digit_sum ds) < 2 ^ 31"
    using Cons.prems(2) by (auto simp: signed_add_def)
  have s: "sint (p_exprtime ?q) = ?e" using e(1,2) sint_i32 by simp
  have "eats ds ?q (?q\<lparr>p_exprtime := word_of_int (signed_add (p_negative ?q) (sint (p_exprtime ?q)) (digit_sum ds))\<rparr>)"
    using Cons.prems e(3) s by (intro Cons.IH) simp_all
  moreover have "signed_add (p_negative p) ?e (digit_sum ds) = signed_add (p_negative p) (sint (p_exprtime p)) (digit_sum (d # ds))"
    by (simp add: signed_add_def)
  moreover have "parse_char d pos p = (None, ?q)" for pos
    using Cons.prems e(1,2) sint_i32 [OF e(1,2)] digit_not_sep [of d]
    by (cases "p_negative p") (simp_all add: parse_char.simps int32_Some signed_add_def del: of_int_diff of_int_add)
  ultimately show ?case using Cons.prems s by (intro eats_Cons) simp_all
qed


definition exptime_text :: "bool \<Rightarrow> string \<Rightarrow> string" where
  "exptime_text neg ds = (if neg then [MINUS] else []) @ ds"

lemma eats_exptime_field:
  assumes "\<forall>c\<in>set ds. is_digit c" "digit_sum ds < 2 ^ 31" "ds \<noteq> []"
    "p_state p = spExprTimeStart" "\<not> p_complete p" "\<not> p_negative p" "p_exprtime p = 0"
  shows "eats (exptime_text neg ds) p
    (p\<lparr>p_negative := neg, p_state := spExprTime, p_exprtime := word_of_int (signed_add neg 0 (digit_sum ds))\<rparr>)"
proof (cases neg)
  case True
  let ?q = "p\<lparr>p_negative := True, p_state := spExprTime\<rparr>"
  have "eats ds ?q (?q\<lparr>p_exprtime := word_of_int (signed_add True 0 (digit_sum ds))\<rparr>)"
    using eats_exprtime [of ds ?q] assms by (simp del: of_int_diff of_int_add)
  then show ?thesis using True assms
    by (auto simp: exptime_text_def parse_char.simps simp del: of_int_diff of_int_add intro!: eats_Cons)
next
  case False
  from assms(3) obtain d rest where ds: "ds = d # rest" by (cases ds) auto
  let ?q = "p\<lparr>p_exprtime := of_nat (digit_value d), p_state := spExprTime\<rparr>"
  have d: "is_digit d" "digit_value d \<le> 9" using assms(1) digit_value_le ds by auto
  have s: "sint (p_exprtime ?q) = int (digit_value d)"
    using sint_i32 [of "int (digit_value d)"] d(2) by simp
  have "eats rest ?q (?q\<lparr>p_exprtime := word_of_int (signed_add (p_negative ?q) (sint (p_exprtime ?q)) (digit_sum rest))\<rparr>)"
    using assms ds s by (intro eats_exprtime) auto
  moreover have "signed_add False (int (digit_value d)) (digit_sum rest) = signed_add False 0 (digit_sum ds)"
    by (simp add: signed_add_def ds)
  ultimately have e: "eats rest ?q (?q\<lparr>p_exprtime := word_of_int (signed_add False 0 (digit_sum ds))\<rparr>)"
    using s assms(6) by simp
  have "eats (d # rest) p (?q\<lparr>p_exprtime := word_of_int (signed_add False 0 (digit_sum ds))\<rparr>)"
    using assms digit_not_sep [OF d(1)] d(1) by (intro eats_Cons [OF _ _ e]) (simp_all add: parse_char.simps)
  moreover have "?q\<lparr>p_exprtime := word_of_int (signed_add False 0 (digit_sum ds))\<rparr> =
      p\<lparr>p_negative := False, p_state := spExprTime, p_exprtime := word_of_int (signed_add False 0 (digit_sum ds))\<rparr>"
    using assms(6) by (cases p) simp
  ultimately show ?thesis using False by (simp add: exptime_text_def ds)
qed

section \<open>Storage lines\<close>

definition storage_line :: "string \<Rightarrow> string \<Rightarrow> string \<Rightarrow> bool \<Rightarrow> string \<Rightarrow> string \<Rightarrow> string" where
  "storage_line name key flags neg ds bytes =
     name @ SP # key @ SP # flags @ SP # exptime_text neg ds @ SP # bytes @ [CR, LF]"

definition digits :: "string \<Rightarrow> bool" where
  "digits ds \<longleftrightarrow> (\<forall>c\<in>set ds. is_digit c)"

lemma digits_decimal [simp]: "digits (decimal n)"
  using decimal_digits by (auto simp: is_digit_def digits_def)

lemma decimal_value_decimal' [simp]: "decimal_value (decimal n) = n"
  by (rule decimal_value_decimal)

lemma accepted_decimal [simp]: "n < 2 ^ 32 \<Longrightarrow> accepted 0 (decimal n)"
  by (rule accepted_small) (simp add: digits_from_0)

lemma insert_name_chars: "name \<in> set insert_names \<Longrightarrow> \<forall>c\<in>set name. c \<noteq> SP \<and> c \<noteq> CR"
  by (auto simp: insert_names_def SP_def CR_def)

text \<open>The parser after a storage line.\<close>

definition storage_parsed :: "string \<Rightarrow> string \<Rightarrow> nat \<Rightarrow> bool \<Rightarrow> string \<Rightarrow> nat \<Rightarrow> parser \<Rightarrow> parser" where
  "storage_parsed name key flags neg ds bytes p = p\<lparr>p_state := sLF, p_name := name, p_keys := [key],
     p_curKey := key, p_complete := True, p_flags := of_nat flags, p_bytes := of_nat bytes,
     p_exprtime := word_of_int (signed_add neg 0 (digit_sum ds)), p_negative := neg\<rparr>"

lemma eats_storage_line:
  assumes "name \<in> set insert_names" "\<forall>c\<in>set key. c \<noteq> SP" "digits fd" "accepted 0 fd"
    "digits bd" "accepted 0 bd" "digits ds" "digit_sum ds < 2 ^ 31" "ds \<noteq> []"
  shows "eats (storage_line name key fd neg ds bd) (Reset p)
    (storage_parsed name key (decimal_value fd) neg ds (decimal_value bd) p)"
proof -
  let ?e = "word_of_int (signed_add neg 0 (digit_sum ds)) :: i32"
  define p1 where "p1 = (Reset p)\<lparr>p_name := name\<rparr>"
  define p2 where "p2 = p1\<lparr>p_state := spKey\<rparr>"
  define p3 where "p3 = p2\<lparr>p_curKey := key\<rparr>"
  define p4 where "p4 = p3\<lparr>p_state := spFlags, p_keys := [key]\<rparr>"
  define p5 where "p5 = p4\<lparr>p_flags := of_nat (decimal_value fd)\<rparr>"
  define p6 where "p6 = p5\<lparr>p_negative := False, p_state := spExprTimeStart\<rparr>"
  define p7 where "p7 = p6\<lparr>p_negative := neg, p_state := spExprTime, p_exprtime := ?e\<rparr>"
  define p8 where "p8 = p7\<lparr>p_state := spBytes\<rparr>"
  define p9 where "p9 = p8\<lparr>p_bytes := of_nat (decimal_value bd)\<rparr>"
  define p10 where "p10 = p9\<lparr>p_state := sLF\<rparr>"
  note defs = p1_def p2_def p3_def p4_def p5_def p6_def p7_def p8_def p9_def p10_def Reset_def
  have e1: "eats name (Reset p) p1"
    using eats_name [OF insert_name_chars [OF assms(1)], of "Reset p"] by (simp add: defs)
  have e2: "eats [SP] p1 p2" using assms(1) by (intro eats_char) (simp_all add: defs parse_char.simps)
  have e3: "eats key p2 p3" using eats_key [OF assms(2), of p2] by (simp add: defs)
  have e4: "eats [SP] p3 p4" by (intro eats_char) (simp_all add: defs parse_char.simps)
  have e5: "eats fd p4 p5"
    using eats_flags [of fd p4] assms(3,4) by (simp add: defs digits_def digits_from_0)
  have e6: "eats [SP] p5 p6" by (intro eats_char) (simp_all add: defs parse_char.simps)
  have e7: "eats (exptime_text neg ds) p6 p7"
    using eats_exptime_field [of ds p6 neg] assms(7-9) by (simp add: defs digits_def)
  have e8: "eats [SP] p7 p8" by (intro eats_char) (simp_all add: defs parse_char.simps)
  have e9: "eats bd p8 p9"
    using eats_bytes [of bd p8] assms(5,6) by (simp add: defs digits_def digits_from_0)
  have e10: "eats [CR] p9 p10" by (intro eats_char) (simp_all add: defs parse_char.simps)
  have e11: "eats [LF] p10 (storage_parsed name key (decimal_value fd) neg ds (decimal_value bd) p)"
    by (intro eats_char) (simp_all add: defs parse_char.simps storage_parsed_def)
  have nc: "\<not> p_complete p1" "\<not> p_complete p2" "\<not> p_complete p3" "\<not> p_complete p4" "\<not> p_complete p5"
    "\<not> p_complete p6" "\<not> p_complete p7" "\<not> p_complete p8" "\<not> p_complete p9" "\<not> p_complete p10"
    by (simp_all add: defs)
  note chain = eats_append [OF e1 nc(1) eats_append [OF e2 nc(2) eats_append [OF e3 nc(3) eats_append [OF e4 nc(4)
    eats_append [OF e5 nc(5) eats_append [OF e6 nc(6) eats_append [OF e7 nc(7) eats_append [OF e8 nc(8)
    eats_append [OF e9 nc(9) eats_append [OF e10 nc(10) e11]]]]]]]]]]
  then show ?thesis by (simp add: storage_line_def)
qed

definition insert_command :: "string \<Rightarrow> string \<Rightarrow> u32 \<Rightarrow> i32 \<Rightarrow> command" where
  "insert_command name = (if name = ''set'' then SetCmd else if name = ''add'' then AddCmd else AppendCmd)"

text \<open>What the caller of \<open>Parse\<close> and \<open>Build\<close> sees of a complete line.\<close>

definition reads_command :: "string \<Rightarrow> string \<Rightarrow> command \<Rightarrow> size_t \<Rightarrow> parser \<Rightarrow> bool" where
  "reads_command line rest cmd body p \<longleftrightarrow>
     (case Parse (line @ rest) p of
        (Inr (True, n), p') \<Rightarrow> n = length line \<and> Build p' = Inr (Some (cmd, body))
      | _ \<Rightarrow> False)"

lemma reads_storage_line:
  assumes "name \<in> {''set'', ''add'', ''append''}" "\<forall>c\<in>set key. c \<noteq> SP"
    "digits fd" "accepted 0 fd" "digits bd" "accepted 0 bd" "digits ds" "digit_sum ds < 2 ^ 31" "ds \<noteq> []"
  shows "reads_command (storage_line name key fd neg ds bd) rest
    (insert_command name key (of_nat (decimal_value fd)) (word_of_int (signed_add neg 0 (digit_sum ds))))
    (ucast (of_nat (decimal_value bd) :: u32)) (Reset p)"
proof -
  let ?p' = "storage_parsed name key (decimal_value fd) neg ds (decimal_value bd) p"
  have name: "name \<in> set insert_names" using assms(1) by (auto simp: insert_names_def)
  have "Parse (storage_line name key fd neg ds bd @ rest) (Reset p) =
      (Inr (True, length (storage_line name key fd neg ds bd)), ?p')"
    by (rule eats_Parse_rest [OF eats_storage_line [OF name assms(2-9)]]) (simp add: storage_parsed_def)
  then show ?thesis using assms(1)
    by (auto simp: reads_command_def Build_def storage_parsed_def first_key_def insert_command_def)
qed

text \<open>
  C13. Round trip of the storage commands: on a fresh or reset parser a line
  \<open>set|add|append key flags exptime bytes\r\n\<close>, whatever follows it in the buffer, is consumed
  exactly, completes, and \<open>Build\<close> yields that command with that key, those flags and that body
  size, for any key without a space and any 32-bit flags and size. The expiration time is the
  sum of the digits of its field with the sign of the field, not the number they spell.
\<close>

theorem parse_storage_line:
  assumes "name \<in> {''set'', ''add'', ''append''}" "\<forall>c\<in>set key. c \<noteq> SP" "flags < 2 ^ 32" "bytes < 2 ^ 32"
    "digits ds" "digit_sum ds < 2 ^ 31" "ds \<noteq> []"
  shows "reads_command (storage_line name key (decimal flags) neg ds (decimal bytes)) rest
    (insert_command name key (of_nat flags) (word_of_int (signed_add neg 0 (digit_sum ds)))) (of_nat bytes) (Reset p)"
proof -
  have "ucast (of_nat bytes :: u32) = (of_nat bytes :: size_t)"
    using assms(4) by (simp add: unsigned_of_nat take_bit_nat_eq_self)
  with reads_storage_line [OF assms(1,2), of "decimal flags" "decimal bytes" ds neg rest p] assms(3-7)
  show ?thesis by simp
qed

text \<open>A line whose expiration time "-100" is read as -1.\<close>

lemma parse_storage_line_witness:
  "reads_command (storage_line ''append'' ''k1'' (decimal 7) True ''100'' (decimal 4096)) ''body''
    (insert_command ''append'' ''k1'' 7 (-1)) 4096 (Reset (new_parser True))"
  using parse_storage_line [of "''append''" "''k1''" 7 4096 "''100''" True "''body''" "new_parser True"]
  by (simp add: SP_def digits_def is_digit_def digit_sum_def digit_value_def signed_add_def)

text \<open>
  The overflow checks of the flags and of the body size miss overflows: 10000000000 does
  not fit 32 bits, yet a storage line that has it in both fields is accepted, with the flags and
  the body size reduced modulo 2^32 to 1410065408, so that the rest of the announced body will
  be taken for commands.
\<close>

theorem overflow_undetected:
  assumes "name \<in> {''set'', ''add'', ''append''}" "\<forall>c\<in>set key. c \<noteq> SP"
  shows "reads_command (storage_line name key (decimal 10000000000) False ''0'' (decimal 10000000000)) rest
    (insert_command name key 1410065408 0) 1410065408 (Reset p)"
proof -
  have dec: "decimal 10000000000 = ''10000000000''" by (simp add: decimal.simps char_of_def bit_0)
  have acc: "accepted 0 ''10000000000''" by (simp add: digit_value_def)
  have val: "decimal_value ''10000000000'' = 10000000000" by (simp add: decimal_value_def digit_value_def)
  have sum: "digits ''0''" "digit_sum ''0'' = 0" "digits ''10000000000''"
    by (simp_all add: digits_def is_digit_def digit_sum_def digit_value_def)
  have "reads_command (storage_line name key ''10000000000'' False ''0'' ''10000000000'') rest
    (insert_command name key (of_nat 10000000000) (word_of_int (signed_add False 0 0)))
    (ucast (of_nat 10000000000 :: u32)) (Reset p)"
    using reads_storage_line [OF assms sum(3) acc sum(3) acc sum(1), of False rest p] sum(2) val by simp
  moreover have "(10000000000 :: u32) = 1410065408" by simp
  ultimately show ?thesis by (simp add: dec signed_add_def)
qed

lemma overflow_undetected_witness:
  "reads_command (storage_line ''set'' ''k'' (decimal 10000000000) False ''0'' (decimal 10000000000)) []
    (insert_command ''set'' ''k'' 1410065408 0) 1410065408 (Reset (new_parser True))"
  using overflow_undetected [of "''set''" "''k''" "[]" "new_parser True"] by (simp add: SP_def)


section \<open>Retrieval lines\<close>

definition get_line :: "string list \<Rightarrow> string" where
  "get_line keys = ''get'' @ concat (map (\<lambda>k. SP # k) keys) @ [CR, LF]"

definition plain_key :: "string \<Rightarrow> bool" where
  "plain_key k \<longleftrightarrow> (\<forall>c\<in>set k. c \<noteq> SP \<and> c \<noteq> CR)"

lemma eats_get_keys:
  assumes "plain_key k" "\<forall>k\<in>set ks. plain_key k" "p_state p = sgKey" "\<not> p_complete p" "p_curKey p = []"
  shows "eats (k @ concat (map (\<lambda>k. SP # k) ks) @ [CR]) p (p\<lparr>p_keys := p_keys p @ k # ks, p_state := sLF\<rparr>)"
  using assms
proof (induction ks arbitrary: p k)
  case Nil
  let ?q = "p\<lparr>p_curKey := k\<rparr>"
  have "eats k p ?q" using eats_get_key [of k p] Nil by (simp add: plain_key_def)
  moreover have "p\<lparr>p_curKey := [], p_state := sLF, p_keys := ks\<rparr> = p\<lparr>p_keys := ks, p_state := sLF\<rparr>" for ks
    using Nil by (cases p) simp
  then have "eats [CR] ?q (p\<lparr>p_keys := p_keys p @ [k], p_state := sLF\<rparr>)"
    using Nil by (intro eats_char) (simp_all add: parse_char.simps Let_def)
  ultimately show ?case using Nil eats_append [of k p ?q "[CR]"] by simp
next
  case (Cons k' ks)
  let ?q = "p\<lparr>p_curKey := k\<rparr>"
  let ?r = "p\<lparr>p_keys := p_keys p @ [k]\<rparr>"
  have "eats k p ?q" using eats_get_key [of k p] Cons.prems by (simp add: plain_key_def)
  moreover have "p\<lparr>p_curKey := [], p_keys := ks\<rparr> = p\<lparr>p_keys := ks\<rparr>"
    "p\<lparr>p_state := sgKey, p_keys := ks\<rparr> = p\<lparr>p_keys := ks\<rparr>" for ks
    using Cons.prems by (cases p, simp)+
  then have step: "parse_char SP pos ?q = (None, ?r)" for pos
    using Cons.prems by (simp add: parse_char.simps SP_def CR_def)
  have "eats (k' @ concat (map (\<lambda>k. SP # k) ks) @ [CR]) ?r (?r\<lparr>p_keys := p_keys ?r @ k' # ks, p_state := sLF\<rparr>)"
    using Cons.prems by (intro Cons.IH) simp_all
  then have "eats (SP # k' @ concat (map (\<lambda>k. SP # k) ks) @ [CR]) ?q (p\<lparr>p_keys := p_keys p @ k # k' # ks, p_state := sLF\<rparr>)"
    using Cons.prems by (intro eats_Cons [OF _ step]) simp_all
  ultimately show ?case using Cons.prems eats_append [of k p ?q] by simp
qed

lemma reads_get_line:
  assumes "keys \<noteq> []" "\<forall>k\<in>set keys. plain_key k"
  shows "reads_command (get_line keys) rest (GetCmd keys) 0 (Reset p)"
proof -
  from assms(1) obtain k ks where keys: "keys = k # ks" by (cases keys) auto
  define p1 where "p1 = (Reset p)\<lparr>p_name := ''get''\<rparr>"
  define p2 where "p2 = p1\<lparr>p_state := sgKey\<rparr>"
  define p3 where "p3 = p2\<lparr>p_keys := keys, p_state := sLF\<rparr>"
  define p4 where "p4 = p3\<lparr>p_complete := True\<rparr>"
  note defs = p1_def p2_def p3_def p4_def Reset_def
  have e1: "eats ''get'' (Reset p) p1"
    using eats_name [of "''get''" "Reset p"] by (simp add: defs SP_def CR_def)
  have e2: "eats [SP] p1 p2"
    by (intro eats_char) (simp_all add: defs parse_char.simps insert_names_def retrieve_names_def)
  have e3: "eats (k @ concat (map (\<lambda>k. SP # k) ks) @ [CR]) p2 p3"
    using eats_get_keys [of k ks p2] assms(2) keys by (simp add: defs)
  have e4: "eats [LF] p3 p4" by (intro eats_char) (simp_all add: defs parse_char.simps)
  have "eats (''get'' @ [SP] @ (k @ concat (map (\<lambda>k. SP # k) ks) @ [CR]) @ [LF]) (Reset p) p4"
    by (intro eats_append [OF e1] eats_append [OF e2] eats_append [OF e3] e4) (simp_all add: defs)
  then have "eats (get_line keys) (Reset p) p4" by (simp add: get_line_def keys)
  from eats_Parse_rest [OF this] have "Parse (get_line keys @ rest) (Reset p) = (Inr (True, length (get_line keys)), p4)"
    by (simp add: defs)
  moreover have "Build p4 = Inr (Some (GetCmd keys, 0))" by (simp add: Build_def defs)
  ultimately show ?thesis by (simp add: reads_command_def)
qed

text \<open>
  Round trip of \<open>get\<close>: a line with one or more keys free of spaces and carriage returns is
  read, on a fresh or reset parser and whatever follows it, as the \<open>Get\<close> of exactly those keys
  in that order, with an empty body.
\<close>

theorem parse_get_line:
  assumes "keys \<noteq> []" "\<forall>k\<in>set keys. plain_key k"
  shows "reads_command (get_line keys) rest (GetCmd keys) 0 (Reset p)"
  by (rule reads_get_line [OF assms])

lemma parse_get_line_witness:
  "reads_command (get_line [''a'', ''key2'']) ''get a'' (GetCmd [''a'', ''key2'']) 0 (Reset (new_parser True))"
  using parse_get_line [of "[''a'', ''key2'']" "''get a''" "new_parser True"]
  by (simp add: plain_key_def SP_def CR_def)

section \<open>The state invariant\<close>

text \<open>The parsers a program can hold: chunks parsed, with or without exception, and resets.\<close>

inductive parser_reachable :: "parser \<Rightarrow> bool" where
  new: "parser_reachable (new_parser neg)"
| parse: "parser_reachable p \<Longrightarrow> parser_reachable (snd (Parse cs p))"
| reset: "parser_reachable p \<Longrightarrow> parser_reachable (Reset p)"

definition parser_inv :: "parser \<Rightarrow> bool" where
  "parser_inv p \<longleftrightarrow> p_state p \<noteq> sCR \<and>
     (p_complete p \<longrightarrow> p_state p = sLF) \<and>
     (p_state p = spKey \<longrightarrow> p_name p \<in> set insert_names) \<and>
     (p_state p = sgKey \<longrightarrow> p_name p \<in> set retrieve_names) \<and>
     (p_state p \<in> {spFlags, spExprTimeStart, spExprTime, spBytes} \<longrightarrow>
        p_name p \<in> set insert_names \<and> p_keys p \<noteq> []) \<and>
     (p_state p = sLF \<longrightarrow> p_name p \<in> set insert_names \<and> p_keys p \<noteq> [] \<or>
        p_name p \<in> set retrieve_names \<or> p_name p = ''stats'')"

text \<open>The exceptions that a character can raise.\<close>

fun possible :: "parse_error \<Rightarrow> bool" where
  "possible (UnknownCommand n) \<longleftrightarrow> n \<notin> set insert_names \<union> set retrieve_names \<union> {''stats''}"
| "possible FlagsOverflow \<longleftrightarrow> True"
| "possible BytesOverflow \<longleftrightarrow> True"
| "possible SignedOverflow \<longleftrightarrow> True"
| "possible (InvalidChar c n) \<longleftrightarrow> c \<noteq> LF"
| "possible e \<longleftrightarrow> False"

lemma int32_SomeD: "int32 i = Some w \<Longrightarrow> sint w = i"
  using sint_i32 by (auto simp: int32_def split: if_splits)

lemma parse_char_inv:
  assumes "parser_inv p" "\<not> p_complete p" "parse_char c pos p = (r, p')"
  shows "parser_inv p' \<and> (r \<noteq> None \<longrightarrow> possible (the r))"
  using assms
  by (cases "p_state p")
    (auto simp: parser_inv_def parse_char.simps Let_def split: if_splits option.splits dest!: int32_SomeD)

lemma parse_loop_inv:
  assumes "parser_inv p" "parse_loop cs pos p = (r, p')"
  shows "parser_inv p' \<and> (\<forall>e. r = Inl e \<longrightarrow> possible e)"
  using assms
proof (induction cs arbitrary: pos p)
  case (Cons c cs)
  show ?case
  proof (cases "p_complete p")
    case True
    with Cons.prems show ?thesis by auto
  next
    case False
    obtain e q where q: "parse_char c pos p = (e, q)" by (cases "parse_char c pos p")
    note inv = parse_char_inv [OF Cons.prems(1) False q]
    show ?thesis
    proof (cases e)
      case None
      with Cons.IH [of q "Suc pos"] Cons.prems False q inv show ?thesis by simp
    next
      case (Some x)
      with Cons.prems False q inv show ?thesis by auto
    qed
  qed
qed auto

lemma Parse_inv:
  assumes "parser_inv p" "Parse cs p = (r, p')"
  shows "parser_inv p' \<and> (\<forall>e. r = Inl e \<longrightarrow> possible e) \<and> (\<forall>n. r = Inr (True, n) \<longrightarrow> p_complete p')"
  using parse_loop_inv [OF assms(1), of cs 0] assms(2)
  by (auto simp: Parse_def split: prod.splits sum.splits)

lemma parser_inv_new [simp]: "parser_inv (new_parser neg)"
  by (simp add: parser_inv_def new_parser_def)

lemma reachable_inv: "parser_reachable p \<Longrightarrow> parser_inv p"
proof (induction rule: parser_reachable.induct)
  case (parse p cs)
  then show ?case using Parse_inv [of p cs] by (cases "Parse cs p") auto
qed (simp_all add: Reset_eq)

text \<open>
  Of the exceptions in the text of \<open>Parse\<close> three can never be thrown by any parser the
  program can hold, on any input: "Client provides no key", "Expire time field overflow" and
  "Unknown state". An unknown command is reported only for a name that is none of the seven,
  and an invalid character only for one that is not a line feed.
\<close>

theorem parse_exceptions:
  assumes "parser_reachable p" "Parse cs p = (Inl e, p')"
  shows "possible e"
  using Parse_inv [OF reachable_inv [OF assms(1)] assms(2)] by simp

lemma parse_exceptions_witness: "possible (UnknownCommand ''delete'')"
  using parse_exceptions [OF parser_reachable.new [of False], of "''delete k''" "UnknownCommand ''delete''"]
  by (simp add: Parse_def new_parser_def parse_char.simps SP_def CR_def insert_names_def retrieve_names_def)

text \<open>
  C38. A parser that completed a command builds one: \<open>Build\<close> returns neither the null pointer
  nor reads past the end of \<open>keys\<close>, and it throws only for \<open>prepend\<close> and \<open>gets\<close>, which
  \<open>Parse\<close> accepts although no command exists for them.
\<close>

theorem build_complete:
  assumes "parser_reachable p" "p_complete p"
  shows "if p_name p \<in> {''prepend'', ''gets''} then Build p = Inl UnsupportedCommand
    else \<exists>cmd. Build p = Inr (Some (cmd, ucast (p_bytes p)))"
proof -
  from reachable_inv [OF assms(1)] assms(2) have st: "p_state p = sLF" and
    name: "p_name p \<in> set insert_names \<and> p_keys p \<noteq> [] \<or> p_name p \<in> set retrieve_names \<or> p_name p = ''stats''"
    by (simp_all add: parser_inv_def)
  from name consider k ks where "p_keys p = k # ks" "p_name p \<in> {''set'', ''add'', ''append'', ''prepend''}"
    | "p_name p \<in> {''get'', ''gets'', ''stats''}"
    by (cases "p_keys p") (auto simp: insert_names_def retrieve_names_def)
  then show ?thesis
  proof cases
    case 1 then show ?thesis using st by (elim insertE) (simp_all add: Build_def first_key_def)
  next
    case 2 then show ?thesis using st by (elim insertE) (simp_all add: Build_def)
  qed
qed

lemma gets_parsed: "Parse [CHR ''g'', CHR ''e'', CHR ''t'', CHR ''s'', SP, CHR ''k'', CR, LF] (new_parser True) =
  (Inr (True, 8), (new_parser True)\<lparr>p_state := sLF, p_name := ''gets'', p_keys := [''k''], p_complete := True\<rparr>)"
  by (simp add: Parse_def new_parser_def parse_char.simps SP_def CR_def LF_def insert_names_def retrieve_names_def)

lemma build_complete_witness:
  "Build (snd (Parse [CHR ''g'', CHR ''e'', CHR ''t'', CHR ''s'', SP, CHR ''k'', CR, LF] (new_parser True))) =
    Inl UnsupportedCommand"
  using build_complete [OF parser_reachable.parse [OF parser_reachable.new],
      of "[CHR ''g'', CHR ''e'', CHR ''t'', CHR ''s'', SP, CHR ''k'', CR, LF]" True]
  by (simp add: gets_parsed)

end
