(* ===== verification/Session.thy ===== *)
theory Session
  imports Parser_Facts
begin

text \<open>
  The loop that the four servers share: a buffer of bytes read from a socket is parsed into a
  command, the body of the command is collected, the command is executed and its response
  emitted, until the buffer is empty (\<open>STblocking::ServerImpl::OnRun\<close>,
  \<open>MTblocking::ProcessConnection\<close>, \<open>STnonblock::Connection::DoRead\<close> and
  \<open>MTnonblock::Connection::DoRead\<close> contain it four times). Its reference is a machine that takes
  one byte at a time.
\<close>

section \<open>State of a connection\<close>

record session =
  arg_remains :: size_t
  s_parser :: parser
  argument :: string
  pending :: "command option"

definition new_session :: "size_t \<Rightarrow> bool \<Rightarrow> session" where
  "new_session r neg = \<lparr>arg_remains = r, s_parser = new_parser neg, argument = [], pending = None\<rparr>"

text \<open>
  How the loop over a buffer ends: the buffer is used up, \<open>Parse\<close> consumed nothing, an exception
  of the parser left it, or the emitted response was the last (the peer is gone or the server
  stops). The texts of exceptions go only to the logger and are left out.
\<close>

datatype loop_end = Drained | NotConsumed | Threw | Halted

section \<open>The phases of one iteration\<close>

text \<open>The undefined behaviours among the errors of the parser.\<close>

definition undefined_error :: "parse_error \<Rightarrow> bool" where
  "undefined_error e \<longleftrightarrow> e = SignedOverflow \<or> e = KeysOutOfRange"

text \<open>
  "There is no command yet": the command to execute, if the parser completed one. \<open>Build\<close> writes
  the size of the body before it throws.
\<close>

definition build_command :: "session \<Rightarrow> (bool \<times> session) option" where
  "build_command se = (case Build (s_parser se) of
      Inl e \<Rightarrow> if undefined_error e then None
               else Some (False, se\<lparr>arg_remains := ucast (p_bytes (s_parser se))\<rparr>)
    | Inr built \<Rightarrow>
        (let r = (case built of None \<Rightarrow> arg_remains se | Some (_, n) \<Rightarrow> n);
             r = (if r > 0 then r + 2 else r)
         in Some (True, se\<lparr>arg_remains := r, pending := map_option fst built\<rparr>)))"

text \<open>The result of the phase: \<open>Inl\<close> an early end of the loop, \<open>Inr\<close> the rest of the buffer.\<close>

definition parse_phase :: "string \<Rightarrow> session \<Rightarrow> ((loop_end + string) \<times> session) option" where
  "parse_phase buf se =
     (if pending se \<noteq> None then Some (Inr buf, se)
      else (case Parse buf (s_parser se) of
          (Inl e, p) \<Rightarrow> if undefined_error e then None else Some (Inl Threw, se\<lparr>s_parser := p\<rparr>)
        | (Inr (complete, parsed), p) \<Rightarrow> do {
            (ok, se) \<leftarrow> (if complete then build_command (se\<lparr>s_parser := p\<rparr>) else Some (True, se\<lparr>s_parser := p\<rparr>));
            if \<not> ok then Some (Inl Threw, se)
            else if parsed = 0 then Some (Inl NotConsumed, se)
            else Some (Inr (drop parsed buf), se) }))"

text \<open>"There is command, but we still wait for argument to arrive".\<close>

definition fill_phase :: "string \<Rightarrow> session \<Rightarrow> string \<times> session" where
  "fill_phase buf se =
     (if pending se \<noteq> None \<and> arg_remains se > 0 then
        (let to_read = min (unat (arg_remains se)) (length buf)
         in (drop to_read buf,
             se\<lparr>argument := argument se @ take to_read buf, arg_remains := arg_remains se - of_nat to_read\<rparr>))
      else (buf, se))"

text \<open>"There is command & argument - RUN!"\<close>

definition ready :: "session \<Rightarrow> command option" where
  "ready se = (if arg_remains se = 0 then pending se else None)"

definition finish :: "session \<Rightarrow> session" where
  "finish se = se\<lparr>pending := None, argument := [], s_parser := Reset (s_parser se)\<rparr>"

section \<open>The loop\<close>

text \<open>
  \<open>stop out\<close> tells, of the responses so far, that the loop is left after the last of them; the
  session is prepared for the next command before that only when \<open>tidy\<close> holds. The second
  component of the result is what is left in the buffer.
\<close>

definition iteration :: "string \<Rightarrow> session \<Rightarrow> ((loop_end + string) \<times> session) option" where
  "iteration buf se = do {
     (r, se) \<leftarrow> parse_phase buf se;
     case r of Inl e \<Rightarrow> Some (Inl e, se)
     | Inr buf \<Rightarrow> (let (buf, se) = fill_phase buf se in Some (Inr buf, se)) }"

text \<open>Every iteration consumes a byte or sends a waiting command off.\<close>

lemma parse_phase_consumes:
  assumes "parse_phase buf se = Some (Inr buf', se')"
  shows "if pending se = None then length buf' \<le> length buf \<and> (buf \<noteq> [] \<longrightarrow> length buf' < length buf)
         else buf' = buf \<and> se' = se"
  using assms by (auto simp: parse_phase_def bind_eq_Some_conv split: if_splits prod.splits sum.splits)

lemma iteration_consumes:
  assumes "iteration buf se = Some (Inr buf', se')" "buf \<noteq> []"
  shows "length buf' < length buf \<or> (length buf' = length buf \<and> pending se \<noteq> None \<and> ready se' \<noteq> None)"
proof -
  from assms(1) obtain b1 se1 where p: "parse_phase buf se = Some (Inr b1, se1)"
    and f: "fill_phase b1 se1 = (buf', se')"
    by (cases "parse_phase buf se"; cases "fst (the (parse_phase buf se))")
      (auto simp: iteration_def bind_eq_Some_conv split: prod.splits)
  from f have le: "length buf' \<le> length b1" by (auto simp: fill_phase_def Let_def split: if_splits)
  show ?thesis
  proof (cases "pending se")
    case None
    with parse_phase_consumes [OF p] assms(2) le show ?thesis by auto
  next
    case (Some cmd)
    with parse_phase_consumes [OF p] have "b1 = buf" "se1 = se" by auto
    with f Some assms(2) show ?thesis
      by (cases "arg_remains se = 0")
        (auto simp: fill_phase_def ready_def Let_def word_neq_0_conv unat_gt_0 split: if_splits)
  qed
qed

function session_loop :: "'s storage_ops \<Rightarrow> (string list \<Rightarrow> bool) \<Rightarrow> bool \<Rightarrow>
    string \<Rightarrow> session \<Rightarrow> 's \<Rightarrow> string list \<Rightarrow> (loop_end \<times> string \<times> session \<times> 's \<times> string list) option" where
  "session_loop st stop tidy buf se s out =
     (if buf = [] then Some (Drained, buf, se, s, out)
      else (case iteration buf se of None \<Rightarrow> None
        | Some (Inl e, se') \<Rightarrow> Some (e, buf, se', s, out)
        | Some (Inr buf', se') \<Rightarrow>
           (case ready se' of None \<Rightarrow> session_loop st stop tidy buf' se' s out
            | Some cmd \<Rightarrow>
               (case execute st cmd (argument se') s of None \<Rightarrow> None
                | Some (result, s') \<Rightarrow>
                   (let out' = out @ [result @ crlf] in
                    if stop out' then Some (Halted, buf', if tidy then finish se' else se', s', out')
                    else session_loop st stop tidy buf' (finish se') s' out')))))"
  by pat_completeness auto
termination
proof (relation "measure (\<lambda>(st, stop, tidy, buf, se, s, out). 2 * length buf + (if pending se = None then 0 else 1))",
    goal_cases)
  case (2 st stop tidy buf se s out x a se' buf')
  then show ?case using iteration_consumes [of buf se buf' se'] by auto
next
  case (3 st stop tidy buf se s out x a se' buf')
  then show ?case using iteration_consumes [of buf se buf' se'] by (auto simp: finish_def)
qed simp

declare session_loop.simps [simp del]

end
