(* ===== verification/Session_Bytes.thy ===== *)
theory Session_Bytes
  imports Session
begin

text \<open>
  The reference of the session loop: a machine that takes one byte at a time. The loop over
  buffers computes the same session, storage and responses, so that what a server answers does
  not depend on how the kernel cuts the stream into reads.
\<close>

section \<open>The byte machine\<close>

definition run_ready :: "'s storage_ops \<Rightarrow> (string list \<Rightarrow> bool) \<Rightarrow> bool \<Rightarrow>
    session \<Rightarrow> 's \<Rightarrow> string list \<Rightarrow> (loop_end option \<times> session \<times> 's \<times> string list) option" where
  "run_ready st stop tidy se s out =
     (case ready se of None \<Rightarrow> Some (None, se, s, out)
      | Some cmd \<Rightarrow> do {
          (result, s) \<leftarrow> execute st cmd (argument se) s;
          let out = out @ [result @ crlf];
          if stop out then Some (Some Halted, if tidy then finish se else se, s, out)
          else Some (None, finish se, s, out) })"

definition take_byte :: "char \<Rightarrow> session \<Rightarrow> (bool \<times> session) option" where
  "take_byte c se =
     (if pending se \<noteq> None
      then Some (True, se\<lparr>argument := argument se @ [c], arg_remains := arg_remains se - 1\<rparr>)
      else (case parse_char c 0 (s_parser se) of
          (Some e, p) \<Rightarrow> if undefined_error e then None else Some (False, se\<lparr>s_parser := p\<rparr>)
        | (None, p) \<Rightarrow> if p_complete p then build_command (se\<lparr>s_parser := p\<rparr>)
                       else Some (True, se\<lparr>s_parser := p\<rparr>)))"

definition feed_byte :: "'s storage_ops \<Rightarrow> (string list \<Rightarrow> bool) \<Rightarrow> bool \<Rightarrow> char \<Rightarrow>
    session \<Rightarrow> 's \<Rightarrow> string list \<Rightarrow> (loop_end option \<times> session \<times> 's \<times> string list) option" where
  "feed_byte st stop tidy c se s out = do {
     (ok, se) \<leftarrow> take_byte c se;
     if ok then run_ready st stop tidy se s out else Some (Some Threw, se, s, out) }"

fun feed_bytes :: "'s storage_ops \<Rightarrow> (string list \<Rightarrow> bool) \<Rightarrow> bool \<Rightarrow> string \<Rightarrow>
    session \<Rightarrow> 's \<Rightarrow> string list \<Rightarrow> (loop_end \<times> string \<times> session \<times> 's \<times> string list) option" where
  "feed_bytes st stop tidy [] se s out = Some (Drained, [], se, s, out)"
| "feed_bytes st stop tidy (c # cs) se s out =
     (case feed_byte st stop tidy c se s out of None \<Rightarrow> None
      | Some (Some e, X) \<Rightarrow> Some (e, if e = Threw then [] else cs, X)
      | Some (None, se, s, out) \<Rightarrow> feed_bytes st stop tidy cs se s out)"

section \<open>The invariant of a session\<close>

text \<open>Between two bytes an unfinished command waits for a non-empty argument.\<close>

definition session_ok :: "session \<Rightarrow> bool" where
  "session_ok se \<longleftrightarrow> parser_inv (s_parser se) \<and>
     (case pending se of None \<Rightarrow> \<not> p_complete (s_parser se) \<and> argument se = []
      | Some _ \<Rightarrow> arg_remains se \<noteq> 0)"

lemma session_ok_new [simp]: "session_ok (new_session r neg)"
  by (simp add: session_ok_def new_session_def) (simp add: new_parser_def)

lemma session_ok_finish [simp]: "session_ok (finish se)"
  by (simp add: session_ok_def finish_def Reset_eq) (simp add: new_parser_def)

lemma Build_inv: "parser_inv p \<Longrightarrow> p_complete p \<Longrightarrow> Build p \<noteq> Inr None"
  by (auto simp: parser_inv_def Build_def split: sum.splits)

lemma build_command_cases:
  assumes "parser_inv (s_parser se)" "p_complete (s_parser se)" "build_command se = Some (ok, se')"
  shows "s_parser se' = s_parser se \<and> argument se' = argument se \<and> (ok \<longrightarrow> pending se' \<noteq> None)"
  using assms Build_inv [OF assms(1,2)]
  by (auto simp: build_command_def Let_def split: sum.splits option.splits if_splits)

lemma run_ready_ok:
  assumes "run_ready st stop tidy se s out = Some (None, se', s', out')"
    "parser_inv (s_parser se)" "pending se = None \<longrightarrow> \<not> p_complete (s_parser se) \<and> argument se = []"
  shows "session_ok se'"
proof (cases "ready se")
  case None
  with assms(1) have "se' = se" by (simp add: run_ready_def)
  with None assms(2,3) show ?thesis by (auto simp: ready_def session_ok_def split: if_splits option.splits)
next
  case (Some cmd)
  with assms(1) have "se' = finish se"
    by (auto simp: run_ready_def bind_eq_Some_conv Let_def split: if_splits)
  then show ?thesis by simp
qed

lemma take_byte_ok:
  assumes "session_ok se" "take_byte c se = Some (True, se')"
  shows "parser_inv (s_parser se') \<and> (pending se' = None \<longrightarrow> \<not> p_complete (s_parser se') \<and> argument se' = [])"
proof (cases "pending se")
  case (Some cmd)
  with assms show ?thesis by (auto simp: take_byte_def session_ok_def)
next
  case None
  with assms(1) have p: "parser_inv (s_parser se)" "\<not> p_complete (s_parser se)" "argument se = []"
    by (auto simp: session_ok_def)
  obtain r q where q: "parse_char c 0 (s_parser se) = (r, q)" by (cases "parse_char c 0 (s_parser se)")
  from parse_char_inv [OF p(1,2) q] have "parser_inv q" by simp
  with None assms(2) q p(3) build_command_cases [of "se\<lparr>s_parser := q\<rparr>" True se'] show ?thesis
    by (auto simp: take_byte_def split: option.splits if_splits)
qed

lemma feed_byte_ok:
  "session_ok se \<Longrightarrow> feed_byte st stop tidy c se s out = Some (None, se', s', out') \<Longrightarrow> session_ok se'"
  by (auto simp: feed_byte_def bind_eq_Some_conv split: if_splits dest: take_byte_ok run_ready_ok)

lemma feed_byte_end: "feed_byte st stop tidy c se s out = Some (Some e, X) \<Longrightarrow> e = Threw \<or> e = Halted"
  by (auto simp: feed_byte_def run_ready_def bind_eq_Some_conv Let_def split: option.splits if_splits)

lemma feed_bytes_ok:
  "session_ok se \<Longrightarrow> feed_bytes st stop tidy cs se s out = Some (Drained, buf, se', s', out') \<Longrightarrow>
    session_ok se' \<and> buf = []"
proof (induction cs arbitrary: se s out)
  case (Cons c cs)
  obtain r se1 s1 out1 where 1: "feed_byte st stop tidy c se s out = Some (r, se1, s1, out1)"
    using Cons.prems(2) by (cases "feed_byte st stop tidy c se s out") auto
  with Cons.prems(2) feed_byte_end [of st stop tidy c se s out "the r" "(se1, s1, out1)"] have r: "r = None" by (cases r) auto
  with 1 Cons.prems(2) have 2: "feed_bytes st stop tidy cs se1 s1 out1 = Some (Drained, buf, se', s', out')" by simp
  note 1 = 1 [unfolded r]
  from Cons.IH [OF feed_byte_ok [OF Cons.prems(1) 1] 2] show ?case .
qed simp

section \<open>One iteration and its first byte\<close>

lemma undefined_shift [simp]: "undefined_error (shift_error k e) \<longleftrightarrow> undefined_error e"
  by (cases e) (simp_all add: undefined_error_def)

lemma Parse_Cons:
  assumes "\<not> p_complete p"
  shows "Parse (c # cs) p = (case parse_char c 0 p of
      (Some e, q) \<Rightarrow> (Inl e, q)
    | (None, q) \<Rightarrow> (case Parse cs q of (Inl e, q') \<Rightarrow> (Inl (shift_error 1 e), q')
                    | (Inr (b, n), q') \<Rightarrow> (Inr (b, Suc n), q')))"
  using assms parse_loop_shift [of cs 0 1]
  by (auto simp: Parse_def shift_result_def split: prod.splits option.splits sum.splits)

lemma Parse_consumes:
  assumes "Parse cs q = (Inr (b, n), q')" "\<not> p_complete q" "cs \<noteq> []"
  shows "n \<noteq> 0"
  using assms by (cases cs) (auto simp: Parse_Cons split: option.splits prod.splits sum.splits)

lemma Parse_complete: "p_complete q \<Longrightarrow> Parse cs q = (Inr (True, 0), q)"
  by (simp add: Parse_def parse_loop_complete)

text \<open>An iteration that starts without a command.\<close>

lemma iteration_parse:
  assumes "pending se = None" "\<not> p_complete (s_parser se)"
  shows "iteration (c # cs) se = (case parse_char c 0 (s_parser se) of
      (Some e, q) \<Rightarrow> if undefined_error e then None else Some (Inl Threw, se\<lparr>s_parser := q\<rparr>)
    | (None, q) \<Rightarrow>
        if p_complete q then do {
          (ok, se) \<leftarrow> build_command (se\<lparr>s_parser := q\<rparr>);
          Some (if ok then (let (buf, se) = fill_phase cs se in (Inr buf, se)) else (Inl Threw, se)) }
        else if cs = [] then Some (Inr [], se\<lparr>s_parser := q\<rparr>)
        else iteration cs (se\<lparr>s_parser := q\<rparr>))"
proof (cases "parse_char c 0 (s_parser se)")
  case (Pair r q)
  show ?thesis
  proof (cases r)
    case (Some e)
    with Pair assms show ?thesis by (simp add: iteration_def parse_phase_def Parse_Cons)
  next
    case r: None
    show ?thesis
    proof (cases "p_complete q")
      case True
      with Pair r assms show ?thesis
        by (auto simp: iteration_def parse_phase_def Parse_Cons Parse_complete split: prod.split Option.bind_splits)
    next
      case False
      show ?thesis
      proof (cases cs)
        case Nil
        with Pair r assms False show ?thesis
          by (simp add: iteration_def parse_phase_def Parse_Cons Parse_def fill_phase_def)
      next
        case (Cons d ds)
        then have ne: "cs \<noteq> []" by simp
        obtain x q' where x: "Parse cs q = (x, q')" by (cases "Parse cs q")
        show ?thesis
        proof (cases x)
          case (Inl e)
          with Pair r assms False ne x show ?thesis by (simp add: iteration_def parse_phase_def Parse_Cons)
        next
          case (Inr bn)
          then obtain b n where bn: "x = Inr (b, n)" by (cases bn) auto
          with Parse_consumes [of cs q b n q'] x False ne obtain k where "n = Suc k" by (cases n) auto
          with Pair r assms False ne x bn show ?thesis
            by (cases b; cases "build_command (se\<lparr>s_parser := q'\<rparr>)")
              (auto simp: iteration_def parse_phase_def Parse_Cons)
        qed
      qed
    qed
  qed
qed

text \<open>An iteration that starts with a command waiting for its argument.\<close>

lemma fill_Cons:
  assumes "pending se = Some cmd" "arg_remains se \<noteq> 0" "arg_remains se \<noteq> 1"
  shows "fill_phase (c # cs) se = fill_phase cs (se\<lparr>argument := argument se @ [c], arg_remains := arg_remains se - 1\<rparr>)"
proof -
  let ?r = "arg_remains se"
  have r: "unat ?r > 1" using assms(2,3) by (auto simp: word_unat_eq_iff)
  then have dec: "unat (?r - 1) = unat ?r - 1" using unat_minus_of_nat [of 1 ?r] by simp
  then have pos: "?r - 1 > 0" using r by (simp add: word_less_nat_alt)
  have m: "min (unat ?r) (Suc (length cs)) = Suc (min (unat ?r - 1) (length cs))" using r by simp
  from assms r dec pos show ?thesis by (simp add: fill_phase_def Let_def m word_neq_0_conv [symmetric] algebra_simps)
qed


definition fill_iteration :: "string \<Rightarrow> session \<Rightarrow> ((loop_end + string) \<times> session) option" where
  "fill_iteration buf se = Some (Inr (fst (fill_phase buf se)), snd (fill_phase buf se))"

lemma iteration_pending: "pending se \<noteq> None \<Longrightarrow> iteration buf se = fill_iteration buf se"
  by (simp add: iteration_def parse_phase_def fill_iteration_def split: prod.split)

lemma fill_not_waiting: "arg_remains se = 0 \<Longrightarrow> fill_phase buf se = (buf, se)"
  by (simp add: fill_phase_def)

lemma fill_Nil [simp]: "fill_phase [] se = ([], se)"
  by (simp add: fill_phase_def)

lemma fill_last:
  "pending se = Some cmd \<Longrightarrow> arg_remains se = 1 \<Longrightarrow>
    fill_phase (c # cs) se = (cs, se\<lparr>argument := argument se @ [c], arg_remains := 0\<rparr>)"
  by (simp add: fill_phase_def)

text \<open>
  An iteration takes the bytes of its buffer one by one up to the one that completes a command with its
  argument.
\<close>

lemma iteration_take_byte:
  assumes ok: "session_ok se"
  shows "iteration (c # cs) se = (case take_byte c se of None \<Rightarrow> None
    | Some (ok, se') \<Rightarrow> if \<not> ok then Some (Inl Threw, se')
        else if ready se' = None \<and> cs \<noteq> [] then iteration cs se' else Some (Inr cs, se'))"
proof -
  have fill: "fill_iteration cs se' = (if ready se' = None \<and> cs \<noteq> [] then iteration cs se' else Some (Inr cs, se'))"
    if "pending se' \<noteq> None" for se'
    using that by (cases "cs = []") (auto simp: iteration_pending ready_def fill_iteration_def fill_not_waiting)
  show ?thesis
  proof (cases "pending se")
    case (Some cmd)
    let ?se1 = "se\<lparr>argument := argument se @ [c], arg_remains := arg_remains se - 1\<rparr>"
    from ok Some have "arg_remains se \<noteq> 0" by (simp add: session_ok_def)
    with Some have "fill_phase (c # cs) se = (if arg_remains se = 1 then (cs, ?se1) else fill_phase cs ?se1)"
      by (simp add: fill_last fill_Cons)
    also have "\<dots> = fill_phase cs ?se1" by (simp add: fill_not_waiting)
    finally have "iteration (c # cs) se = fill_iteration cs ?se1"
      using Some by (simp add: iteration_pending fill_iteration_def)
    with fill [of ?se1] Some show ?thesis by (simp add: take_byte_def)
  next
    case None
    with ok have nc: "\<not> p_complete (s_parser se)" by (simp add: session_ok_def)
    obtain r q where q: "parse_char c 0 (s_parser se) = (r, q)" by (cases "parse_char c 0 (s_parser se)")
    note it = iteration_parse [OF None nc, of c cs] and inv = parse_char_inv [OF _ nc q]
    show ?thesis
    proof (cases "r = None \<and> p_complete q")
      case False
      with it q None show ?thesis by (cases r) (auto simp: take_byte_def ready_def)
    next
      case True
      show ?thesis
      proof (cases "build_command (se\<lparr>s_parser := q\<rparr>)")
        case (Some x)
        then obtain k se2 where b: "build_command (se\<lparr>s_parser := q\<rparr>) = Some (k, se2)" by (cases x) auto
        with build_command_cases [of "se\<lparr>s_parser := q\<rparr>" k se2] inv ok True have "k \<Longrightarrow> pending se2 \<noteq> None"
          by (simp add: session_ok_def)
        with it q None True b fill [of se2] show ?thesis
          by (auto simp: take_byte_def fill_iteration_def split: prod.split)
      qed (use it q None True in \<open>simp add: take_byte_def\<close>)
    qed
  qed
qed

lemma take_byte_waits:
  "session_ok se \<Longrightarrow> take_byte c se = Some (True, se') \<Longrightarrow> ready se' = None \<Longrightarrow> session_ok se'"
  using take_byte_ok [of se c se'] run_ready_ok [of undefined undefined undefined se' undefined undefined se' undefined undefined]
  by (auto simp: run_ready_def)

lemma iteration_ok:
  "session_ok se \<Longrightarrow> buf \<noteq> [] \<Longrightarrow> iteration buf se = Some (Inr buf', se') \<Longrightarrow> ready se' = None \<Longrightarrow> session_ok se'"
proof (induction buf arbitrary: se)
  case (Cons c cs)
  then show ?case using take_byte_waits [OF Cons.prems(1), of c]
    by (auto simp: iteration_take_byte split: option.splits if_splits)
qed simp

lemma iteration_threw:
  "session_ok se \<Longrightarrow> buf \<noteq> [] \<Longrightarrow> iteration buf se = Some (Inl e, se') \<Longrightarrow> e = Threw"
proof (induction buf arbitrary: se)
  case (Cons c cs)
  then show ?case using take_byte_waits [OF Cons.prems(1), of c]
    by (auto simp: iteration_take_byte split: option.splits if_splits)
qed simp

section \<open>The loop takes one byte at a time\<close>

text \<open>What a caller sees of the loop: an exception leaves some suffix of the buffer behind.\<close>

definition outcome :: "(loop_end \<times> string \<times> 'a) option \<Rightarrow> (loop_end \<times> string \<times> 'a) option" where
  "outcome = map_option (\<lambda>(e, buf, X). (e, if e = Threw then [] else buf, X))"

lemma outcome_simps [simp]:
  "outcome None = None"
  "outcome (Some (e, buf, X)) = Some (e, if e = Threw then [] else buf, X)"
  by (simp_all add: outcome_def)

lemma session_loop_Nil [simp]: "session_loop st stop tidy [] se s out = Some (Drained, [], se, s, out)"
  by (subst session_loop.simps) simp

text \<open>The end of an iteration is the end of a byte.\<close>

lemma session_loop_ready:
  assumes "buf \<noteq> []" "iteration buf se = Some (Inr buf', se')"
  shows "session_loop st stop tidy buf se s out = (case run_ready st stop tidy se' s out of None \<Rightarrow> None
    | Some (Some e, X) \<Rightarrow> Some (e, buf', X)
    | Some (None, se'', s'', out'') \<Rightarrow> session_loop st stop tidy buf' se'' s'' out'')"
  using assms
  by (subst session_loop.simps) (auto simp: run_ready_def Let_def split: option.split prod.split)

lemma session_loop_end:
  assumes "buf \<noteq> []" "iteration buf se = Some (Inl e, se')"
  shows "session_loop st stop tidy buf se s out = Some (e, buf, se', s, out)"
  using assms by (subst session_loop.simps) simp

lemma session_loop_undefined:
  assumes "buf \<noteq> []" "iteration buf se = None"
  shows "session_loop st stop tidy buf se s out = None"
  using assms by (subst session_loop.simps) simp

lemma session_loop_cong:
  assumes "iteration buf se = iteration buf' se'" "buf \<noteq> []" "buf' \<noteq> []"
    "\<And>e se''. iteration buf se = Some (Inl e, se'') \<Longrightarrow> e = Threw"
  shows "outcome (session_loop st stop tidy buf se s out) = outcome (session_loop st stop tidy buf' se' s out)"
proof (cases "iteration buf se")
  case None
  then show ?thesis using assms by (simp add: session_loop_undefined)
next
  case (Some x)
  then obtain r se1 where x: "iteration buf se = Some (r, se1)" by (cases x) auto
  show ?thesis
  proof (cases r)
    case (Inl e)
    with x assms(4) have "e = Threw" by blast
    then show ?thesis using x assms Inl by (simp add: session_loop_end)
  next
    case (Inr b)
    with x assms show ?thesis by (simp add: session_loop_ready)
  qed
qed

lemma run_ready_not_ready: "ready se = None \<Longrightarrow> run_ready st stop tidy se s out = Some (None, se, s, out)"
  by (simp add: run_ready_def)

lemma session_loop_now:
  assumes "buf \<noteq> []" "iteration buf se = Some (Inr cs, se1)"
  shows "outcome (session_loop st stop tidy buf se s out) = (case run_ready st stop tidy se1 s out of None \<Rightarrow> None
     | Some (Some e, X) \<Rightarrow> Some (e, if e = Threw then [] else cs, X)
     | Some (None, se', s', out') \<Rightarrow> outcome (session_loop st stop tidy cs se' s' out'))"
  unfolding session_loop_ready [OF assms] by (simp split: option.split prod.split)

text \<open>Peeling the first byte off a buffer.\<close>

lemma session_loop_Cons:
  assumes ok: "session_ok se"
  shows "outcome (session_loop st stop tidy (c # cs) se s out) =
    (case feed_byte st stop tidy c se s out of None \<Rightarrow> None
     | Some (Some e, X) \<Rightarrow> Some (e, if e = Threw then [] else cs, X)
     | Some (None, se', s', out') \<Rightarrow> outcome (session_loop st stop tidy cs se' s' out'))"
proof (cases "take_byte c se")
  case None
  then show ?thesis using iteration_take_byte [OF ok, of c cs]
    by (simp add: feed_byte_def session_loop_undefined)
next
  case (Some x)
  then obtain b se1 where t: "take_byte c se = Some (b, se1)" by (cases x) auto
  show ?thesis
  proof (cases b)
    case False
    with t iteration_take_byte [OF ok, of c cs] show ?thesis by (simp add: feed_byte_def session_loop_end)
  next
    case True
    show ?thesis
    proof (cases "ready se1 = None \<and> cs \<noteq> []")
      case False
      with True t iteration_take_byte [OF ok, of c cs] have "iteration (c # cs) se = Some (Inr cs, se1)" by auto
      from session_loop_now [OF _ this, of st stop tidy s out] True t show ?thesis by (simp add: feed_byte_def)
    next
      case wait: True
      with True t iteration_take_byte [OF ok, of c cs] have eq: "iteration (c # cs) se = iteration cs se1" by simp
      with session_loop_cong [OF eq, of st stop tidy s out] iteration_threw [OF ok, of "c # cs"] wait True t show ?thesis
        by (simp add: feed_byte_def run_ready_def)
    qed
  qed
qed

text \<open>
  C2. The loop of the four servers over a buffer is the byte machine run over the buffer: same
  end, same session, same storage, same responses, for every storage, whatever ends the loop.
\<close>

theorem session_loop_bytes:
  assumes "session_ok se"
  shows "outcome (session_loop st stop tidy buf se s out) = feed_bytes st stop tidy buf se s out"
  using assms
proof (induction buf arbitrary: se s out)
  case (Cons c cs)
  show ?case
    unfolding session_loop_Cons [OF Cons.prems]
    by (auto split: option.split prod.split intro: Cons.IH feed_byte_ok [OF Cons.prems])
qed simp


lemma session_loop_bytes_witness:
  "outcome (session_loop simple_lru_ops (\<lambda>_. False) True ''get a'' (new_session 0 True) (SimpleLRU 64) []) =
    feed_bytes simple_lru_ops (\<lambda>_. False) True ''get a'' (new_session 0 True) (SimpleLRU 64) []"
  by (rule session_loop_bytes) simp

lemma session_loop_feed: "session_ok se \<Longrightarrow> outcome (session_loop st stop tidy buf se s out) = feed_bytes st stop tidy buf se s out"
proof (induction buf arbitrary: se s out)
  case (Cons c cs)
  show ?case
    unfolding session_loop_Cons [OF Cons.prems]
    by (auto split: option.split prod.split intro: Cons.IH feed_byte_ok [OF Cons.prems])
qed simp

section \<open>Streams\<close>

lemma feed_bytes_append:
  "feed_bytes st stop tidy (xs @ ys) se s out = (case feed_bytes st stop tidy xs se s out of None \<Rightarrow> None
    | Some (e, buf, se', s', out') \<Rightarrow>
        if e = Drained then feed_bytes st stop tidy ys se' s' out'
        else Some (e, if e = Threw then [] else buf @ ys, se', s', out'))"
proof (induction xs arbitrary: se s out)
  case (Cons c cs)
  show ?case
    using feed_byte_end [of st stop tidy c se s out]
    by (auto simp: Cons.IH split: option.split prod.split)
qed simp

lemma feed_bytes_end:
  "feed_bytes st stop tidy cs se s out = Some (e, buf, X) \<Longrightarrow> e \<in> {Drained, Threw, Halted}"
proof (induction cs arbitrary: se s out)
  case (Cons c cs)
  show ?case
  proof (cases "feed_byte st stop tidy c se s out")
    case (Some x)
    then obtain r se1 s1 out1 where x: "feed_byte st stop tidy c se s out = Some (r, se1, s1, out1)" by (cases x) auto
    with Cons feed_byte_end [of st stop tidy c se s out _ "(se1, s1, out1)"] show ?thesis by (cases r) auto
  qed (use Cons.prems in simp)
qed simp

lemma session_loop_drained:
  assumes "session_ok se" "session_loop st stop tidy buf se s out = Some (e, left, se', s', out')"
  shows "feed_bytes st stop tidy buf se s out = Some (e, if e = Threw then [] else left, se', s', out')"
    and "e \<noteq> NotConsumed" and "e = Drained \<Longrightarrow> left = [] \<and> session_ok se'"
proof -
  show 1: "feed_bytes st stop tidy buf se s out = Some (e, if e = Threw then [] else left, se', s', out')"
    using session_loop_feed [OF assms(1), of st stop tidy buf s out] assms(2) by simp
  show "e \<noteq> NotConsumed" using feed_bytes_end [OF 1] by auto
  show "left = [] \<and> session_ok se'" if "e = Drained"
    using feed_bytes_ok [OF assms(1), of st stop tidy buf s out left se' s' out'] 1 that by simp
qed

section \<open>A command and its argument\<close>

definition fresh :: "session \<Rightarrow> bool" where
  "fresh se \<longleftrightarrow> pending se = None \<and> argument se = [] \<and> (\<exists>p. s_parser se = Reset p)"

lemma fresh_ok: "fresh se \<Longrightarrow> session_ok se"
  by (auto simp: fresh_def session_ok_def Reset_eq) (simp add: new_parser_def)

lemma fresh_finish [simp]: "fresh (finish se)"
  by (auto simp: fresh_def finish_def)

lemma fresh_new [simp]: "fresh (new_session r neg)"
proof -
  show ?thesis unfolding fresh_def
    by (intro conjI exI [of _ "new_parser neg"]) (simp_all add: new_session_def)
qed

text \<open>
  The body that belongs to an announced size: nothing for 0, otherwise two more bytes than
  announced, which the server takes for the line end and stores with the rest.
\<close>

definition body_of_size :: "size_t \<Rightarrow> string \<Rightarrow> bool" where
  "body_of_size n body \<longleftrightarrow> (if n = 0 then body = [] else length body = unat (n + 2) \<and> n + 2 \<noteq> 0)"

lemma reads_commandE:
  assumes "reads_command line rest cmd n p"
  obtains p' where "Parse (line @ rest) p = (Inr (True, length line), p')" "Build p' = Inr (Some (cmd, n))"
proof -
  obtain x q where x: "Parse (line @ rest) p = (x, q)" by (cases "Parse (line @ rest) p")
  with assms obtain k where "x = Inr (True, k)"
    by (cases x) (auto simp: reads_command_def split: bool.splits)
  with assms x that [of q] show ?thesis by (simp add: reads_command_def)
qed

lemma session_loop_command:
  assumes "fresh se" "reads_command line (body @ rest) cmd n (s_parser se)" "line \<noteq> []" "body_of_size n body"
  shows "\<exists>se1. session_loop st stop tidy (line @ body @ rest) se s out =
    (case execute st cmd body s of None \<Rightarrow> None
     | Some (result, s') \<Rightarrow>
        if stop (out @ [result @ crlf])
        then Some (Halted, rest, if tidy then finish se1 else se1, s', out @ [result @ crlf])
        else session_loop st stop tidy rest (finish se1) s' (out @ [result @ crlf]))"
proof -
  from assms(2) obtain p' where P: "Parse (line @ body @ rest) (s_parser se) = (Inr (True, length line), p')"
    and B: "Build p' = Inr (Some (cmd, n))"
    using reads_commandE by blast
  let ?r = "if n > 0 then n + 2 else n"
  let ?se = "se\<lparr>s_parser := p', arg_remains := ?r, pending := Some cmd\<rparr>"
  let ?se1 = "?se\<lparr>argument := body, arg_remains := 0\<rparr>"
  from assms(1) have fr: "pending se = None" "argument se = []" by (simp_all add: fresh_def)
  have "build_command (se\<lparr>s_parser := p'\<rparr>) = Some (True, ?se)" using B by (simp add: build_command_def Let_def)
  with P fr assms(3) have ph: "parse_phase (line @ body @ rest) se = Some (Inr (body @ rest), ?se)"
    by (simp add: parse_phase_def)
  have "fill_phase (body @ rest) ?se = (rest, ?se1)"
  proof (cases "n = 0")
    case True
    with assms(4) fr show ?thesis by (cases se) (simp add: fill_phase_def body_of_size_def)
  next
    case False
    with assms(4) have len: "length body = unat (n + 2)" and nz: "n + 2 \<noteq> 0" by (simp_all add: body_of_size_def)
    have eq: "n + 2 - word_of_nat (length body) = 0" unfolding len by simp
    from len have min: "min (unat (n + 2)) (length (body @ rest)) = length body" by simp
    from False nz have nz': "0 < n" "0 < n + 2" by (simp_all add: word_neq_0_conv [symmetric])
    show ?thesis
      unfolding fill_phase_def Let_def using nz' fr eq len min by simp
  qed
  with ph have it: "iteration (line @ body @ rest) se = Some (Inr rest, ?se1)" by (simp add: iteration_def)
  have ne: "line @ body @ rest \<noteq> []" using assms(3) by simp
  show ?thesis
    unfolding session_loop_ready [OF ne it]
    by (rule exI [of _ ?se1]) (simp add: run_ready_def ready_def Let_def split: option.split prod.split)
qed

end
