(* ===== verification/Requests.thy ===== *)
theory Requests
  imports Session_Bytes
begin

text \<open>
  What a client asks for and what it is answered are separate: the commands with their arguments are
  a function of the bytes alone, and the responses are those of executing these commands one
  after another. The four servers compute both in one loop.
\<close>

section \<open>The commands in a stream\<close>

text \<open>How the stream ends, the commands with their arguments, the session that is left.\<close>

fun requests :: "string \<Rightarrow> session \<Rightarrow> (loop_end \<times> (command \<times> string) list \<times> session) option" where
  "requests [] se = Some (Drained, [], se)"
| "requests (c # cs) se = do {
     (ok, se) \<leftarrow> take_byte c se;
     if \<not> ok then Some (Threw, [], se)
     else case ready se of None \<Rightarrow> requests cs se
       | Some cmd \<Rightarrow> do {
           (e, rs, se') \<leftarrow> requests cs (finish se);
           Some (e, (cmd, argument se) # rs, se') } }"

lemma requests_end: "requests bs se = Some (e, rs, se') \<Longrightarrow> e = Drained \<or> e = Threw"
  by (induction bs arbitrary: se rs) (auto split: Option.bind_splits option.splits if_splits)

section \<open>Requests and responses\<close>

text \<open>
  Executing the commands of a stream is what the byte machine does, for a client that takes all
  responses.
\<close>

lemma feed_bytes_requests:
  "feed_bytes st (\<lambda>_. False) tidy bs se s out = do {
     (e, rs, se') \<leftarrow> requests bs se;
     (outs, s') \<leftarrow> run_commands st rs s;
     Some (e, [], se', s', out @ map (\<lambda>r. r @ crlf) outs) }"
proof (induction bs arbitrary: se s out)
  case (Cons c cs)
  show ?case
  proof (cases "take_byte c se")
    case (Some x)
    then obtain ok se1 where t: "take_byte c se = Some (ok, se1)" by (cases x) auto
    show ?thesis
    proof (cases "ok \<and> ready se1 \<noteq> None")
      case False
      with t Cons show ?thesis by (auto simp: feed_byte_def run_ready_def)
    next
      case True
      then obtain cmd where cmd: "ok" "ready se1 = Some cmd" by auto
      show ?thesis
      proof (cases "execute st cmd (argument se1) s")
        case None
        with t cmd show ?thesis by (cases "requests cs (finish se1)") (auto simp: feed_byte_def run_ready_def)
      next
        case (Some y)
        then obtain r s1 where "execute st cmd (argument se1) s = Some (r, s1)" by (cases y) auto
        with t cmd Cons show ?thesis
          by (cases "requests cs (finish se1)"; cases "run_commands st (fst (snd (the (requests cs (finish se1))))) s1")
            (auto simp: feed_byte_def run_ready_def)
      qed
    qed
  qed (simp add: feed_byte_def)
qed simp

section \<open>Requests and the loop over a buffer\<close>

lemma requests_append:
  "requests (xs @ ys) se = do {
     (e, rs, se') \<leftarrow> requests xs se;
     if e = Drained then do {
       (e, rs', se') \<leftarrow> requests ys se';
       Some (e, rs @ rs', se') }
     else Some (e, rs, se') }"
proof (induction xs arbitrary: se)
  case (Cons c cs)
  show ?case
  proof (cases "take_byte c se")
    case (Some x)
    then obtain ok se1 where "take_byte c se = Some (ok, se1)" by (cases x) auto
    then show ?thesis by (auto simp: Cons.IH split: option.split Option.bind_split)
  qed simp
qed (auto split: Option.bind_split)

text \<open>The requests in a buffer, one iteration of the loop at a time.\<close>

lemma requests_iteration:
  assumes "session_ok se" "buf \<noteq> []"
  shows "requests buf se = (case iteration buf se of None \<Rightarrow> None
    | Some (Inl e, se') \<Rightarrow> Some (Threw, [], se')
    | Some (Inr buf', se') \<Rightarrow> (case ready se' of None \<Rightarrow> requests buf' se'
        | Some cmd \<Rightarrow> do {
            (e, rs, se'') \<leftarrow> requests buf' (finish se');
            Some (e, (cmd, argument se') # rs, se'') }))"
  using assms
proof (induction buf arbitrary: se)
  case (Cons c cs)
  show ?case
  proof (cases "take_byte c se")
    case None
    then show ?thesis by (simp add: iteration_take_byte [OF Cons.prems(1)])
  next
    case (Some x)
    then obtain ok se1 where t: "take_byte c se = Some (ok, se1)" by (cases x) auto
    show ?thesis
    proof (cases "ok \<and> ready se1 = None \<and> cs \<noteq> []")
      case True
      with take_byte_waits [OF Cons.prems(1), of c se1] t have "session_ok se1" by simp
      from Cons.IH [OF this] True t show ?thesis by (simp add: iteration_take_byte [OF Cons.prems(1)])
    next
      case False
      with t show ?thesis by (auto simp: iteration_take_byte [OF Cons.prems(1)] split: option.split)
    qed
  qed
qed simp

text \<open>The same within a longer stream.\<close>

lemma requests_iteration_rest:
  assumes "session_ok se" "buf \<noteq> []"
  shows "iteration buf se = Some (Inl e, se') \<Longrightarrow> requests (buf @ rest) se = Some (Threw, [], se')"
    and "iteration buf se = Some (Inr buf', se') \<Longrightarrow> ready se' = None \<Longrightarrow> requests (buf @ rest) se = requests (buf' @ rest) se'"
    and "iteration buf se = Some (Inr buf', se') \<Longrightarrow> ready se' = Some cmd \<Longrightarrow>
      requests (buf @ rest) se = do {
        (e, rs, se'') \<leftarrow> requests (buf' @ rest) (finish se');
        Some (e, (cmd, argument se') # rs, se'') }"
  by (auto simp: requests_append requests_iteration [OF assms] split: Option.bind_split)

section \<open>Properties\<close>

text \<open>
  C16. The loop of the servers separates into two functions: the commands with their arguments are
  those of \<open>requests\<close>, which reads no storage, and the responses, the storage and what is undefined are
  those of executing the commands in order. So what a client asks for never depends on what
  it or another client was answered.
\<close>

theorem loop_requests_responses:
  assumes "session_ok se"
  shows "outcome (session_loop st (\<lambda>_. False) tidy buf se s out) = do {
     (e, rs, se') \<leftarrow> requests buf se;
     (outs, s') \<leftarrow> run_commands st rs s;
     Some (e, [], se', s', out @ map (\<lambda>r. r @ crlf) outs) }"
  by (simp add: session_loop_feed [OF assms] feed_bytes_requests)


lemma loop_requests_responses_witness:
  "outcome (session_loop simple_lru_ops (\<lambda>_. False) True ''get a'' (new_session 0 True) (SimpleLRU 64) []) = do {
     (e, rs, se') \<leftarrow> requests ''get a'' (new_session 0 True);
     (outs, s') \<leftarrow> run_commands simple_lru_ops rs (SimpleLRU 64);
     Some (e, [], se', s', [] @ map (\<lambda>r. r @ crlf) outs) }"
  by (rule loop_requests_responses) simp

end
