(* ===== verification/Command_Facts.thy ===== *)
theory Command_Facts
  imports Commands
begin

text \<open>
  The commands on the two storages of the program, as instances of the lemmas of the storage
  interface.
\<close>

section \<open>A storage with one association\<close>

lemma represents_one: "\<exists>s. represents s [(''a'', ''xx'')] \<and> max_size s = 8"
proof -
  have ok: "in_size_t (entry_size ''a'' ''xx'')" "no_shrink (unat (8 :: size_t)) ''a'' ''xx'' []"
    by (simp_all add: in_size_t_def entry_size_def no_shrink_def)
  from Put_spec [OF represents_new, of "''a''" "''xx''" 8] ok show ?thesis
    by (auto simp: completes_def cache_eval SimpleLRU_def)
qed

lemma one_association: "\<exists>s. lru_invar s \<and> lru_look s = [''a'' \<mapsto> ''xx''] \<and> lru_capacity s = 8"
proof -
  from represents_one obtain s where s: "represents s [(''a'', ''xx'')]" "max_size s = 8" by blast
  then have "lru_look s = map_of [(''a'', ''xx'')]" by (intro lru_look_map)
  with s show ?thesis by (auto simp: lru_invar_def lru_capacity_def)
qed

lemma ts_one_association: "\<exists>t. ts_invar t \<and> ts_look t = [''a'' \<mapsto> ''xx''] \<and> ts_capacity t = 8"
proof -
  from one_association obtain s where "lru_invar s" "lru_look s = [''a'' \<mapsto> ''xx'']" "lru_capacity s = 8" by blast
  then show ?thesis
    by (intro exI [of _ "\<lparr>ts_base = s, storage_lock = False\<rparr>"]) (simp add: ts_invar_def ts_look_def ts_capacity_def)
qed

section \<open>Properties\<close>

text \<open>
  A value that fits is readable right after \<open>set\<close>: on any valid state of \<open>SimpleLRU\<close> the command
  answers \<open>STORED\<close>, and the \<open>get\<close> that follows answers with exactly that value.
\<close>

theorem set_command_visible:
  assumes "lru_invar s" "lru_accepts k v s" "entry_size k v \<le> lru_capacity s"
  shows "\<exists>s' s''. execute simple_lru_ops (SetCmd k flags expire) v s = Some (''STORED'', s') \<and>
    execute simple_lru_ops (GetCmd [k]) args s' = Some (value_item k v @ ''END'', s'')"
  using lru_cmd.set_then_get [OF assms] by simp

lemma set_command_visible_witness:
  "\<exists>s s' s''. lru_look s = [''a'' \<mapsto> ''xx''] \<and> execute simple_lru_ops (SetCmd ''a'' 0 0) ''yyy'' s = Some (''STORED'', s') \<and>
    execute simple_lru_ops (GetCmd [''a'']) [] s' = Some (value_item ''a'' ''yyy'' @ ''END'', s'')"
proof -
  from one_association obtain s where s: "lru_invar s" "lru_look s = [''a'' \<mapsto> ''xx'']" "lru_capacity s = 8" by blast
  then have "lru_accepts ''a'' ''yyy'' s" "entry_size ''a'' ''yyy'' \<le> lru_capacity s"
    by (simp_all add: lru_accepts_def entry_size_def in_size_t_def)
  from set_command_visible [OF s(1) this] s(2) show ?thesis by blast
qed

text \<open>
  \<open>set\<close> also answers \<open>STORED\<close> when nothing was stored: an association larger than the whole
  storage is dropped, every lookup gives what it gave before, and the client is told otherwise.
\<close>

theorem set_command_oversized:
  assumes "lru_invar s" "lru_accepts k v s" "lru_capacity s < entry_size k v"
  shows "\<exists>s'. execute simple_lru_ops (SetCmd k flags expire) v s = Some (''STORED'', s') \<and> lru_look s' = lru_look s"
  using lru_cmd.set_oversized [OF assms] by auto

lemma set_command_oversized_witness:
  "\<exists>s s'. lru_look s = [''a'' \<mapsto> ''xx''] \<and> execute simple_lru_ops (SetCmd ''key'' 0 0) ''toolong'' s = Some (''STORED'', s') \<and>
    lru_look s' = [''a'' \<mapsto> ''xx'']"
proof -
  from one_association obtain s where s: "lru_invar s" "lru_look s = [''a'' \<mapsto> ''xx'']" "lru_capacity s = 8" by blast
  then have "lru_accepts ''key'' ''toolong'' s" "lru_capacity s < entry_size ''key'' ''toolong''"
    by (simp_all add: lru_accepts_def entry_size_def in_size_t_def)
  from set_command_oversized [OF s(1) this, of 0 0] s(2) show ?thesis by auto
qed

text \<open>
  \<open>get\<close> over the thread-safe storage answers, for every list of keys, the present ones in the
  order of the request with their values and nothing for the absent ones, and changes no
  association.
\<close>

theorem get_command_reply:
  assumes "ts_invar s"
  shows "\<exists>s'. execute thread_safe_ops (GetCmd keys) args s = Some (get_reply (ts_look s) keys, s') \<and>
    ts_invar s' \<and> ts_look s' = ts_look s"
  using ts.Get_Execute_result [OF assms] by simp

lemma get_command_reply_witness:
  "\<exists>t t'. execute thread_safe_ops (GetCmd [''b'', ''a'']) [] t =
    Some (get_reply [''a'' \<mapsto> ''xx''] [''b'', ''a''], t')"
proof -
  from ts_one_association obtain t where t: "ts_invar t" "ts_look t = [''a'' \<mapsto> ''xx'']" by blast
  from get_command_reply [OF t(1), of "[''b'', ''a'']" "[]", unfolded t(2)] show ?thesis by blast
qed

text \<open>
  \<open>append\<close> to a present key over the thread-safe storage answers \<open>STORED\<close> and the value that is
  read next is the old one followed by the data, provided the longer value is accepted.
\<close>

theorem append_command_extends:
  assumes "ts_invar s" "ts_look s k = Some v" "ts_accepts k (v @ data) s" "entry_size k (v @ data) \<le> ts_capacity s"
  shows "\<exists>s' s''. execute thread_safe_ops (AppendCmd k flags expire) data s = Some (''STORED'', s') \<and>
    execute thread_safe_ops (GetCmd [k]) args s' = Some (value_item k (v @ data) @ ''END'', s'')"
  using ts_cmd.append_then_get [OF assms] by simp

lemma append_command_extends_witness:
  "\<exists>t t' t''. execute thread_safe_ops (AppendCmd ''a'' 0 0) ''yy'' t = Some (''STORED'', t') \<and>
    execute thread_safe_ops (GetCmd [''a'']) [] t' = Some (value_item ''a'' ''xxyy'' @ ''END'', t'')"
proof -
  from ts_one_association obtain t where t: "ts_invar t" "ts_look t = [''a'' \<mapsto> ''xx'']" "ts_capacity t = 8" by blast
  have "ts_accepts ''a'' (''xx'' @ ''yy'') t" "entry_size ''a'' (''xx'' @ ''yy'') \<le> ts_capacity t"
    using t(2,3) by (simp_all add: ts_accepts_def lru_accepts_def ts_look_def entry_size_def in_size_t_def)
  from append_command_extends [OF t(1) _ this, of 0 0] t(2) show ?thesis by auto
qed

end
