(* ===== verification/Concurrent_Commands.thy ===== *)
theory Concurrent_Commands
  imports Command_Facts
begin

text \<open>
  The commands of several connections on one \<open>ThreadSafeSimplLRU\<close>, as the multi-threaded servers run
  them: the lock is held for one call of the storage, not for one \<open>Execute\<close>. A command is the
  sequence of the storage calls it makes; the threads interleave at every step of the lock.
  The system of whole calls that nothing interrupts has the same behaviours, and commands that make
  one call look as if they were executed one after another, while \<open>append\<close>, which makes two, does
  not.
\<close>

section \<open>A command as the calls it makes\<close>

datatype program = Reply string | Call lru_op "op_result \<Rightarrow> program"

fun get_program :: "string list \<Rightarrow> string \<Rightarrow> program" where
  "get_program [] out = Reply (out @ ''END'')"
| "get_program (key # keys) out = Call (OpGet key) (\<lambda>r. case r of
       Found (Some v) \<Rightarrow> get_program keys (out @ value_item key v)
     | _ \<Rightarrow> get_program keys out)"

fun command_program :: "command \<Rightarrow> string \<Rightarrow> program" where
  "command_program (SetCmd key _ _) args = Call (OpPut key args) (\<lambda>_. Reply ''STORED'')"
| "command_program (AddCmd key _ _) args = Call (OpPutIfAbsent key args)
     (\<lambda>r. Reply (if r = Stored True then ''STORED'' else ''NOT_STORED''))"
| "command_program (AppendCmd key _ _) args = Call (OpGet key) (\<lambda>r. case r of
       Found (Some v) \<Rightarrow> Call (OpPut key (v @ args)) (\<lambda>_. Reply ''STORED'')
     | _ \<Rightarrow> Reply ''NOT_STORED'')"
| "command_program (ReplaceCmd key _ _) args = Call (OpGet key) (\<lambda>r. case r of
       Found (Some v) \<Rightarrow> Call (OpSet key args) (\<lambda>_. Reply ''STORED'')
     | _ \<Rightarrow> Reply ''NOT_STORED'')"
| "command_program (GetCmd keys) args = get_program keys []"
| "command_program StatsCmd args = Reply ''END''"

primrec run_program :: "program \<Rightarrow> simple_lru \<Rightarrow> (string \<times> simple_lru) option" where
  "run_program (Reply out) s = Some (out, s)"
| "run_program (Call x f) s = do { (r, s) \<leftarrow> run_op x s; run_program (f r) s }"

text \<open>Run without interruption, the calls are the \<open>Execute\<close> of the command.\<close>

lemma run_get_program:
  "run_program (get_program keys out) s = map_option (apfst (\<lambda>items. out @ items @ ''END'')) (get_items simple_lru_ops keys s)"
proof (induction keys arbitrary: out s)
  case (Cons key keys)
  show ?case
  proof (cases "Get key s")
    case (Some p)
    then show ?thesis using Cons
      by (cases p; cases "get_items simple_lru_ops keys (snd p)")
        (auto simp: simple_lru_ops_def split: option.split)
  qed (simp add: simple_lru_ops_def)
qed simp

lemma run_command_program: "run_program (command_program c args) s = execute simple_lru_ops c args s"
proof (cases c)
  case (GetCmd keys)
  then show ?thesis
    by (cases "get_items simple_lru_ops keys s") (auto simp: run_get_program Get_Execute_def)
qed (auto simp: simple_lru_ops_def Set_Execute_def Add_Execute_def Append_Execute_def Replace_Execute_def
    Stats_Execute_def split: Option.bind_split option.split)

section \<open>Whole calls\<close>

datatype client = NoCommand | Executing command string program

type_synonym answer = "nat \<times> command \<times> string \<times> string"

text \<open>\<open>calls_order\<close> records the commands at their last storage call, \<open>calls_replies\<close> when they are answered.\<close>

record calls_sys =
  calls_object :: simple_lru
  calls_client :: "nat \<Rightarrow> client"
  calls_order :: "answer list"
  calls_replies :: "answer list"

fun decided :: "nat \<Rightarrow> command \<Rightarrow> string \<Rightarrow> program \<Rightarrow> answer list" where
  "decided i c args (Reply out) = [(i, c, args, out)]"
| "decided i c args (Call x f) = []"

definition calls_start :: "simple_lru \<Rightarrow> calls_sys" where
  "calls_start s0 = \<lparr>calls_object = s0, calls_client = (\<lambda>_. NoCommand), calls_order = [], calls_replies = []\<rparr>"

text \<open>\<open>ok\<close> restricts the commands that clients send.\<close>

inductive calls_step :: "(command \<Rightarrow> bool) \<Rightarrow> calls_sys \<Rightarrow> calls_sys \<Rightarrow> bool" for ok where
  calls_begin: "calls_client s i = NoCommand \<Longrightarrow> ok c \<Longrightarrow>
    calls_step ok s (s\<lparr>calls_client := (calls_client s)(i := Executing c args (command_program c args)),
      calls_order := calls_order s @ decided i c args (command_program c args)\<rparr>)"
| calls_call: "calls_client s i = Executing c args (Call x f) \<Longrightarrow> run_op x (calls_object s) = Some (r, v) \<Longrightarrow>
    calls_step ok s (s\<lparr>calls_object := v, calls_client := (calls_client s)(i := Executing c args (f r)),
      calls_order := calls_order s @ decided i c args (f r)\<rparr>)"
| calls_answer: "calls_client s i = Executing c args (Reply out) \<Longrightarrow>
    calls_step ok s (s\<lparr>calls_client := (calls_client s)(i := NoCommand),
      calls_replies := calls_replies s @ [(i, c, args, out)]\<rparr>)"

section \<open>Calls under the lock\<close>

text \<open>
  The storage with its lock is the system of \<open>Thread_Safe_LRU\<close>. A thread enters a call that its
  command makes next, works on the object, and goes on with the result when it has released the lock.
\<close>

record serving =
  sv_storage :: ts_sys
  sv_client :: "nat \<Rightarrow> client"
  sv_order :: "answer list"
  sv_replies :: "answer list"

definition serving_start :: "simple_lru \<Rightarrow> serving" where
  "serving_start s0 = \<lparr>sv_storage = ts_start s0, sv_client = (\<lambda>_. NoCommand), sv_order = [], sv_replies = []\<rparr>"

inductive serving_step :: "(command \<Rightarrow> bool) \<Rightarrow> serving \<Rightarrow> serving \<Rightarrow> bool" for ok where
  begin_command: "sv_client s i = NoCommand \<Longrightarrow> ok c \<Longrightarrow>
    serving_step ok s (s\<lparr>sv_client := (sv_client s)(i := Executing c args (command_program c args)),
      sv_order := sv_order s @ decided i c args (command_program c args)\<rparr>)"
| enter_call: "sv_client s i = Executing c args (Call x f) \<Longrightarrow> ts_phase (sv_storage s) i = Outside \<Longrightarrow>
    ts_step (sv_storage s) t \<Longrightarrow> ts_phase t i = Holding x \<Longrightarrow>
    serving_step ok s (s\<lparr>sv_storage := t\<rparr>)"
| read_in_call: "ts_phase (sv_storage s) i = Holding x \<Longrightarrow> ts_step (sv_storage s) t \<Longrightarrow> ts_phase t i = Working x v \<Longrightarrow>
    serving_step ok s (s\<lparr>sv_storage := t\<rparr>)"
| write_in_call: "sv_client s i = Executing c args (Call x f) \<Longrightarrow> ts_phase (sv_storage s) i = Working x v \<Longrightarrow>
    ts_step (sv_storage s) t \<Longrightarrow> ts_phase t i = Leaving r \<Longrightarrow>
    serving_step ok s (s\<lparr>sv_storage := t, sv_order := sv_order s @ decided i c args (f r)\<rparr>)"
| return_call: "sv_client s i = Executing c args (Call x f) \<Longrightarrow> ts_phase (sv_storage s) i = Leaving r \<Longrightarrow>
    ts_step (sv_storage s) t \<Longrightarrow> ts_phase t i = Outside \<Longrightarrow>
    serving_step ok s (s\<lparr>sv_storage := t, sv_client := (sv_client s)(i := Executing c args (f r))\<rparr>)"
| answer_command: "sv_client s i = Executing c args (Reply out) \<Longrightarrow>
    serving_step ok s (s\<lparr>sv_client := (sv_client s)(i := NoCommand),
      sv_replies := sv_replies s @ [(i, c, args, out)]\<rparr>)"

abbreviation serving_reachable :: "(command \<Rightarrow> bool) \<Rightarrow> simple_lru \<Rightarrow> serving \<Rightarrow> bool" where
  "serving_reachable ok s0 \<equiv> reaches (serving_step ok) (serving_start s0)"

text \<open>A client that has a result but not yet released the lock counts as gone on.\<close>

definition gone_on :: "ts_phase \<Rightarrow> client \<Rightarrow> client" where
  "gone_on p cl = (case (p, cl) of (Leaving r, Executing c args (Call x f)) \<Rightarrow> Executing c args (f r) | _ \<Rightarrow> cl)"

definition calls_shown :: "serving \<Rightarrow> calls_sys" where
  "calls_shown s = \<lparr>calls_object = ts_object (sv_storage s),
     calls_client = (\<lambda>i. gone_on (ts_phase (sv_storage s) i) (sv_client s i)),
     calls_order = sv_order s, calls_replies = sv_replies s\<rparr>"

section \<open>The steps of one caller\<close>

lemma ts_enter:
  assumes "ts_step s t" "ts_phase s i = Outside" "ts_phase t i = Holding x"
  shows "t = s\<lparr>ts_owner := Some i, ts_phase := (ts_phase s)(i := Holding x)\<rparr>"
  using assms by (cases rule: ts_step.cases) (auto split: if_splits)

lemma ts_read:
  assumes "ts_step s t" "ts_phase s i = Holding x" "ts_phase t i = Working y v"
  shows "t = s\<lparr>ts_phase := (ts_phase s)(i := Working x (ts_object s))\<rparr>"
  using assms by (cases rule: ts_step.cases) (auto split: if_splits)

lemma ts_write:
  assumes "ts_step s t" "ts_phase s i = Working x v" "ts_phase t i = Leaving r"
  obtains v' where "run_op x v = Some (r, v')"
    "t = s\<lparr>ts_object := v', ts_phase := (ts_phase s)(i := Leaving r), ts_log := ts_log s @ [(i, x, r)]\<rparr>"
  using assms by (cases rule: ts_step.cases) (auto split: if_splits)

lemma ts_return:
  assumes "ts_step s t" "ts_phase s i = Leaving r" "ts_phase t i = Outside"
  shows "t = s\<lparr>ts_owner := None, ts_phase := (ts_phase s)(i := Outside)\<rparr>"
  using assms by (cases rule: ts_step.cases) (auto split: if_splits)

section \<open>Locked calls are whole calls\<close>

text \<open>A thread inside the storage makes the call its command makes next.\<close>

fun calls_next :: "client \<Rightarrow> ts_phase \<Rightarrow> bool" where
  "calls_next _ Outside \<longleftrightarrow> True"
| "calls_next (Executing _ _ (Call x _)) (Holding y) \<longleftrightarrow> x = y"
| "calls_next (Executing _ _ (Call x _)) (Working y _) \<longleftrightarrow> x = y"
| "calls_next (Executing _ _ (Call _ _)) (Leaving _) \<longleftrightarrow> True"
| "calls_next _ _ \<longleftrightarrow> False"

definition serving_inv :: "simple_lru \<Rightarrow> serving \<Rightarrow> bool" where
  "serving_inv s0 s \<longleftrightarrow> ts_inv s0 (sv_storage s) \<and> (\<forall>i. calls_next (sv_client s i) (ts_phase (sv_storage s) i))"

lemma calls_next_idle [simp]: "calls_next NoCommand p \<longleftrightarrow> p = Outside"
  by (cases p) simp_all

lemma calls_next_reply [simp]: "calls_next (Executing c args (Reply out)) p \<longleftrightarrow> p = Outside"
  by (cases p) simp_all

lemma calls_next_working: "calls_next cl (Working x v) \<longleftrightarrow> calls_next cl (Holding x)"
  by (cases "(cl, Holding x)" rule: calls_next.cases) simp_all

lemma serving_invD: "serving_inv s0 s \<Longrightarrow> calls_next (sv_client s i) (ts_phase (sv_storage s) i)"
  by (simp add: serving_inv_def)

text \<open>A step of one caller leaves the others where they are.\<close>

lemma serving_inv_caller:
  assumes "serving_inv s0 s" "ts_inv s0 (sv_storage t)" "calls_next (sv_client t i) (ts_phase (sv_storage t) i)"
    "\<And>j. j \<noteq> i \<Longrightarrow> sv_client t j = sv_client s j \<and> ts_phase (sv_storage t) j = ts_phase (sv_storage s) j"
  shows "serving_inv s0 t"
  unfolding serving_inv_def
proof (intro conjI allI)
  show "calls_next (sv_client t j) (ts_phase (sv_storage t) j)" for j
    using assms(3) assms(4) [of j] serving_invD [OF assms(1), of j] by (cases "j = i") auto
qed (rule assms(2))

lemma serving_step_inv: "serving_step ok s t \<Longrightarrow> serving_inv s0 s \<Longrightarrow> serving_inv s0 t"
proof (induction rule: serving_step.induct)
  case (begin_command s i c args)
  then have "ts_phase (sv_storage s) i = Outside" using serving_invD [of s0 s i] by simp
  with begin_command show ?case by (intro serving_inv_caller [OF begin_command.prems, of _ i]) (auto simp: serving_inv_def)
next
  case (enter_call s i c args x f t)
  note t = ts_enter [OF enter_call.hyps(3,2,4)]
  have "ts_inv s0 t" using ts_step_inv [OF enter_call.hyps(3)] enter_call.prems by (simp add: serving_inv_def)
  with enter_call t show ?case by (intro serving_inv_caller [OF enter_call.prems, of _ i]) auto
next
  case (read_in_call s i x t v)
  note t = ts_read [OF read_in_call.hyps(2,1,3)]
  have "ts_inv s0 t" using ts_step_inv [OF read_in_call.hyps(2)] read_in_call.prems by (simp add: serving_inv_def)
  with read_in_call t serving_invD [of s0 s i] show ?case
    by (intro serving_inv_caller [OF read_in_call.prems, of _ i]) (auto simp: calls_next_working)
next
  case (write_in_call s i c args x f v t r)
  from ts_write [OF write_in_call.hyps(3,2,4)] obtain v' where
    t: "t = (sv_storage s)\<lparr>ts_object := v', ts_phase := (ts_phase (sv_storage s))(i := Leaving r),
      ts_log := ts_log (sv_storage s) @ [(i, x, r)]\<rparr>" by blast
  have "ts_inv s0 t" using ts_step_inv [OF write_in_call.hyps(3)] write_in_call.prems by (simp add: serving_inv_def)
  with write_in_call t show ?case by (intro serving_inv_caller [OF write_in_call.prems, of _ i]) auto
next
  case (return_call s i c args x f r t)
  note t = ts_return [OF return_call.hyps(3,2,4)]
  have "ts_inv s0 t" using ts_step_inv [OF return_call.hyps(3)] return_call.prems by (simp add: serving_inv_def)
  with return_call t show ?case by (intro serving_inv_caller [OF return_call.prems, of _ i]) auto
next
  case (answer_command s i c args out)
  then have "ts_phase (sv_storage s) i = Outside" using serving_invD [of s0 s i] by simp
  with answer_command show ?case by (intro serving_inv_caller [OF answer_command.prems, of _ i]) (auto simp: serving_inv_def)
qed

lemma gone_on_simps [simp]:
  "gone_on Outside cl = cl" "gone_on (Holding x) cl = cl" "gone_on (Working x v) cl = cl"
  "gone_on p NoCommand = NoCommand" "gone_on p (Executing c args (Reply out)) = Executing c args (Reply out)"
  "gone_on (Leaving r) (Executing c args (Call x f)) = Executing c args (f r)"
  by (simp_all add: gone_on_def split: ts_phase.split)

lemma serving_step_shown:
  assumes "serving_step ok s t" "serving_inv s0 s"
  shows "calls_shown t = calls_shown s \<or> calls_step ok (calls_shown s) (calls_shown t)"
  using assms
proof (induction rule: serving_step.induct)
  case (begin_command s i c args)
  then have "calls_client (calls_shown s) i = NoCommand" by (simp add: calls_shown_def)
  from calls_begin [where ok = ok and args = args, OF this begin_command.hyps(2)] serving_invD [OF begin_command.prems, of i] begin_command.hyps(1)
  show ?case by (intro disjI2) (simp add: calls_shown_def fun_upd_def if_distrib cong: if_cong)
next
  case (enter_call s i c args x f t)
  from ts_enter [OF enter_call.hyps(3,2,4)] enter_call.hyps(2) show ?case by (auto simp: calls_shown_def fun_eq_iff)
next
  case (read_in_call s i x t v)
  from ts_read [OF read_in_call.hyps(2,1,3)] read_in_call.hyps(1) show ?case by (auto simp: calls_shown_def fun_eq_iff)
next
  case (write_in_call s i c args x f v t r)
  from ts_write [OF write_in_call.hyps(3,2,4)] obtain v' where
    v': "run_op x v = Some (r, v')" and
    t: "t = (sv_storage s)\<lparr>ts_object := v', ts_phase := (ts_phase (sv_storage s))(i := Leaving r),
      ts_log := ts_log (sv_storage s) @ [(i, x, r)]\<rparr>" by blast
  from write_in_call have client: "calls_client (calls_shown s) i = Executing c args (Call x f)"
    by (simp add: calls_shown_def)
  from write_in_call have "v = ts_object (sv_storage s)" by (auto simp: serving_inv_def ts_inv_def)
  with v' have "run_op x (calls_object (calls_shown s)) = Some (r, v')" by (simp add: calls_shown_def)
  note step = calls_call [where ok = ok, OF client this]
  have "calls_shown (s\<lparr>sv_storage := t, sv_order := sv_order s @ decided i c args (f r)\<rparr>) =
    (calls_shown s)\<lparr>calls_object := v', calls_client := (calls_client (calls_shown s))(i := Executing c args (f r)),
      calls_order := calls_order (calls_shown s) @ decided i c args (f r)\<rparr>"
    using write_in_call.hyps(1) by (auto simp: calls_shown_def fun_eq_iff t)
  with step show ?case by simp
next
  case (return_call s i c args x f r t)
  from ts_return [OF return_call.hyps(3,2,4)] return_call.hyps show ?case by (auto simp: calls_shown_def fun_eq_iff)
next
  case (answer_command s i c args out)
  then have "calls_client (calls_shown s) i = Executing c args (Reply out)" by (simp add: calls_shown_def)
  from calls_answer [where ok = ok, OF this] serving_invD [OF answer_command.prems, of i] answer_command.hyps
  show ?case by (intro disjI2) (simp add: calls_shown_def fun_upd_def if_distrib cong: if_cong)
qed

interpretation serving: refinement_map "serving_step ok" "serving_inv s0" "calls_step ok" calls_shown for ok s0
  by unfold_locales (erule (1) serving_step_inv, erule (1) serving_step_shown)


section \<open>Every run of whole calls can happen\<close>

definition quiet :: "serving \<Rightarrow> bool" where
  "quiet s \<longleftrightarrow> ts_owner (sv_storage s) = None \<and> (\<forall>i. ts_phase (sv_storage s) i = Outside)"

lemma quiet_shown: "quiet s \<Longrightarrow> calls_client (calls_shown s) = sv_client s"
  by (simp add: quiet_def calls_shown_def)

text \<open>The steps of one client: the others and their phases in the storage stay.\<close>

definition client_step :: "(command \<Rightarrow> bool) \<Rightarrow> nat \<Rightarrow> serving \<Rightarrow> serving \<Rightarrow> bool" where
  "client_step ok i s t \<longleftrightarrow> serving_step ok s t \<and>
     (\<forall>j. j \<noteq> i \<longrightarrow> sv_client t j = sv_client s j \<and> ts_phase (sv_storage t) j = ts_phase (sv_storage s) j)"

lemma client_steps: "reaches (client_step ok i) s t \<Longrightarrow> reaches (serving_step ok) s t"
  by (induction rule: reaches.induct) (auto simp: client_step_def intro: reaches.intros)

lemma locked_call:
  assumes q: "quiet s" and client: "sv_client s i = Executing c args (Call x f)"
    and op: "run_op x (ts_object (sv_storage s)) = Some (r, v)"
  shows "\<exists>t. reaches (client_step ok i) s t \<and> quiet t \<and>
    calls_shown t = (calls_shown s)\<lparr>calls_object := v, calls_client := (calls_client (calls_shown s))(i := Executing c args (f r)),
      calls_order := calls_order (calls_shown s) @ decided i c args (f r)\<rparr>"
proof -
  let ?m0 = "sv_storage s"
  let ?m1 = "?m0\<lparr>ts_owner := Some i, ts_phase := (ts_phase ?m0)(i := Holding x)\<rparr>"
  let ?m2 = "?m1\<lparr>ts_phase := (ts_phase ?m1)(i := Working x (ts_object ?m1))\<rparr>"
  let ?m3 = "?m2\<lparr>ts_object := v, ts_phase := (ts_phase ?m2)(i := Leaving r), ts_log := ts_log ?m2 @ [(i, x, r)]\<rparr>"
  let ?m4 = "?m3\<lparr>ts_owner := None, ts_phase := (ts_phase ?m3)(i := Outside)\<rparr>"
  let ?s1 = "s\<lparr>sv_storage := ?m1\<rparr>"
  let ?s2 = "?s1\<lparr>sv_storage := ?m2\<rparr>"
  let ?s3 = "?s2\<lparr>sv_storage := ?m3, sv_order := sv_order ?s2 @ decided i c args (f r)\<rparr>"
  let ?s4 = "?s3\<lparr>sv_storage := ?m4, sv_client := (sv_client ?s3)(i := Executing c args (f r))\<rparr>"
  have "ts_step ?m0 ?m1" using q by (intro ts_step.acquire) (simp_all add: quiet_def)
  then have "serving_step ok s ?s1" using q by (intro enter_call [OF client]) (simp_all add: quiet_def)
  then have 1: "client_step ok i s ?s1" by (simp add: client_step_def)
  have "ts_step ?m1 ?m2" by (rule ts_step.read_object) simp
  then have "serving_step ok ?s1 ?s2" by (intro read_in_call [where i = i and x = x]) simp_all
  then have 2: "client_step ok i ?s1 ?s2" by (simp add: client_step_def)
  have "ts_step ?m2 ?m3" using op by (intro ts_step.write_object [where v = "ts_object ?m0"]) simp_all
  then have "serving_step ok ?s2 ?s3" using client by (intro write_in_call [where i = i and x = x and t = ?m3 and r = r and f = f]) simp_all
  then have 3: "client_step ok i ?s2 ?s3" by (simp add: client_step_def)
  have "ts_step ?m3 ?m4" by (rule ts_step.release [where r = r]) simp
  then have "serving_step ok ?s3 ?s4" using client by (intro return_call [where i = i and x = x and t = ?m4 and r = r and f = f]) simp_all
  then have 4: "client_step ok i ?s3 ?s4" by (simp add: client_step_def)
  have "reaches (client_step ok i) s ?s4"
    by (rule reaches_step, rule reaches_step, rule reaches_step, rule reaches_one) (rule 1, rule 2, rule 3, rule 4)
  moreover have "quiet ?s4" "calls_shown ?s4 = (calls_shown s)\<lparr>calls_object := v,
      calls_client := (calls_client (calls_shown s))(i := Executing c args (f r)),
      calls_order := calls_order (calls_shown s) @ decided i c args (f r)\<rparr>"
    using q client by (auto simp: quiet_def calls_shown_def fun_eq_iff)
  ultimately show ?thesis by blast
qed

lemma calls_step_performed:
  assumes "calls_step ok a b" "quiet s" "calls_shown s = a"
  shows "\<exists>t. reaches (serving_step ok) s t \<and> quiet t \<and> calls_shown t = b"
  using assms(1)
proof cases
  case (calls_begin i c args)
  let ?t = "s\<lparr>sv_client := (sv_client s)(i := Executing c args (command_program c args)),
      sv_order := sv_order s @ decided i c args (command_program c args)\<rparr>"
  have "sv_client s i = NoCommand" using calls_begin(2) assms(2,3) quiet_shown by auto
  from reaches_one [where step = "serving_step ok", OF begin_command [where ok = ok, OF this calls_begin(3)]]
  have "reaches (serving_step ok) s ?t" .
  moreover have "quiet ?t" "calls_shown ?t = b"
    using assms(2,3) calls_begin(1) by (auto simp: quiet_def calls_shown_def fun_eq_iff)
  ultimately show ?thesis by blast
next
  case (calls_call i c args x f r v)
  then have "sv_client s i = Executing c args (Call x f)" "run_op x (ts_object (sv_storage s)) = Some (r, v)"
    using assms(2,3) quiet_shown by (auto simp: calls_shown_def)
  from locked_call [OF assms(2) this, of ok] calls_call(1) assms(3) client_steps [of ok] show ?thesis by auto
next
  case (calls_answer i c args out)
  let ?t = "s\<lparr>sv_client := (sv_client s)(i := NoCommand), sv_replies := sv_replies s @ [(i, c, args, out)]\<rparr>"
  have "sv_client s i = Executing c args (Reply out)" using calls_answer(2) assms(2,3) quiet_shown by auto
  from reaches_one [where step = "serving_step ok", OF answer_command [where ok = ok, OF this]]
  have "reaches (serving_step ok) s ?t" .
  moreover have "quiet ?t" "calls_shown ?t = b"
    using assms(2,3) calls_answer(1) by (auto simp: quiet_def calls_shown_def fun_eq_iff)
  ultimately show ?thesis by blast
qed

lemma serving_start_shown [simp]: "calls_shown (serving_start s0) = calls_start s0" "quiet (serving_start s0)"
  by (simp_all add: calls_shown_def serving_start_def calls_start_def ts_start_def quiet_def)

lemma serving_start_inv: "serving_inv s0 (serving_start s0)"
  by (simp add: serving_inv_def serving_start_def ts_inv_def ts_start_def)

lemma calls_performed:
  "reaches (calls_step ok) (calls_start s0) a \<Longrightarrow> \<exists>s. serving_reachable ok s0 s \<and> quiet s \<and> calls_shown s = a"
proof (induction "calls_start s0" a rule: reaches.induct)
  case reaches_refl
  show ?case by (intro exI [of _ "serving_start s0"]) (simp add: reaches.reaches_refl)
next
  case (reaches_step a b)
  then obtain s where s: "serving_reachable ok s0 s" "quiet s" "calls_shown s = a" by blast
  from calls_step_performed [OF reaches_step.hyps(3) s(2,3)] show ?case by (blast intro: reaches_trans [OF s(1)])
qed


section \<open>Commands of one call\<close>

fun single_call :: "command \<Rightarrow> bool" where
  "single_call (SetCmd _ _ _) \<longleftrightarrow> True"
| "single_call (AddCmd _ _ _) \<longleftrightarrow> True"
| "single_call (AppendCmd _ _ _) \<longleftrightarrow> False"
| "single_call (ReplaceCmd _ _ _) \<longleftrightarrow> False"
| "single_call (GetCmd keys) \<longleftrightarrow> length keys \<le> 1"
| "single_call StatsCmd \<longleftrightarrow> True"

lemma single_call_cases:
  assumes "single_call c"
  obtains out where "command_program c args = Reply out"
  | x g where "command_program c args = Call x (\<lambda>r. Reply (g r))"
proof (cases c)
  case (GetCmd keys)
  show ?thesis
  proof (cases keys)
    case Nil
    then show ?thesis using that(1) GetCmd by simp
  next
    case (Cons key rest)
    with assms GetCmd have "command_program c args = Call (OpGet key)
      (\<lambda>r. Reply (case r of Found (Some v) \<Rightarrow> value_item key v @ ''END'' | _ \<Rightarrow> ''END''))"
      by (auto simp: fun_eq_iff split: op_result.split option.split)
    then show ?thesis by (rule that(2))
  qed
qed (use assms that in auto)

lemma run_commands_snoc:
  "run_commands st cs s = Some (outs, s') \<Longrightarrow> execute st c args s' = Some (out, s'') \<Longrightarrow>
    run_commands st (cs @ [(c, args)]) s = Some (outs @ [out], s'')"
proof (induction cs arbitrary: s outs)
  case (Cons cmd cs)
  obtain d dargs where cmd: "cmd = (d, dargs)" by (cases cmd)
  with Cons.prems(1) obtain o1 s1 os where "execute st d dargs s = Some (o1, s1)"
    "run_commands st cs s1 = Some (os, s')" "outs = o1 # os"
    by (auto split: Option.bind_splits)
  with Cons.IH [of s1 os] Cons.prems(2) cmd show ?case by simp
qed simp

definition sent :: "answer \<Rightarrow> command \<times> string" where
  "sent a = (case a of (i, c, args, out) \<Rightarrow> (c, args))"

definition replied :: "answer \<Rightarrow> string" where
  "replied a = (case a of (i, c, args, out) \<Rightarrow> out)"

definition answers_of :: "nat \<Rightarrow> answer list \<Rightarrow> answer list" where
  "answers_of i as = filter (\<lambda>a. fst a = i) as"

text \<open>What a client has decided but not yet answered.\<close>

fun undelivered :: "nat \<Rightarrow> client \<Rightarrow> answer list" where
  "undelivered i NoCommand = []"
| "undelivered i (Executing c args p) = decided i c args p"

fun undecided_from_start :: "client \<Rightarrow> bool" where
  "undecided_from_start (Executing c args (Call x f)) \<longleftrightarrow> single_call c \<and> command_program c args = Call x f"
| "undecided_from_start _ \<longleftrightarrow> True"

definition calls_inv :: "simple_lru \<Rightarrow> calls_sys \<Rightarrow> bool" where
  "calls_inv s0 s \<longleftrightarrow>
     run_commands simple_lru_ops (map sent (calls_order s)) s0 = Some (map replied (calls_order s), calls_object s) \<and>
     (\<forall>i. answers_of i (calls_order s) = answers_of i (calls_replies s) @ undelivered i (calls_client s i)) \<and>
     (\<forall>i. undecided_from_start (calls_client s i))"

lemma calls_inv_start: "calls_inv s0 (calls_start s0)"
  by (simp add: calls_inv_def calls_start_def answers_of_def)

lemma answers_of_append: "answers_of i (as @ bs) = answers_of i as @ answers_of i bs"
  by (simp add: answers_of_def)

lemma answers_of_decided: "answers_of j (decided i c args p) = (if i = j then decided i c args p else [])"
  by (cases p) (simp_all add: answers_of_def)

lemma undelivered_length: "length (undelivered i cl) \<le> 1"
proof (cases cl)
  case (Executing c args p)
  then show ?thesis by (cases p) simp_all
qed simp

lemma calls_step_inv: "calls_step single_call s t \<Longrightarrow> calls_inv s0 s \<Longrightarrow> calls_inv s0 t"
proof (induction rule: calls_step.induct)
  case (calls_begin s i c args)
  show ?case using calls_begin.hyps(2)
  proof (cases rule: single_call_cases [where args = args])
    case (1 out)
    then have "execute simple_lru_ops c args (calls_object s) = Some (out, calls_object s)"
      using run_command_program [of c args "calls_object s"] by simp
    with 1 calls_begin show ?thesis
      by (auto simp: calls_inv_def answers_of_append answers_of_def sent_def replied_def intro: run_commands_snoc)
  next
    case (2 x g)
    with calls_begin show ?thesis by (auto simp: calls_inv_def)
  qed
next
  case (calls_call s i c args x f r v)
  then have c: "single_call c" "command_program c args = Call x f"
    by (metis calls_inv_def undecided_from_start.simps(1))+
  obtain out where f: "f r = Reply out" using c(1) c(2)
    by (cases rule: single_call_cases [where args = args]) auto
  have "execute simple_lru_ops c args (calls_object s) = Some (out, v)"
    using run_command_program [of c args "calls_object s"] c(2) calls_call.hyps(2) f by simp
  moreover have "answers_of i (calls_order s) = answers_of i (calls_replies s)"
    using calls_call by (auto simp: calls_inv_def)
  ultimately show ?case using calls_call f
    by (auto simp: calls_inv_def answers_of_append answers_of_def sent_def replied_def intro: run_commands_snoc)
next
  case (calls_answer s i c args out)
  then have "answers_of i (calls_order s) = answers_of i (calls_replies s) @ [(i, c, args, out)]"
    by (auto simp: calls_inv_def)
  with calls_answer show ?case by (auto simp: calls_inv_def answers_of_append answers_of_def)
qed

interpretation single_calls: step_invariant "calls_step single_call" "calls_inv s0" for s0
  by unfold_locales (rule calls_step_inv)


section \<open>Two appends\<close>

lemma get_call:
  assumes "lru_invar s"
  obtains s' where "run_op (OpGet k) s = Some (Found (lru_look s k), s')" "lru_invar s'" "lru_look s' = lru_look s"
    "lru_capacity s' = lru_capacity s"
proof -
  from lru.get [OF assms, of k] obtain s' where
    g: "st_get simple_lru_ops k s = Some (lru_look s k, s')" "lru_invar s'" "lru_look s' = lru_look s" by blast
  from lru.get_capacity [OF assms g(1)] g show ?thesis by (intro that [of s']) (simp_all add: simple_lru_ops_def)
qed

lemma put_call:
  assumes "lru_invar s" "lru_look s k = Some old" "length old \<le> length v" "entry_size k v \<le> lru_capacity s"
  obtains s' where "run_op (OpPut k v) s = Some (Stored True, s')" "lru_invar s'" "lru_look s' k = Some v"
    "lru_capacity s' = lru_capacity s"
proof -
  have ok: "lru_accepts k v s" using assms by (auto simp: lru_accepts_def lru_capacity_def intro: in_size_t_le [OF in_size_t_unat])
  from lru.put_fitting [OF assms(1) ok assms(4)] obtain s' where
    p: "st_put simple_lru_ops k v s = Some (True, s')" "lru_invar s'" "lru_look s' k = Some v" .
  from lru.put_fits [OF assms(1) ok p(1)] p show ?thesis by (intro that [of s']) (simp_all add: simple_lru_ops_def)
qed

lemma put_shorter:
  assumes "lru_invar s" "lru_look s k = Some old" "length v < length old" "lru_capacity s < 2 ^ 63"
  shows "run_op (OpPut k v) s = None"
proof -
  from assms(1) obtain xs where xs: "represents s xs" by (auto simp: lru_invar_def)
  with shrink_undefined [OF xs _ assms(3)] assms(2,4) show ?thesis by (simp add: lru_look_represents lru_capacity_def)
qed

lemma append_run:
  assumes "lru_invar s" "lru_look s k = Some v" "entry_size k (v @ data) \<le> lru_capacity s"
  obtains s' where "execute simple_lru_ops (AppendCmd k fl ex) data s = Some (''STORED'', s')" "lru_invar s'"
    "lru_look s' k = Some (v @ data)" "lru_capacity s' = lru_capacity s"
proof -
  from get_call [OF assms(1), of k] obtain s1 where
    g: "run_op (OpGet k) s = Some (Found (Some v), s1)" "lru_invar s1" "lru_look s1 k = Some v" "lru_capacity s1 = lru_capacity s"
    using assms(2) by metis
  from put_call [OF g(2,3), of "v @ data"] g(4) assms(3) obtain s2 where
    p: "run_op (OpPut k (v @ data)) s1 = Some (Stored True, s2)" "lru_invar s2" "lru_look s2 k = Some (v @ data)"
      "lru_capacity s2 = lru_capacity s1" by auto
  from g(1) p(1) have "run_program (command_program (AppendCmd k fl ex) data) s = Some (''STORED'', s2)"
    by (simp del: run_op.simps)
  with p g(4) run_command_program [of "AppendCmd k fl ex" data s] show ?thesis by (intro that [of s2]) simp_all
qed

lemma calls_call_to:
  assumes "calls_client s i = Executing c args (Call x f)" "run_op x (calls_object s) = Some (r, v)"
    "t = s\<lparr>calls_object := v, calls_client := (calls_client s)(i := Executing c args (f r)),
      calls_order := calls_order s @ decided i c args (f r)\<rparr>"
  shows "calls_step ok s t"
  unfolding assms(3) using assms(1,2) by (rule calls_call)

text \<open>What is left of an \<open>append\<close> that has read \<open>v\<close>.\<close>

abbreviation about_to_put :: "command \<Rightarrow> string \<Rightarrow> string \<Rightarrow> string \<Rightarrow> client" where
  "about_to_put c data k v \<equiv> Executing c data (Call (OpPut k (v @ data)) (\<lambda>_. Reply ''STORED''))"

lemma both_read:
  assumes "lru_invar s0" "lru_look s0 k = Some v" and c: "c = AppendCmd k fl ex"
  obtains s where "lru_invar s" "lru_look s = lru_look s0" "lru_capacity s = lru_capacity s0"
    "reaches (calls_step (\<lambda>_. True)) (calls_start s0)
       \<lparr>calls_object = s, calls_client = (\<lambda>_. NoCommand)(0 := about_to_put c a k v, 1 := about_to_put c b k v),
        calls_order = [], calls_replies = []\<rparr>"
proof -
  let ?step = "calls_step (\<lambda>_. True)"
  let ?p = "\<lambda>data. Executing c data (command_program c data)"
  let ?st = "\<lambda>s cl. \<lparr>calls_object = s, calls_client = cl, calls_order = [], calls_replies = []\<rparr>"
  let ?f = "\<lambda>data r. case r of Found (Some v) \<Rightarrow> Call (OpPut k (v @ data)) (\<lambda>_. Reply ''STORED'') | _ \<Rightarrow> Reply ''NOT_STORED''"
  let ?cl1 = "(\<lambda>_. NoCommand)(0 := ?p a)"
  let ?cl2 = "?cl1(1 := ?p b)"
  let ?cl3 = "(\<lambda>_. NoCommand)(0 := about_to_put c a k v, 1 := ?p b)"
  let ?cl4 = "(\<lambda>_. NoCommand)(0 := about_to_put c a k v, 1 := about_to_put c b k v)"
  from get_call [OF assms(1), of k] obtain s1 where
    g1: "run_op (OpGet k) s0 = Some (Found (Some v), s1)" "lru_invar s1" "lru_look s1 = lru_look s0" "lru_capacity s1 = lru_capacity s0"
    using assms(2) by metis
  from get_call [OF g1(2), of k] obtain s2 where
    g2: "run_op (OpGet k) s1 = Some (Found (Some v), s2)" "lru_invar s2" "lru_look s2 = lru_look s0" "lru_capacity s2 = lru_capacity s0"
    using assms(2) g1(3,4) by metis
  have 1: "?step (calls_start s0) (?st s0 ?cl1)"
    using calls_begin [where s = "calls_start s0" and i = 0 and ok = "\<lambda>_. True" and c = c and args = a]
    by (simp add: calls_start_def c)
  have 2: "?step (?st s0 ?cl1) (?st s0 ?cl2)"
    using calls_begin [where s = "?st s0 ?cl1" and i = 1 and ok = "\<lambda>_. True" and c = c and args = b]
    by (simp add: c)
  have 3: "?step (?st s0 ?cl2) (?st s1 ?cl3)"
    by (rule calls_call_to [where i = 0 and c = c and args = a and x = "OpGet k" and r = "Found (Some v)" and v = s1 and f = "?f a"])
      (use g1(1) in \<open>auto simp: c fun_eq_iff simp del: run_op.simps\<close>)
  have 4: "?step (?st s1 ?cl3) (?st s2 ?cl4)"
    by (rule calls_call_to [where i = 1 and c = c and args = b and x = "OpGet k" and r = "Found (Some v)" and v = s2 and f = "?f b"])
      (use g2(1) in \<open>auto simp: c fun_eq_iff simp del: run_op.simps\<close>)
  have "reaches ?step (calls_start s0) (?st s2 ?cl4)"
    by (rule reaches_step, rule reaches_step, rule reaches_step, rule reaches_one) (rule 1, rule 2, rule 3, rule 4)
  with g2 show ?thesis by (intro that [of s2]) simp_all
qed


text \<open>One of them stores and is answered.\<close>

lemma put_and_answer:
  assumes "cl i = about_to_put c data k v" "lru_invar s" "lru_look s k = Some old"
    "length old \<le> length (v @ data)" "entry_size k (v @ data) \<le> lru_capacity s"
  obtains s' where "lru_invar s'" "lru_look s' k = Some (v @ data)" "lru_capacity s' = lru_capacity s"
    "\<And>ok. reaches (calls_step ok) \<lparr>calls_object = s, calls_client = cl, calls_order = out, calls_replies = out\<rparr>
       \<lparr>calls_object = s', calls_client = cl(i := NoCommand), calls_order = out @ [(i, c, data, ''STORED'')],
        calls_replies = out @ [(i, c, data, ''STORED'')]\<rparr>"
proof -
  let ?done = "Executing c data (Reply ''STORED'')"
  from put_call [OF assms(2-5)] obtain s' where
    p: "run_op (OpPut k (v @ data)) s = Some (Stored True, s')" "lru_invar s'" "lru_look s' k = Some (v @ data)"
      "lru_capacity s' = lru_capacity s" .
  let ?s0 = "\<lparr>calls_object = s, calls_client = cl, calls_order = out, calls_replies = out\<rparr>"
  let ?s1 = "\<lparr>calls_object = s', calls_client = cl(i := ?done), calls_order = out @ [(i, c, data, ''STORED'')], calls_replies = out\<rparr>"
  let ?s2 = "\<lparr>calls_object = s', calls_client = cl(i := NoCommand), calls_order = out @ [(i, c, data, ''STORED'')],
    calls_replies = out @ [(i, c, data, ''STORED'')]\<rparr>"
  have 1: "calls_step ok ?s0 ?s1" for ok
    by (rule calls_call_to [where i = i and c = c and args = data and x = "OpPut k (v @ data)" and r = "Stored True" and v = s'
          and f = "\<lambda>_. Reply ''STORED''"])
      (use p(1) assms(1) in \<open>simp_all del: run_op.simps\<close>)
  have 2: "calls_step ok ?s1 ?s2" for ok
    using calls_answer [where s = ?s1 and i = i and c = c and args = data and out = "''STORED''" and ok = ok] by simp
  have "reaches (calls_step ok) ?s0 ?s2" for ok
    by (rule reaches_step, rule reaches_one) (rule 1, rule 2)
  with p show ?thesis by (intro that [of s']) simp_all
qed

lemma overlapping_appends:
  assumes "lru_invar s0" "lru_look s0 k = Some v" "entry_size k (v @ a @ b) \<le> lru_capacity s0" "lru_capacity s0 < 2 ^ 63"
  shows "\<exists>s. serving_reachable (\<lambda>_. True) s0 s \<and> quiet s \<and>
      (if length a \<le> length b
       then sv_replies s = [(0, AppendCmd k fl ex, a, ''STORED''), (1, AppendCmd k fl ex, b, ''STORED'')] \<and>
         lru_look (ts_object (sv_storage s)) k = Some (v @ b)
       else sv_replies s = [(0, AppendCmd k fl ex, a, ''STORED'')] \<and>
         sv_client s 1 = about_to_put (AppendCmd k fl ex) b k v \<and>
         run_op (OpPut k (v @ b)) (ts_object (sv_storage s)) = None)"
proof -
  let ?c = "AppendCmd k fl ex" and ?step = "calls_step (\<lambda>_. True)"
  let ?cl = "(\<lambda>_ :: nat. NoCommand)(0 := about_to_put ?c a k v, 1 := about_to_put ?c b k v)"
  from both_read [OF assms(1,2) refl] obtain s where
    s: "lru_invar s" "lru_look s = lru_look s0" "lru_capacity s = lru_capacity s0"
      "reaches ?step (calls_start s0) \<lparr>calls_object = s, calls_client = ?cl, calls_order = [], calls_replies = []\<rparr>" .
  have a: "?cl 0 = about_to_put ?c a k v" "lru_look s k = Some v" "length v \<le> length (v @ a)"
    "entry_size k (v @ a) \<le> lru_capacity s"
    using s(2,3) assms(2,3) by (simp_all add: entry_size_def)
  from put_and_answer [where out = "[]" and cl = ?cl and i = 0 and c = ?c and data = a and v = v, OF a(1) s(1) a(2-4)] obtain s1 where
    s1: "lru_invar s1" "lru_look s1 k = Some (v @ a)" "lru_capacity s1 = lru_capacity s"
    and run1: "\<And>ok. reaches (calls_step ok) \<lparr>calls_object = s, calls_client = ?cl, calls_order = [], calls_replies = []\<rparr>
       \<lparr>calls_object = s1, calls_client = ?cl(0 := NoCommand), calls_order = [] @ [(0, ?c, a, ''STORED'')],
        calls_replies = [] @ [(0, ?c, a, ''STORED'')]\<rparr>" by metis
  note reach1 = reaches_trans [OF s(4) run1]
  have b: "(?cl(0 := NoCommand)) 1 = about_to_put ?c b k v" by simp
  show ?thesis
  proof (cases "length a \<le> length b")
    case True
    then have fits: "length (v @ a) \<le> length (v @ b)" "entry_size k (v @ b) \<le> lru_capacity s1"
      using s(3) s1(3) assms(3) by (simp_all add: entry_size_def)
    from put_and_answer [where out = "[] @ [(0, ?c, a, ''STORED'')]" and cl = "?cl(0 := NoCommand)" and i = 1 and c = ?c and
        data = b and v = v, OF b s1(1,2) fits] obtain s2 where
      s2: "lru_look s2 k = Some (v @ b)" and
      run2: "\<And>ok. reaches (calls_step ok)
       \<lparr>calls_object = s1, calls_client = ?cl(0 := NoCommand), calls_order = [] @ [(0, ?c, a, ''STORED'')],
        calls_replies = [] @ [(0, ?c, a, ''STORED'')]\<rparr>
       \<lparr>calls_object = s2, calls_client = ?cl(0 := NoCommand, 1 := NoCommand),
        calls_order = ([] @ [(0, ?c, a, ''STORED'')]) @ [(1, ?c, b, ''STORED'')],
        calls_replies = ([] @ [(0, ?c, a, ''STORED'')]) @ [(1, ?c, b, ''STORED'')]\<rparr>" by metis
    from calls_performed [OF reaches_trans [OF reach1 run2]] s2 True show ?thesis
      by (auto simp: calls_shown_def)
  next
    case False
    then have "run_op (OpPut k (v @ b)) s1 = None"
      using put_shorter [OF s1(1,2), of "v @ b"] s(3) s1(3) assms(4) by simp
    with calls_performed [OF reach1] False show ?thesis
      by (auto simp: calls_shown_def quiet_def fun_eq_iff simp del: run_op.simps)
  qed
qed

lemma order_grows: "reaches (serving_step ok) s t \<Longrightarrow> \<exists>later. sv_order t = sv_order s @ later"
proof (induction rule: reaches.induct)
  case (reaches_step s t u)
  from reaches_step.hyps(2) have "\<exists>more. sv_order u = sv_order t @ more" by cases auto
  with reaches_step.IH reaches_step.prems show ?case by auto
qed simp

section \<open>Properties\<close>

text \<open>
  C18. The threads of a server that work on one \<open>ThreadSafeSimplLRU\<close> behave as if each storage call
  were a single step: what can be seen of a reachable state of the system with the lock, the object,
  the progress of the clients and the answers, are exactly the reachable states of the system of
  whole calls.
\<close>

theorem locked_calls_atomic:
  "{a. \<exists>s. serving_reachable ok s0 s \<and> calls_shown s = a} = {a. reaches (calls_step ok) (calls_start s0) a}"
proof (intro set_eqI iffI; unfold mem_Collect_eq)
  fix a assume "\<exists>s. serving_reachable ok s0 s \<and> calls_shown s = a"
  then obtain s where s: "serving_reachable ok s0 s" "calls_shown s = a" by blast
  from serving.run_simulated [OF s(1) serving_start_inv] s(2) show "reaches (calls_step ok) (calls_start s0) a" by simp
next
  fix a assume "reaches (calls_step ok) (calls_start s0) a"
  from calls_performed [OF this] show "\<exists>s. serving_reachable ok s0 s \<and> calls_shown s = a" by blast
qed

text \<open>
  Clients that send only \<open>set\<close>, \<open>add\<close>, \<open>get\<close> of one key and \<open>stats\<close> to a multi-threaded server
  see a linearizable store: in every reachable state the decided commands, executed one after another by
  one thread, give the same answers and leave the same object; every client has got its answers in that
  order, all but at most the last one; and later commands only come after those decided before.
\<close>

theorem single_calls_linearizable:
  assumes "serving_reachable single_call s0 s" "reaches (serving_step single_call) s t"
  shows "run_commands simple_lru_ops (map sent (sv_order t)) s0 = Some (map replied (sv_order t), ts_object (sv_storage t)) \<and>
    (\<forall>i. \<exists>open. answers_of i (sv_order t) = answers_of i (sv_replies t) @ open \<and> length open \<le> 1) \<and>
    (\<exists>later. sv_order t = sv_order s @ later)"
proof (intro conjI allI)
  from reaches_trans [OF assms] have "serving_reachable single_call s0 t" .
  from serving.run_simulated [OF this serving_start_inv] have "reaches (calls_step single_call) (calls_start s0) (calls_shown t)"
    by simp
  from single_calls.along [OF this calls_inv_start] have inv: "calls_inv s0 (calls_shown t)" .
  then show "run_commands simple_lru_ops (map sent (sv_order t)) s0 = Some (map replied (sv_order t), ts_object (sv_storage t))"
    by (simp add: calls_inv_def calls_shown_def)
  fix i
  from inv undelivered_length show "\<exists>open. answers_of i (sv_order t) = answers_of i (sv_replies t) @ open \<and> length open \<le> 1"
    by (auto simp: calls_inv_def calls_shown_def)
next
  show "\<exists>later. sv_order t = sv_order s @ later" by (rule order_grows [OF assms(2)])
qed

lemma single_calls_linearizable_witness:
  "\<exists>s0 t. serving_reachable single_call s0 t \<and> sv_order t = [(0, SetCmd ''a'' 0 0, ''yy'', ''STORED'')] \<and>
    run_commands simple_lru_ops [(SetCmd ''a'' 0 0, ''yy'')] s0 = Some ([''STORED''], ts_object (sv_storage t))"
proof -
  let ?c = "SetCmd ''a'' 0 0" and ?cl = "(\<lambda>_ :: nat. NoCommand)(0 := about_to_put (SetCmd ''a'' 0 0) ''yy'' ''a'' [])"
  from one_association obtain s0 where s0: "lru_invar s0" "lru_look s0 ''a'' = Some ''xx''" "lru_capacity s0 = 8" by auto
  have b: "calls_step single_call (calls_start s0)
    \<lparr>calls_object = s0, calls_client = ?cl, calls_order = [], calls_replies = []\<rparr>"
    using calls_begin [where s = "calls_start s0" and i = 0 and c = ?c and args = "''yy''" and ok = single_call]
    by (simp add: calls_start_def)
  have "?cl 0 = about_to_put ?c ''yy'' ''a'' []" "length ''xx'' \<le> length ([] @ ''yy'')"
    "entry_size ''a'' ([] @ ''yy'') \<le> lru_capacity s0" using s0(3) by (simp_all add: entry_size_def)
  from put_and_answer [where out = "[]" and cl = ?cl and i = 0 and c = ?c and data = "''yy''" and v = "[]",
      OF this(1) s0(1,2) this(2,3)] obtain s1 where
    r: "reaches (calls_step single_call) \<lparr>calls_object = s0, calls_client = ?cl, calls_order = [], calls_replies = []\<rparr>
      \<lparr>calls_object = s1, calls_client = ?cl(0 := NoCommand), calls_order = [] @ [(0, ?c, ''yy'', ''STORED'')],
        calls_replies = [] @ [(0, ?c, ''yy'', ''STORED'')]\<rparr>" by metis
  from calls_performed [OF reaches_trans [OF reaches_one [where step = "calls_step single_call", OF b] r]]
  obtain t where t: "serving_reachable single_call s0 t" "sv_order t = [(0, ?c, ''yy'', ''STORED'')]"
    by (auto simp: calls_shown_def)
  from single_calls_linearizable [OF reaches_refl t(1)] t show ?thesis
    by (intro exI [of _ s0] exI [of _ t]) (simp add: sent_def replied_def del: run_commands.simps)
qed

text \<open>
  C17. \<open>append\<close> is not atomic, although every call of the storage is: executed one after another two
  appends to a present key both take effect, but two clients of a multi-threaded server that append at
  the same time can both be answered \<open>STORED\<close> with only one of the texts in the value; and if the text
  stored last is shorter than the other one, the storage call never returns in a defined way.
\<close>

theorem concurrent_appends:
  assumes "lru_invar s0" "lru_look s0 k = Some v" "entry_size k (v @ a @ b) \<le> lru_capacity s0" "lru_capacity s0 < 2 ^ 63"
  shows "(\<exists>s. run_commands simple_lru_ops [(AppendCmd k fl ex, a), (AppendCmd k fl ex, b)] s0 = Some ([''STORED'', ''STORED''], s) \<and>
      lru_look s k = Some (v @ a @ b)) \<and>
    (\<exists>s. serving_reachable (\<lambda>_. True) s0 s \<and> quiet s \<and>
      (if length a \<le> length b
       then sv_replies s = [(0, AppendCmd k fl ex, a, ''STORED''), (1, AppendCmd k fl ex, b, ''STORED'')] \<and>
         lru_look (ts_object (sv_storage s)) k = Some (v @ b)
       else sv_replies s = [(0, AppendCmd k fl ex, a, ''STORED'')] \<and>
         sv_client s 1 = about_to_put (AppendCmd k fl ex) b k v \<and>
         run_op (OpPut k (v @ b)) (ts_object (sv_storage s)) = None))"
proof (intro conjI)
  from assms(3) have "entry_size k (v @ a) \<le> lru_capacity s0" by (simp add: entry_size_def)
  from append_run [OF assms(1,2) this] obtain s1 where
    1: "execute simple_lru_ops (AppendCmd k fl ex) a s0 = Some (''STORED'', s1)" "lru_invar s1" "lru_look s1 k = Some (v @ a)"
      "lru_capacity s1 = lru_capacity s0" .
  from assms(3) 1(4) have "entry_size k ((v @ a) @ b) \<le> lru_capacity s1" by simp
  from append_run [OF 1(2,3) this] obtain s2 where
    "execute simple_lru_ops (AppendCmd k fl ex) b s1 = Some (''STORED'', s2)" "lru_look s2 k = Some ((v @ a) @ b)" .
  with 1(1) show "\<exists>s. run_commands simple_lru_ops [(AppendCmd k fl ex, a), (AppendCmd k fl ex, b)] s0 = Some ([''STORED'', ''STORED''], s) \<and>
      lru_look s k = Some (v @ a @ b)" by (intro exI [of _ s2]) (simp del: execute.simps)
next
  from overlapping_appends [OF assms] show "\<exists>s. serving_reachable (\<lambda>_. True) s0 s \<and> quiet s \<and>
      (if length a \<le> length b
       then sv_replies s = [(0, AppendCmd k fl ex, a, ''STORED''), (1, AppendCmd k fl ex, b, ''STORED'')] \<and>
         lru_look (ts_object (sv_storage s)) k = Some (v @ b)
       else sv_replies s = [(0, AppendCmd k fl ex, a, ''STORED'')] \<and>
         sv_client s 1 = about_to_put (AppendCmd k fl ex) b k v \<and>
         run_op (OpPut k (v @ b)) (ts_object (sv_storage s)) = None)" .
qed


lemma concurrent_appends_witness:
  "\<exists>s0 s. lru_look s0 ''a'' = Some ''xx'' \<and> serving_reachable (\<lambda>_. True) s0 s \<and>
    sv_replies s = [(0, AppendCmd ''a'' 0 0, ''y'', ''STORED''), (1, AppendCmd ''a'' 0 0, ''z'', ''STORED'')] \<and>
    lru_look (ts_object (sv_storage s)) ''a'' = Some ''xxz''"
proof -
  from one_association obtain s0 where s0: "lru_invar s0" "lru_look s0 ''a'' = Some ''xx''" "lru_capacity s0 = 8" by auto
  have "entry_size ''a'' (''xx'' @ ''y'' @ ''z'') \<le> lru_capacity s0" "lru_capacity s0 < 2 ^ 63"
    using s0(3) by (simp_all add: entry_size_def)
  from concurrent_appends [OF s0(1,2) this, of 0 0] s0(2) show ?thesis by auto
qed

end
