(* ===== verification/Concurrent_Connections.thy ===== *)
theory Concurrent_Connections
  imports Requests Concurrent_Commands "HOL-Library.Sublist"
begin

text \<open>
  The threads of the multi-threaded blocking server, each with the loop of
  \<open>MTblocking::ProcessConnection\<close> over its connection, on one \<open>ThreadSafeSimplLRU\<close>: reads, iterations of
  the loop, the steps of the storage, sends that fail and a call of \<open>Stop\<close> interleave. What the clients get is explained by one
  sequential order of the commands they sent.
\<close>

section \<open>The threads\<close>

text \<open>
  The reads still to come, the bytes of the last one not consumed yet, the locals of the loop, and whether the
  server cut the connection off before it had read and answered everything.
\<close>

record conn_thread =
  ct_reads :: "string list"
  ct_buf :: string
  ct_session :: session
  ct_cut :: bool

record connections =
  cs_serving :: serving
  cs_thread :: "nat \<Rightarrow> conn_thread"
  cs_running :: bool

definition connections_start :: "simple_lru \<Rightarrow> (nat \<Rightarrow> string list) \<Rightarrow> (nat \<Rightarrow> session) \<Rightarrow> connections" where
  "connections_start s0 reads ses = \<lparr>cs_serving = serving_start s0,
     cs_thread = (\<lambda>i. \<lparr>ct_reads = reads i, ct_buf = [], ct_session = ses i, ct_cut = False\<rparr>), cs_running = True\<rparr>"

definition begun :: "nat \<Rightarrow> command \<Rightarrow> string \<Rightarrow> serving \<Rightarrow> serving" where
  "begun i c args s = s\<lparr>sv_client := (sv_client s)(i := Executing c args (command_program c args)),
     sv_order := sv_order s @ decided i c args (command_program c args)\<rparr>"

text \<open>
  A thread whose command executes does nothing else. \<open>Stop\<close> clears the flag that every thread tests after
  a read, unless a command waits for its argument. An exception of the parser ends the
  connection, and so does a \<open>send\<close> that fails. The steps of the storage and the answers are those of \<open>serving_step\<close>
  without commands of its own; \<open>sv_replies\<close> has what was handed to \<open>send\<close>.
\<close>

abbreviation ended :: "session \<Rightarrow> bool \<Rightarrow> conn_thread" where
  "ended se off \<equiv> \<lparr>ct_reads = [], ct_buf = [], ct_session = se, ct_cut = off\<rparr>"

inductive connection_step :: "connections \<Rightarrow> connections \<Rightarrow> bool" where
  receive: "sv_client (cs_serving s) i = NoCommand \<Longrightarrow> cs_thread s i = \<lparr>ct_reads = b # bs, ct_buf = [], ct_session = se, ct_cut = off\<rparr> \<Longrightarrow>
    cs_running s \<or> pending se \<noteq> None \<Longrightarrow>
    connection_step s (s\<lparr>cs_thread := (cs_thread s)(i := \<lparr>ct_reads = bs, ct_buf = b, ct_session = se, ct_cut = off\<rparr>)\<rparr>)"
| stopped: "sv_client (cs_serving s) i = NoCommand \<Longrightarrow> cs_thread s i = \<lparr>ct_reads = b # bs, ct_buf = [], ct_session = se, ct_cut = off\<rparr> \<Longrightarrow>
    \<not> cs_running s \<Longrightarrow> pending se = None \<Longrightarrow>
    connection_step s (s\<lparr>cs_thread := (cs_thread s)(i := ended se True)\<rparr>)"
| parse_on: "sv_client (cs_serving s) i = NoCommand \<Longrightarrow> cs_thread s i = \<lparr>ct_reads = bs, ct_buf = buf, ct_session = se, ct_cut = off\<rparr> \<Longrightarrow>
    buf \<noteq> [] \<Longrightarrow> iteration buf se = Some (Inr buf', se') \<Longrightarrow> ready se' = None \<Longrightarrow>
    connection_step s (s\<lparr>cs_thread := (cs_thread s)(i := \<lparr>ct_reads = bs, ct_buf = buf', ct_session = se', ct_cut = off\<rparr>)\<rparr>)"
| request: "sv_client (cs_serving s) i = NoCommand \<Longrightarrow> cs_thread s i = \<lparr>ct_reads = bs, ct_buf = buf, ct_session = se, ct_cut = off\<rparr> \<Longrightarrow>
    buf \<noteq> [] \<Longrightarrow> iteration buf se = Some (Inr buf', se') \<Longrightarrow> ready se' = Some cmd \<Longrightarrow>
    connection_step s (s\<lparr>cs_serving := begun i cmd (argument se') (cs_serving s),
      cs_thread := (cs_thread s)(i := \<lparr>ct_reads = bs, ct_buf = buf', ct_session = finish se', ct_cut = off\<rparr>)\<rparr>)"
| exception: "sv_client (cs_serving s) i = NoCommand \<Longrightarrow> cs_thread s i = \<lparr>ct_reads = bs, ct_buf = buf, ct_session = se, ct_cut = off\<rparr> \<Longrightarrow>
    buf \<noteq> [] \<Longrightarrow> iteration buf se = Some (Inl e, se') \<Longrightarrow>
    connection_step s (s\<lparr>cs_thread := (cs_thread s)(i := ended se' off)\<rparr>)"
| storage: "serving_step (\<lambda>_. False) (cs_serving s) sv \<Longrightarrow> connection_step s (s\<lparr>cs_serving := sv\<rparr>)"
| send_fails: "sv_client (cs_serving s) i = Executing c args (Reply out) \<Longrightarrow>
    connection_step s (s\<lparr>cs_serving := (cs_serving s)\<lparr>sv_client := (sv_client (cs_serving s))(i := NoCommand),
        sv_replies := sv_replies (cs_serving s) @ [(i, c, args, out)]\<rparr>,
      cs_thread := (cs_thread s)(i := ended (ct_session (cs_thread s i)) True)\<rparr>)"
| stop: "cs_running s \<Longrightarrow> connection_step s (s\<lparr>cs_running := False\<rparr>)"

text \<open>The steps that the thread of connection \<open>i\<close> makes: the others stay where they are.\<close>

definition serving_moves :: "nat \<Rightarrow> serving \<Rightarrow> serving \<Rightarrow> bool" where
  "serving_moves i s t \<longleftrightarrow> serving_step (\<lambda>_. False) s t \<and>
     (\<forall>j. j \<noteq> i \<longrightarrow> sv_client t j = sv_client s j \<and> ts_phase (sv_storage t) j = ts_phase (sv_storage s) j)"

definition connection_moves :: "nat \<Rightarrow> connections \<Rightarrow> connections \<Rightarrow> bool" where
  "connection_moves i s t \<longleftrightarrow> connection_step s t \<and> cs_running t = cs_running s \<and>
     (\<forall>j. j \<noteq> i \<longrightarrow> cs_thread t j = cs_thread s j \<and> sv_client (cs_serving t) j = sv_client (cs_serving s) j \<and>
        ts_phase (sv_storage (cs_serving t)) j = ts_phase (sv_storage (cs_serving s)) j)"

lemma storage_moves: "serving_moves i (cs_serving s) sv \<Longrightarrow> connection_moves i s (s\<lparr>cs_serving := sv\<rparr>)"
  by (simp add: serving_moves_def connection_moves_def storage)

abbreviation connections_reachable :: "simple_lru \<Rightarrow> (nat \<Rightarrow> string list) \<Rightarrow> (nat \<Rightarrow> session) \<Rightarrow> connections \<Rightarrow> bool" where
  "connections_reachable s0 reads ses \<equiv> reaches connection_step (connections_start s0 reads ses)"

definition finished_reading :: "connections \<Rightarrow> nat \<Rightarrow> bool" where
  "finished_reading s i \<longleftrightarrow> \<not> ct_cut (cs_thread s i) \<and> sv_client (cs_serving s) i = NoCommand \<and> ct_reads (cs_thread s i) = [] \<and> ct_buf (cs_thread s i) = []"

section \<open>What has been asked\<close>

fun in_hand :: "client \<Rightarrow> (command \<times> string) list" where
  "in_hand NoCommand = []"
| "in_hand (Executing c args p) = [(c, args)]"

definition asked :: "nat \<Rightarrow> serving \<Rightarrow> (command \<times> string) list" where
  "asked i s = map sent (answers_of i (sv_replies s)) @ in_hand (sv_client s i)"

lemma asked_serving_step: "serving_step (\<lambda>_. False) s t \<Longrightarrow> asked i t = asked i s"
  by (induction rule: serving_step.induct) (auto simp: asked_def answers_of_def sent_def)

interpretation asking: conserved_quantity "serving_step (\<lambda>_. False)" "\<lambda>s i. asked i s"
  by unfold_locales (simp add: asked_serving_step fun_eq_iff)

lemma asked_begun:
  "sv_client s i = NoCommand \<Longrightarrow> asked j (begun i c args s) = asked j s @ (if j = i then [(c, args)] else [])"
  by (simp add: asked_def begun_def)

lemma serving_step_mono: "serving_step (\<lambda>_. False) s t \<Longrightarrow> serving_step ok s t"
  by (induction rule: serving_step.induct) (auto intro: serving_step.intros)

section \<open>The invariant\<close>

definition request_list :: "string \<Rightarrow> session \<Rightarrow> (command \<times> string) list option" where
  "request_list bs se = map_option (\<lambda>(e, rs, se'). rs) (requests bs se)"

lemma request_list_Nil [simp]: "request_list [] se = Some []"
  by (simp add: request_list_def)

lemma request_list_iteration:
  assumes "session_ok se" "buf \<noteq> []"
  shows "iteration buf se = Some (Inl e, se') \<Longrightarrow> request_list (buf @ rest) se = Some []"
    and "iteration buf se = Some (Inr buf', se') \<Longrightarrow> ready se' = None \<Longrightarrow> request_list (buf @ rest) se = request_list (buf' @ rest) se'"
    and "iteration buf se = Some (Inr buf', se') \<Longrightarrow> ready se' = Some cmd \<Longrightarrow>
      request_list (buf @ rest) se = map_option ((#) (cmd, argument se')) (request_list (buf' @ rest) (finish se'))"
  unfolding request_list_def
  by (auto simp: requests_iteration_rest [OF assms] split: Option.bind_split option.split)

text \<open>A thread still has to ask what is left of its commands; after an exception nothing is left.\<close>

definition to_ask :: "conn_thread \<Rightarrow> (command \<times> string) list option" where
  "to_ask t = request_list (ct_buf t @ concat (ct_reads t)) (ct_session t)"

definition thread_ok :: "conn_thread \<Rightarrow> bool" where
  "thread_ok t \<longleftrightarrow> session_ok (ct_session t) \<or> ct_buf t = [] \<and> ct_reads t = []"

definition thread_inv :: "(command \<times> string) list option \<Rightarrow> (command \<times> string) list \<Rightarrow> conn_thread \<Rightarrow> bool" where
  "thread_inv all before t \<longleftrightarrow> thread_ok t \<and>
     (if ct_cut t then ct_reads t = [] \<and> ct_buf t = [] \<and> (\<exists>later. all = Some (before @ later))
      else all = map_option ((@) before) (to_ask t))"

definition connections_inv :: "(command \<Rightarrow> bool) \<Rightarrow> simple_lru \<Rightarrow> (nat \<Rightarrow> (command \<times> string) list option) \<Rightarrow> connections \<Rightarrow> bool" where
  "connections_inv ok s0 all s \<longleftrightarrow> serving_reachable ok s0 (cs_serving s) \<and>
     (\<forall>i. thread_inv (all i) (asked i (cs_serving s)) (cs_thread s i))"

lemma connections_inv_thread:
  assumes "connections_inv ok s0 all s" "thread_inv (all i) (asked i (cs_serving s)) t"
  shows "connections_inv ok s0 all (s\<lparr>cs_thread := (cs_thread s)(i := t)\<rparr>)"
  using assms by (simp add: connections_inv_def)

lemma thread_inv_iterate:
  assumes inv: "thread_inv all before \<lparr>ct_reads = bs, ct_buf = buf, ct_session = se, ct_cut = off\<rparr>" and buf: "buf \<noteq> []"
  shows "iteration buf se = Some (Inl e, se') \<Longrightarrow> thread_inv all before (ended se' off)"
    and "iteration buf se = Some (Inr buf', se') \<Longrightarrow> ready se' = None \<Longrightarrow>
      thread_inv all before \<lparr>ct_reads = bs, ct_buf = buf', ct_session = se', ct_cut = off\<rparr>"
    and "iteration buf se = Some (Inr buf', se') \<Longrightarrow> ready se' = Some cmd \<Longrightarrow>
      thread_inv all (before @ [(cmd, argument se')]) \<lparr>ct_reads = bs, ct_buf = buf', ct_session = finish se', ct_cut = off\<rparr>"
proof -
  from inv buf have ok: "session_ok se" and off: "\<not> off" and all: "all = map_option ((@) before) (request_list (buf @ concat bs) se)"
    by (auto simp: thread_inv_def thread_ok_def to_ask_def split: if_splits)
  note it = request_list_iteration [where rest = "concat bs", OF ok buf]
  show "thread_inv all before (ended se' off)" if "iteration buf se = Some (Inl e, se')"
    unfolding thread_inv_def thread_ok_def to_ask_def all by (simp add: off it(1) [OF that])
  show "thread_inv all before \<lparr>ct_reads = bs, ct_buf = buf', ct_session = se', ct_cut = off\<rparr>"
    if "iteration buf se = Some (Inr buf', se')" "ready se' = None"
    using iteration_ok [OF ok buf that] unfolding thread_inv_def thread_ok_def to_ask_def all by (simp add: off it(2) [OF that])
  show "thread_inv all (before @ [(cmd, argument se')]) \<lparr>ct_reads = bs, ct_buf = buf', ct_session = finish se', ct_cut = off\<rparr>"
    if "iteration buf se = Some (Inr buf', se')" "ready se' = Some cmd"
    unfolding thread_inv_def thread_ok_def to_ask_def all it(3) [OF that]
    by (cases "request_list (buf' @ concat bs) (finish se')") (simp_all add: off)
qed

lemma thread_inv_cut:
  assumes "thread_inv all before t" "\<exists>rs. all = Some rs \<and> P rs"
  shows "thread_inv all before (ended se True)"
  using assms by (auto simp: thread_inv_def thread_ok_def to_ask_def split: if_splits)

lemma connection_step_inv:
  assumes "connection_step s t" "connections_inv ok s0 all s"
    and allowed: "\<And>i. \<exists>rs. all i = Some rs \<and> (\<forall>r \<in> set rs. ok (fst r))"
  shows "connections_inv ok s0 all t"
  using assms(1,2)
proof (induction rule: connection_step.induct)
  case (receive s i b bs se off)
  then have "thread_inv (all i) (asked i (cs_serving s)) \<lparr>ct_reads = b # bs, ct_buf = [], ct_session = se, ct_cut = off\<rparr>"
    by (metis connections_inv_def)
  then have "thread_inv (all i) (asked i (cs_serving s)) \<lparr>ct_reads = bs, ct_buf = b, ct_session = se, ct_cut = off\<rparr>"
    by (auto simp: thread_inv_def thread_ok_def to_ask_def)
  with receive.prems show ?case by (rule connections_inv_thread)
next
  case (parse_on s i bs buf se off buf' se')
  then have "thread_inv (all i) (asked i (cs_serving s)) \<lparr>ct_reads = bs, ct_buf = buf, ct_session = se, ct_cut = off\<rparr>"
    by (metis connections_inv_def)
  from thread_inv_iterate(2) [OF this parse_on.hyps(3-5)] parse_on.prems show ?case by (intro connections_inv_thread)
next
  case (request s i bs buf se off buf' se' cmd)
  then have "thread_inv (all i) (asked i (cs_serving s)) \<lparr>ct_reads = bs, ct_buf = buf, ct_session = se, ct_cut = off\<rparr>"
    by (metis connections_inv_def)
  from thread_inv_iterate(3) [OF this request.hyps(3-5)]
  have ti: "thread_inv (all i) (asked i (cs_serving s) @ [(cmd, argument se')]) \<lparr>ct_reads = bs, ct_buf = buf', ct_session = finish se', ct_cut = off\<rparr>" .
  from allowed [of i] ti have "ok cmd" by (auto simp: thread_inv_def split: if_splits)
  from begin_command [OF request.hyps(1), of ok, OF this] have "serving_step ok (cs_serving s) (begun i cmd (argument se') (cs_serving s))"
    by (simp add: begun_def)
  with request.prems have "serving_reachable ok s0 (begun i cmd (argument se') (cs_serving s))"
    by (auto simp: connections_inv_def intro: reaches_step)
  with ti request.prems show ?case by (auto simp: connections_inv_def asked_begun [OF request.hyps(1)])
next
  case (exception s i bs buf se off e se')
  then have "thread_inv (all i) (asked i (cs_serving s)) \<lparr>ct_reads = bs, ct_buf = buf, ct_session = se, ct_cut = off\<rparr>"
    by (metis connections_inv_def)
  from thread_inv_iterate(1) [OF this exception.hyps(3-4)] exception.prems show ?case by (intro connections_inv_thread)
next
  case (storage s sv)
  from asked_serving_step [OF storage.hyps] serving_step_mono [OF storage.hyps, of ok] storage.prems show ?case
    by (auto simp: connections_inv_def intro: reaches_step)
next
  case (stopped s i b bs se off)
  then have "thread_inv (all i) (asked i (cs_serving s)) \<lparr>ct_reads = b # bs, ct_buf = [], ct_session = se, ct_cut = off\<rparr>"
    by (metis connections_inv_def)
  from thread_inv_cut [OF this allowed] stopped.prems show ?case by (simp add: connections_inv_thread)
next
  case (send_fails s i c args out)
  let ?sv = "(cs_serving s)\<lparr>sv_client := (sv_client (cs_serving s))(i := NoCommand), sv_replies := sv_replies (cs_serving s) @ [(i, c, args, out)]\<rparr>"
  note step = answer_command [OF send_fails.hyps, of "\<lambda>_. False"]
  from asked_serving_step [OF step] serving_step_mono [OF step, of ok] send_fails.prems
  have inv: "connections_inv ok s0 all (s\<lparr>cs_serving := ?sv\<rparr>)"
    by (auto simp: connections_inv_def intro: reaches_step)
  then have "thread_inv (all i) (asked i ?sv) (cs_thread s i)" by (simp add: connections_inv_def)
  from connections_inv_thread [OF inv, of i "ended (ct_session (cs_thread s i)) True"] thread_inv_cut [OF this allowed]
  show ?case by simp
next
  case (stop s)
  then show ?case by (simp add: connections_inv_def)
qed

lemma connections_inv_start:
  "(\<And>i. session_ok (ses i)) \<Longrightarrow> connections_inv ok s0 (\<lambda>i. request_list (concat (reads i)) (ses i)) (connections_start s0 reads ses)"
  unfolding connections_inv_def connections_start_def thread_inv_def thread_ok_def to_ask_def asked_def
  by (auto simp: serving_start_def answers_of_def reaches_refl option.map_id append_Nil [abs_def] id_def [symmetric])


lemma connections_reachable_inv:
  assumes reach: "connections_reachable s0 reads ses s" and ses: "\<And>i. session_ok (ses i)"
    and allowed: "\<And>i. \<exists>rs. request_list (concat (reads i)) (ses i) = Some rs \<and> (\<forall>r \<in> set rs. ok (fst r))"
  shows "connections_inv ok s0 (\<lambda>i. request_list (concat (reads i)) (ses i)) s"
proof -
  let ?inv = "connections_inv ok s0 (\<lambda>i. request_list (concat (reads i)) (ses i))"
  have "?inv t" if "reaches connection_step u t" "?inv u" for t u
    using that by (induction rule: reaches.induct) (auto intro: connection_step_inv [OF _ _ allowed])
  from this [OF reach connections_inv_start [OF ses]] show ?thesis .
qed

section \<open>Properties\<close>

lemma sent_undelivered: "prefix (map sent (undelivered i (gone_on p cl))) (in_hand cl)"
proof (cases cl)
  case (Executing c args q)
  have "map sent (decided i c args q') = [] \<or> map sent (decided i c args q') = [(c, args)]" for q'
    by (cases q') (simp_all add: sent_def)
  moreover obtain q' where "gone_on p cl = Executing c args q'"
    using Executing by (cases q; cases p) auto
  ultimately show ?thesis using Executing by (metis in_hand.simps(2) prefix_order.refl undelivered.simps(2) Nil_prefix)
qed simp

text \<open>The order of decisions explains the object and the answers, but for those not yet delivered.\<close>

lemma serving_explained:
  assumes "serving_reachable single_call s0 sv"
  shows "run_commands simple_lru_ops (map sent (sv_order sv)) s0 = Some (map replied (sv_order sv), ts_object (sv_storage sv))"
    and "answers_of i (sv_order sv) = answers_of i (sv_replies sv) @ undelivered i (gone_on (ts_phase (sv_storage sv) i) (sv_client sv i))"
proof -
  from serving.run_simulated [OF assms serving_start_inv]
  have "reaches (calls_step single_call) (calls_start s0) (calls_shown sv)" by simp
  from single_calls.along [OF this calls_inv_start] have "calls_inv s0 (calls_shown sv)" .
  then show "run_commands simple_lru_ops (map sent (sv_order sv)) s0 = Some (map replied (sv_order sv), ts_object (sv_storage sv))"
    "answers_of i (sv_order sv) = answers_of i (sv_replies sv) @ undelivered i (gone_on (ts_phase (sv_storage sv) i) (sv_client sv i))"
    by (simp_all add: calls_inv_def calls_shown_def)
qed

text \<open>
  C4. Connections served at the same time: whatever the clients send that contains only commands of one
  storage call, however it is cut into reads, however the threads interleave and
  whether or not \<open>Stop\<close> or failed sends cut connections off, there is one order
  of commands that explains everything. Executed one after another in this order the commands give
  the answers that the clients were given and the object that is stored; restricted to one connection the
  order is a beginning of the commands in the bytes of that client, all of them when the connection has
  been read to its end; and every client was answered its commands in this order, where a \<open>send\<close> that failed lost
  the last answer.
\<close>

theorem connections_linearizable:
  assumes "connections_reachable s0 reads ses s" "\<And>i. session_ok (ses i)"
    "\<And>i. \<exists>rs. request_list (concat (reads i)) (ses i) = Some rs \<and> (\<forall>r \<in> set rs. single_call (fst r))"
  shows "\<exists>order.
    run_commands simple_lru_ops (map sent order) s0 = Some (map replied order, ts_object (sv_storage (cs_serving s))) \<and>
    (\<forall>i. \<exists>rs. request_list (concat (reads i)) (ses i) = Some rs \<and> prefix (map sent (answers_of i order)) rs \<and>
       prefix (answers_of i (sv_replies (cs_serving s))) (answers_of i order) \<and>
       (finished_reading s i \<longrightarrow> answers_of i (sv_replies (cs_serving s)) = answers_of i order \<and> map sent (answers_of i order) = rs))"
proof (rule exI [of _ "sv_order (cs_serving s)"], rule conjI [OF _ allI])
  let ?sv = "cs_serving s"
  from connections_reachable_inv [OF assms]
  have inv: "connections_inv single_call s0 (\<lambda>i. request_list (concat (reads i)) (ses i)) s" .
  then have "serving_reachable single_call s0 ?sv" by (simp add: connections_inv_def)
  note explained = serving_explained [OF this]
  from explained(1) show "run_commands simple_lru_ops (map sent (sv_order ?sv)) s0 = Some (map replied (sv_order ?sv), ts_object (sv_storage ?sv))" .
  fix i
  let ?rest = "undelivered i (gone_on (ts_phase (sv_storage ?sv) i) (sv_client ?sv i))"
  from explained(2) have order: "answers_of i (sv_order ?sv) = answers_of i (sv_replies ?sv) @ ?rest" .
  from assms(3) [of i] obtain rs where rs: "request_list (concat (reads i)) (ses i) = Some rs" by blast
  from inv have "thread_inv (request_list (concat (reads i)) (ses i)) (asked i ?sv) (cs_thread s i)" by (simp add: connections_inv_def)
  then have "thread_inv (Some rs) (asked i ?sv) (cs_thread s i)" unfolding rs .
  then obtain later where later: "\<not> ct_cut (cs_thread s i) \<Longrightarrow> to_ask (cs_thread s i) = Some later" "rs = asked i ?sv @ later"
    by (cases "to_ask (cs_thread s i)") (auto simp: thread_inv_def split: if_splits)
  show "\<exists>rs. request_list (concat (reads i)) (ses i) = Some rs \<and> prefix (map sent (answers_of i (sv_order ?sv))) rs \<and>
       prefix (answers_of i (sv_replies ?sv)) (answers_of i (sv_order ?sv)) \<and>
       (finished_reading s i \<longrightarrow> answers_of i (sv_replies ?sv) = answers_of i (sv_order ?sv) \<and>
         map sent (answers_of i (sv_order ?sv)) = rs)"
  proof (intro exI conjI impI)
    show "request_list (concat (reads i)) (ses i) = Some rs" by (rule rs)
    show "prefix (map sent (answers_of i (sv_order ?sv))) rs"
      using sent_undelivered [of i "ts_phase (sv_storage ?sv) i" "sv_client ?sv i"]
      by (simp add: order later(2) asked_def prefix_prefix)
    show "prefix (answers_of i (sv_replies ?sv)) (answers_of i (sv_order ?sv))" by (simp add: order)
    assume "finished_reading s i"
    then have "?rest = []" "later = []" "in_hand (sv_client ?sv i) = []" using later(1)
      by (auto simp: finished_reading_def to_ask_def)
    then show "answers_of i (sv_replies ?sv) = answers_of i (sv_order ?sv)" "map sent (answers_of i (sv_order ?sv)) = rs"
      by (simp_all add: order later(2) asked_def)
  qed
qed


lemma connections_linearizable_witness:
  "\<exists>s order. connections_reachable (SimpleLRU 64) (\<lambda>i. if i = 0 then [''ge'', ''t a'' @ crlf] else []) (\<lambda>_. new_session 0 True) s \<and>
    ct_buf (cs_thread s 0) = ''ge'' \<and>
    run_commands simple_lru_ops (map sent order) (SimpleLRU 64) = Some (map replied order, ts_object (sv_storage (cs_serving s))) \<and>
    prefix (map sent (answers_of 0 order)) [(GetCmd [''a''], [])]"
proof -
  let ?reads = "\<lambda>i :: nat. if i = 0 then [''ge'', ''t a'' @ crlf] else []" and ?ses = "\<lambda>_ :: nat. new_session 0 True"
  let ?s0 = "connections_start (SimpleLRU 64) ?reads ?ses"
  let ?s1 = "?s0\<lparr>cs_thread := (cs_thread ?s0)(0 := \<lparr>ct_reads = [''t a'' @ crlf], ct_buf = ''ge'', ct_session = new_session 0 True, ct_cut = False\<rparr>)\<rparr>"
  have "connection_step ?s0 ?s1"
    by (rule receive) (simp_all add: connections_start_def serving_start_def)
  then have r: "connections_reachable (SimpleLRU 64) ?reads ?ses ?s1" by (rule reaches_one)
  have "request_list (''get a'' @ crlf) (new_session 0 True) = Some [(GetCmd [''a''], [])]" by code_simp
  then have q: "request_list (concat (?reads 0)) (?ses 0) = Some [(GetCmd [''a''], [])]" by simp
  have "\<exists>rs. request_list (concat (?reads i)) (?ses i) = Some rs \<and> (\<forall>r \<in> set rs. single_call (fst r))" for i
    using q by (cases "i = 0") simp_all
  from connections_linearizable [OF r session_ok_new this]
  obtain order where order: "run_commands simple_lru_ops (map sent order) (SimpleLRU 64) =
      Some (map replied order, ts_object (sv_storage (cs_serving ?s1)))"
    and i: "\<forall>i. \<exists>rs. request_list (concat (?reads i)) (?ses i) = Some rs \<and> prefix (map sent (answers_of i order)) rs \<and>
       prefix (answers_of i (sv_replies (cs_serving ?s1))) (answers_of i order) \<and>
       (finished_reading ?s1 i \<longrightarrow> answers_of i (sv_replies (cs_serving ?s1)) = answers_of i order \<and> map sent (answers_of i order) = rs)"
    by (elim exE conjE) (rule that)
  from i obtain rs where "request_list (concat (?reads 0)) (?ses 0) = Some rs" "prefix (map sent (answers_of 0 order)) rs"
    by (elim allE [of _ 0] exE conjE) (rule that)
  with q have "prefix (map sent (answers_of 0 order)) [(GetCmd [''a''], [])]" by (simp only: option.inject)
  with r order show ?thesis by (intro exI [of _ ?s1] exI [of _ order] conjI) simp_all
qed

end
