(* ===== verification/Connections_Progress.thy ===== *)
theory Connections_Progress
  imports Concurrent_Connections
begin

text \<open>
  That the threads of the multi-threaded blocking server come to an end with everybody served: every
  step leaves some thread less to do, and as long as something is left some thread can go on, if the
  storage calls have a defined outcome.
\<close>

section \<open>Calls that are defined\<close>

text \<open>What a command stores, as \<open>append\<close> gets it without the text that is already there.\<close>

fun stored_size :: "command \<Rightarrow> string \<Rightarrow> nat" where
  "stored_size (SetCmd key _ _) args = entry_size key args"
| "stored_size (AddCmd key _ _) args = entry_size key args"
| "stored_size (AppendCmd key _ _) args = entry_size key args"
| "stored_size (ReplaceCmd key _ _) args = entry_size key args"
| "stored_size (GetCmd _) args = 0"
| "stored_size StatsCmd args = 0"

fun storable :: "lru_op \<Rightarrow> bool" where
  "storable (OpPut k v) \<longleftrightarrow> in_size_t (entry_size k v)"
| "storable (OpPutIfAbsent k v) \<longleftrightarrow> in_size_t (entry_size k v)"
| "storable (OpSet k v) \<longleftrightarrow> in_size_t (entry_size k v)"
| "storable (OpDelete k) \<longleftrightarrow> True"
| "storable (OpGet k) \<longleftrightarrow> True"

fun plausible :: "nat \<Rightarrow> lru_op \<Rightarrow> op_result \<Rightarrow> bool" where
  "plausible cap (OpGet k) (Found (Some v)) \<longleftrightarrow> entry_size k v \<le> cap"
| "plausible cap _ _ \<longleftrightarrow> True"

definition healthy :: "nat \<Rightarrow> simple_lru \<Rightarrow> bool" where
  "healthy cap s \<longleftrightarrow> lru_invar s \<and> lru_capacity s = cap \<and> cap < 2 ^ 63"

text \<open>The calls without a defined outcome: \<open>Put\<close> and \<open>Set\<close> of a value shorter than the stored one.\<close>

definition shrinks :: "lru_op \<Rightarrow> simple_lru \<Rightarrow> bool" where
  "shrinks x s \<longleftrightarrow> (\<exists>k v old. (x = OpPut k v \<or> x = OpSet k v) \<and> lru_look s k = Some old \<and> length v < length old)"

lemma shrinking_undefined:
  assumes "healthy cap s" "shrinks x s"
  shows "run_op x s = None"
proof -
  from assms obtain xs where xs: "represents s xs" "unat (max_size s) < 2 ^ 63"
    by (auto simp: healthy_def lru_invar_def lru_capacity_def)
  from assms(2) shrink_undefined [OF xs(1) _ _ xs(2)] show ?thesis
    by (auto simp: shrinks_def lru_look_represents [OF xs(1)])
qed

lemma run_op_healthy:
  assumes "healthy cap s" "storable x" "\<not> shrinks x s"
  obtains r s' where "run_op x s = Some (r, s')" "healthy cap s'" "plausible cap x r"
proof -
  from assms(1) obtain xs where xs: "represents s xs" "unat (max_size s) = cap" "cap < 2 ^ 63"
    by (auto simp: healthy_def lru_invar_def lru_capacity_def)
  note look = lru_look_represents [OF xs(1)]
  have "op_ok cap x xs"
    using assms(2,3) by (cases x) (auto simp: no_shrink_def shrinks_def look not_less split: option.split)
  with run_op_spec [OF xs(1), of x] xs(2) obtain s' where
    s': "run_op x s = Some (fst (spec_op cap x xs), s')" "represents s' (snd (spec_op cap x xs))" "max_size s' = max_size s"
    by (auto simp: completes_def split: prod.splits)
  moreover have "healthy cap s'" using s' xs by (auto simp: healthy_def lru_invar_def lru_capacity_def)
  moreover have "plausible cap x (fst (spec_op cap x xs))"
  proof (cases x)
    case (OpGet k)
    have "entry_size k v \<le> cap" if "map_of xs k = Some v" for v
    proof -
      from map_of_SomeD [OF that] obtain ys zs where "xs = ys @ (k, v) # zs" by (auto dest: split_list)
      with represents_wf [OF xs(1)] xs(2) show ?thesis by (simp add: cache_wf_def)
    qed
    with OpGet show ?thesis by (cases "map_of xs k") (auto simp: cache_get_def)
  qed (simp_all)
  ultimately show ?thesis using that by blast
qed


section \<open>Programs with boundedly many calls\<close>

text \<open>A program that makes at most \<open>n\<close> calls, all storable, as long as the storage answers plausibly.\<close>

fun safe_program :: "nat \<Rightarrow> nat \<Rightarrow> program \<Rightarrow> bool" where
  "safe_program cap n (Reply out) \<longleftrightarrow> True"
| "safe_program cap 0 (Call x f) \<longleftrightarrow> False"
| "safe_program cap (Suc n) (Call x f) \<longleftrightarrow> storable x \<and> (\<forall>r. plausible cap x r \<longrightarrow> safe_program cap n (f r))"

definition safe :: "nat \<Rightarrow> program \<Rightarrow> bool" where
  "safe cap p \<longleftrightarrow> (\<exists>n. safe_program cap n p)"

definition calls_left :: "nat \<Rightarrow> program \<Rightarrow> nat" where
  "calls_left cap p = (LEAST n. safe_program cap n p)"

lemma safe_Reply [simp]: "safe cap (Reply out)"
  by (auto simp: safe_def)

lemma safe_call:
  assumes "safe cap (Call x f)"
  shows "storable x" and "plausible cap x r \<Longrightarrow> safe cap (f r) \<and> calls_left cap (f r) < calls_left cap (Call x f)"
proof -
  from assms have "safe_program cap (calls_left cap (Call x f)) (Call x f)"
    unfolding safe_def calls_left_def by (rule LeastI_ex)
  then obtain n where n: "calls_left cap (Call x f) = Suc n" "safe_program cap (Suc n) (Call x f)"
    by (cases "calls_left cap (Call x f)") auto
  then show "storable x" by simp
  assume "plausible cap x r"
  with n have f: "safe_program cap n (f r)" by simp
  then have "calls_left cap (f r) \<le> n" unfolding calls_left_def by (rule Least_le)
  with f n(1) show "safe cap (f r) \<and> calls_left cap (f r) < calls_left cap (Call x f)" by (auto simp: safe_def)
qed

lemma safe_get_program: "safe_program cap (length keys) (get_program keys out)"
  by (induction keys arbitrary: out) (auto split: op_result.split option.split)

lemma safe_command: "in_size_t (stored_size c args + cap) \<Longrightarrow> safe cap (command_program c args)"
proof (cases c)
  case (AppendCmd k fl ex)
  assume "in_size_t (stored_size c args + cap)"
  then have "in_size_t (entry_size k (v @ args))" if "entry_size k v \<le> cap" for v
    using that AppendCmd by (auto simp: in_size_t_def entry_size_def)
  with AppendCmd have "safe_program cap 2 (command_program c args)"
    by (auto simp: numeral_2_eq_2 split: op_result.split option.split)
  then show ?thesis by (auto simp: safe_def)
next
  case (ReplaceCmd k fl ex)
  assume "in_size_t (stored_size c args + cap)"
  with ReplaceCmd have "safe_program cap 2 (command_program c args)"
    by (auto simp: numeral_2_eq_2 in_size_t_def split: op_result.split option.split)
  then show ?thesis by (auto simp: safe_def)
next
  case (GetCmd keys)
  with safe_get_program show ?thesis by (auto simp: safe_def)
qed (auto simp: safe_def in_size_t_def intro!: exI [of _ 1] simp: One_nat_def)

section \<open>The storage calls of the threads\<close>

fun phase_left :: "ts_phase \<Rightarrow> nat" where
  "phase_left Outside = 4"
| "phase_left (Holding x) = 3"
| "phase_left (Working x v) = 2"
| "phase_left (Leaving r) = 1"

fun client_work :: "nat \<Rightarrow> ts_phase \<Rightarrow> client \<Rightarrow> nat" where
  "client_work cap ph NoCommand = 0"
| "client_work cap ph (Executing c args p) = 4 * calls_left cap p + phase_left ph"

fun client_safe :: "nat \<Rightarrow> ts_phase \<Rightarrow> client \<Rightarrow> bool" where
  "client_safe cap ph NoCommand \<longleftrightarrow> True"
| "client_safe cap ph (Executing c args p) \<longleftrightarrow> safe cap p \<and>
     (\<forall>x f r. p = Call x f \<longrightarrow> ph = Leaving r \<longrightarrow> plausible cap x r)"

abbreviation phase_of :: "serving \<Rightarrow> nat \<Rightarrow> ts_phase" where
  "phase_of s i \<equiv> ts_phase (sv_storage s) i"

definition serving_safe :: "nat \<Rightarrow> serving \<Rightarrow> bool" where
  "serving_safe cap s \<longleftrightarrow> healthy cap (ts_object (sv_storage s)) \<and> (\<forall>i. client_safe cap (phase_of s i) (sv_client s i))"

abbreviation work_of :: "nat \<Rightarrow> serving \<Rightarrow> nat \<Rightarrow> nat" where
  "work_of cap s i \<equiv> client_work cap (phase_of s i) (sv_client s i)"

text \<open>A step of one client leaves it less to do, and the others what they had.\<close>

definition advances :: "nat \<Rightarrow> serving \<Rightarrow> serving \<Rightarrow> bool" where
  "advances cap s t \<longleftrightarrow> serving_safe cap t \<and>
     (\<exists>i. work_of cap t i < work_of cap s i \<and> (\<forall>j. j \<noteq> i \<longrightarrow> work_of cap t j = work_of cap s j))"

lemma advancesI:
  assumes "serving_safe cap s" "healthy cap (ts_object (sv_storage t))" "client_safe cap (phase_of t i) (sv_client t i)"
    "work_of cap t i < work_of cap s i"
    "\<And>j. j \<noteq> i \<Longrightarrow> sv_client t j = sv_client s j \<and> phase_of t j = phase_of s j"
  shows "advances cap s t"
proof -
  have "client_safe cap (phase_of t j) (sv_client t j)" for j
    using assms(1,3) assms(5) [of j] by (cases "j = i") (auto simp: serving_safe_def)
  with assms show ?thesis by (auto simp: advances_def serving_safe_def)
qed

lemma serving_safe_client: "serving_safe cap s \<Longrightarrow> sv_client s i = Executing c args p \<Longrightarrow>
    safe cap p \<and> (\<forall>x f r. p = Call x f \<longrightarrow> phase_of s i = Leaving r \<longrightarrow> plausible cap x r)"
  by (metis client_safe.simps(2) serving_safe_def)

lemma serving_safe_healthy: "serving_safe cap s \<Longrightarrow> healthy cap (ts_object (sv_storage s))"
  by (simp add: serving_safe_def)

lemma serving_step_advances:
  assumes "serving_step (\<lambda>_. False) s t" "serving_inv s0 s" "serving_safe cap s"
  shows "advances cap s t"
  using assms
proof (induction rule: serving_step.induct)
  case (begin_command s i c args)
  then show ?case by simp
next
  case (enter_call s i c args x f t)
  from ts_enter [OF enter_call.hyps(3,2,4)] enter_call.hyps(1,2) serving_safe_client [OF enter_call.prems(2) enter_call.hyps(1)]
    serving_safe_healthy [OF enter_call.prems(2)]
  show ?case by (intro advancesI [OF enter_call.prems(2), of _ i]) auto
next
  case (read_in_call s i x t v)
  note t = ts_read [OF read_in_call.hyps(2,1,3)]
  from serving_invD [OF read_in_call.prems(1), of i] read_in_call.hyps(1) obtain c args f where
    c: "sv_client s i = Executing c args (Call x f)" by (cases "(sv_client s i, Holding x)" rule: calls_next.cases) auto
  from c t serving_safe_client [OF read_in_call.prems(2) c] serving_safe_healthy [OF read_in_call.prems(2)] read_in_call.hyps(1)
  show ?case by (intro advancesI [OF read_in_call.prems(2), of _ i]) auto
next
  case (write_in_call s i c args x f v t r)
  from ts_write [OF write_in_call.hyps(3,2,4)] obtain v' where
    v': "run_op x v = Some (r, v')" and
    t: "t = (sv_storage s)\<lparr>ts_object := v', ts_phase := (ts_phase (sv_storage s))(i := Leaving r),
      ts_log := ts_log (sv_storage s) @ [(i, x, r)]\<rparr>" by blast
  from write_in_call have v: "v = ts_object (sv_storage s)" by (auto simp: serving_inv_def ts_inv_def)
  note p = serving_safe_client [OF write_in_call.prems(2) write_in_call.hyps(1)]
  note h = serving_safe_healthy [OF write_in_call.prems(2)]
  from v v' shrinking_undefined [OF h, of x] have "\<not> shrinks x (ts_object (sv_storage s))" by auto
  from run_op_healthy [OF h safe_call(1) [OF conjunct1 [OF p]] this] v v' have "healthy cap v'" "plausible cap x r" by auto
  with t p write_in_call.hyps(1,2) show ?case by (intro advancesI [OF write_in_call.prems(2), of _ i]) auto
next
  case (return_call s i c args x f r t)
  note t = ts_return [OF return_call.hyps(3,2,4)]
  note p = serving_safe_client [OF return_call.prems(2) return_call.hyps(1)]
  with return_call.hyps(2) have "plausible cap x r" by blast
  from safe_call(2) [OF conjunct1 [OF p] this] t return_call.hyps(1,2) serving_safe_healthy [OF return_call.prems(2)]
  show ?case by (intro advancesI [OF return_call.prems(2), of _ i]) auto
next
  case (answer_command s i c args out)
  then have "phase_of s i = Outside" using serving_invD [of s0 s i] by simp
  with answer_command.hyps serving_safe_healthy [OF answer_command.prems(2)]
  show ?case by (intro advancesI [OF answer_command.prems(2), of _ i]) auto
qed


section \<open>What the threads have left to do\<close>

definition requests_work :: "nat \<Rightarrow> (command \<times> string) list \<Rightarrow> nat" where
  "requests_work cap rs = (\<Sum>r\<leftarrow>rs. 4 * calls_left cap (command_program (fst r) (snd r)) + 4)"

definition thread_work :: "nat \<Rightarrow> conn_thread \<Rightarrow> nat" where
  "thread_work cap t = length (ct_reads t) + length (ct_buf t @ concat (ct_reads t)) + requests_work cap (the (to_ask t))"

definition connection_work :: "nat \<Rightarrow> connections \<Rightarrow> nat \<Rightarrow> nat" where
  "connection_work cap s i = work_of cap (cs_serving s) i + thread_work cap (cs_thread s i)"

definition total_work :: "nat \<Rightarrow> nat \<Rightarrow> connections \<Rightarrow> nat" where
  "total_work cap n s = (\<Sum>i<n. connection_work cap s i) + (if cs_running s then 1 else 0)"

lemma iteration_shorter:
  "session_ok se \<Longrightarrow> buf \<noteq> [] \<Longrightarrow> iteration buf se = Some (Inr buf', se') \<Longrightarrow> length buf' < length buf"
proof (induction buf arbitrary: se)
  case (Cons c cs)
  show ?case
  proof (cases "\<exists>se1. take_byte c se = Some (True, se1) \<and> ready se1 = None \<and> cs \<noteq> []")
    case True
    then obtain se1 where 1: "take_byte c se = Some (True, se1)" "ready se1 = None" "cs \<noteq> []" by blast
    with Cons.prems iteration_take_byte [OF Cons.prems(1), of c cs] Cons.IH [OF take_byte_waits [OF Cons.prems(1) 1(1,2)]]
    show ?thesis by simp
  next
    case False
    with Cons.prems iteration_take_byte [OF Cons.prems(1), of c cs] show ?thesis by (auto split: option.splits if_splits)
  qed
qed simp

lemma thread_work_ended: "thread_work cap (ended se off) = 0"
  by (simp add: thread_work_def to_ask_def requests_work_def)

text \<open>One iteration, as it changes what is left.\<close>

lemma thread_work_iteration:
  assumes "session_ok se" "buf \<noteq> []" "to_ask \<lparr>ct_reads = bs, ct_buf = buf, ct_session = se, ct_cut = off\<rparr> = Some rs"
  shows "iteration buf se = Some (Inl e, se') \<Longrightarrow>
      thread_work cap (ended se' off) < thread_work cap \<lparr>ct_reads = bs, ct_buf = buf, ct_session = se, ct_cut = off\<rparr>"
    and "iteration buf se = Some (Inr buf', se') \<Longrightarrow> ready se' = None \<Longrightarrow>
      thread_work cap \<lparr>ct_reads = bs, ct_buf = buf', ct_session = se', ct_cut = off\<rparr> < thread_work cap \<lparr>ct_reads = bs, ct_buf = buf, ct_session = se, ct_cut = off\<rparr>"
    and "iteration buf se = Some (Inr buf', se') \<Longrightarrow> ready se' = Some cmd \<Longrightarrow>
      4 * calls_left cap (command_program cmd (argument se')) + 4 + thread_work cap \<lparr>ct_reads = bs, ct_buf = buf', ct_session = finish se', ct_cut = off\<rparr>
        < thread_work cap \<lparr>ct_reads = bs, ct_buf = buf, ct_session = se, ct_cut = off\<rparr> \<and> (cmd, argument se') \<in> set rs"
  using request_list_iteration [where rest = "concat bs", OF assms(1,2)] iteration_shorter [OF assms(1,2)] assms(2,3)
  by (auto simp: thread_work_def to_ask_def requests_work_def)

section \<open>The invariant\<close>

definition idle_thread :: "conn_thread \<Rightarrow> bool" where
  "idle_thread t \<longleftrightarrow> ct_reads t = [] \<and> ct_buf t = []"

text \<open>\<open>all i\<close> is what connection \<open>i\<close> asks for; only the first \<open>n\<close> connections send anything.\<close>

definition progress_inv :: "nat \<Rightarrow> nat \<Rightarrow> simple_lru \<Rightarrow> (nat \<Rightarrow> (command \<times> string) list option) \<Rightarrow> connections \<Rightarrow> bool" where
  "progress_inv cap n s0 all s \<longleftrightarrow> connections_inv (\<lambda>_. True) s0 all s \<and> serving_safe cap (cs_serving s) \<and>
     (\<forall>i \<ge> n. idle_thread (cs_thread s i) \<and> all i = Some []) \<and>
     (\<forall>i. \<exists>rs. all i = Some rs \<and> (\<forall>r \<in> set rs. in_size_t (stored_size (fst r) (snd r) + cap)))"

lemma progress_invD:
  assumes "progress_inv cap n s0 all s"
  shows "connections_inv (\<lambda>_. True) s0 all s" "serving_safe cap (cs_serving s)" "n \<le> i \<Longrightarrow> idle_thread (cs_thread s i)"
    "serving_inv s0 (cs_serving s)"
  using assms serving.along [OF _ serving_start_inv] by (auto simp: progress_inv_def connections_inv_def)

lemma progress_inv_to_ask:
  assumes "progress_inv cap n s0 all s"
  shows "\<exists>rs later. all i = Some (asked i (cs_serving s) @ later) \<and> to_ask (cs_thread s i) = Some rs \<and>
    (if ct_cut (cs_thread s i) then idle_thread (cs_thread s i) else later = rs) \<and>
    thread_ok (cs_thread s i) \<and> (\<forall>r \<in> set rs. safe cap (command_program (fst r) (snd r)))"
proof -
  from assms obtain rs where rs: "all i = Some rs" "\<forall>r \<in> set rs. in_size_t (stored_size (fst r) (snd r) + cap)"
    unfolding progress_inv_def by blast
  from progress_invD(1) [OF assms] have inv: "thread_inv (all i) (asked i (cs_serving s)) (cs_thread s i)"
    by (simp add: connections_inv_def)
  show ?thesis
  proof (cases "ct_cut (cs_thread s i)")
    case True
    with inv rs(1) show ?thesis by (auto simp: thread_inv_def to_ask_def idle_thread_def)
  next
    case False
    with inv rs safe_command show ?thesis by (cases "to_ask (cs_thread s i)") (auto simp: thread_inv_def)
  qed
qed

lemma progress_inv_thread:
  assumes "progress_inv cap n s0 all s"
  obtains rs where "to_ask (cs_thread s i) = Some rs" "thread_ok (cs_thread s i)"
    "\<forall>r \<in> set rs. safe cap (command_program (fst r) (snd r))"
  using progress_inv_to_ask [OF assms, of i] by blast

lemma progress_inv_idle:
  assumes "progress_inv cap n s0 all s" "n \<le> i"
  shows "sv_client (cs_serving s) i = NoCommand"
proof -
  from assms have "all i = Some []" by (simp add: progress_inv_def)
  moreover obtain later where "all i = Some (asked i (cs_serving s) @ later)" using progress_inv_to_ask [OF assms(1), of i] by blast
  ultimately show ?thesis by (cases "sv_client (cs_serving s) i") (simp_all add: asked_def)
qed

lemma busy_below:
  "progress_inv cap n s0 all s \<Longrightarrow> \<not> idle_thread (cs_thread s i) \<or> sv_client (cs_serving s) i \<noteq> NoCommand \<Longrightarrow> i < n"
  using progress_inv_idle [of cap n s0 all s i] by (cases "i < n") (auto simp: progress_inv_def)

lemma total_work_less:
  assumes "i < n" "connection_work cap t i < connection_work cap s i"
    "\<And>j. j \<noteq> i \<Longrightarrow> connection_work cap t j = connection_work cap s j" "cs_running t = cs_running s"
  shows "total_work cap n t < total_work cap n s"
proof -
  have "(\<Sum>i<n. connection_work cap t i) < (\<Sum>i<n. connection_work cap s i)"
  proof (rule sum_strict_mono_ex1)
    show "\<forall>j\<in>{..<n}. connection_work cap t j \<le> connection_work cap s j"
      using assms(2,3) by (metis nat_less_le order_refl)
    show "\<exists>j\<in>{..<n}. connection_work cap t j < connection_work cap s j" using assms(1,2) by blast
  qed simp
  then show ?thesis by (simp add: total_work_def assms(4))
qed

text \<open>A step of a thread that only changes the thread, and one that also starts a command.\<close>

lemma thread_step:
  assumes inv: "progress_inv cap n s0 all s" and ci: "connections_inv (\<lambda>_. True) s0 all t"
    and safe: "serving_safe cap (cs_serving t)"
    and i: "i < n" and running: "cs_running t = cs_running s"
    and less: "connection_work cap t i < connection_work cap s i"
    and other: "\<And>j. j \<noteq> i \<Longrightarrow> cs_thread t j = cs_thread s j \<and> work_of cap (cs_serving t) j = work_of cap (cs_serving s) j"
  shows "progress_inv cap n s0 all t \<and> total_work cap n t < total_work cap n s"
proof -
  have "idle_thread (cs_thread t j)" if "n \<le> j" for j using inv i that other [of j] by (auto simp: progress_inv_def)
  with inv ci safe have "progress_inv cap n s0 all t" by (simp add: progress_inv_def)
  moreover have "total_work cap n t < total_work cap n s"
    using other by (intro total_work_less [OF i less _ running]) (simp add: connection_work_def)
  ultimately show ?thesis ..
qed

lemma connection_step_progress:
  assumes "connection_step s t" "progress_inv cap n s0 all s"
  shows "progress_inv cap n s0 all t \<and> total_work cap n t < total_work cap n s"
proof -
  note inv = assms(2)
  have "\<exists>rs. all i = Some rs \<and> (\<forall>r \<in> set rs. True)" for i using inv by (auto simp: progress_inv_def)
  from connection_step_inv [OF assms(1) progress_invD(1) [OF inv] this]
  have ci: "connections_inv (\<lambda>_. True) s0 all t" .
  from assms(1) show ?thesis
  proof cases
    case (receive i b bs se off)
    then have "i < n" by (intro busy_below [OF inv]) (simp add: idle_thread_def)
    from receive progress_invD(2) [OF inv] show ?thesis
      by (intro thread_step [OF inv ci _ \<open>i < n\<close>]) (auto simp: connection_work_def thread_work_def to_ask_def)
  next
    case (stopped i b bs se off)
    then have "i < n" by (intro busy_below [OF inv]) (simp add: idle_thread_def)
    from stopped progress_invD(2) [OF inv] show ?thesis
      by (intro thread_step [OF inv ci _ \<open>i < n\<close>]) (auto simp: connection_work_def thread_work_ended, simp add: thread_work_def)
  next
    case (parse_on i bs buf se off buf' se')
    then have "i < n" by (intro busy_below [OF inv]) (simp add: idle_thread_def)
    obtain rs where rs: "to_ask (cs_thread s i) = Some rs" "thread_ok (cs_thread s i)" by (rule progress_inv_thread [OF inv])
    with parse_on have "session_ok se" by (auto simp: thread_ok_def)
    from thread_work_iteration(2) [OF this parse_on(4) rs(1) [unfolded parse_on(3)] parse_on(5,6), of cap] parse_on progress_invD(2) [OF inv]
    show ?thesis by (intro thread_step [OF inv ci _ \<open>i < n\<close>]) (auto simp: connection_work_def)
  next
    case (request i bs buf se off buf' se' cmd)
    then have "i < n" by (intro busy_below [OF inv]) (simp add: idle_thread_def)
    obtain rs where rs: "to_ask (cs_thread s i) = Some rs" "thread_ok (cs_thread s i)"
      "\<forall>r \<in> set rs. safe cap (command_program (fst r) (snd r))" by (rule progress_inv_thread [OF inv])
    with request have "session_ok se" by (auto simp: thread_ok_def)
    note w = thread_work_iteration(3) [OF this request(4) rs(1) [unfolded request(3)] request(5,6), of cap]
    have out: "phase_of (cs_serving s) i = Outside" using serving_invD [OF progress_invD(4) [OF inv], of i] request(2) by simp
    have "serving_safe cap (cs_serving t)"
      using progress_invD(2) [OF inv] bspec [OF rs(3) conjunct2 [OF w]] out
      by (auto simp: request(1) begun_def serving_safe_def)
    with w request out show ?thesis
      by (intro thread_step [OF inv ci _ \<open>i < n\<close>]) (auto simp: connection_work_def begun_def)
  next
    case (exception i bs buf se off e se')
    then have "i < n" by (intro busy_below [OF inv]) (simp add: idle_thread_def)
    obtain rs where rs: "to_ask (cs_thread s i) = Some rs" "thread_ok (cs_thread s i)" by (rule progress_inv_thread [OF inv])
    with exception have "session_ok se" by (auto simp: thread_ok_def)
    from thread_work_iteration(1) [OF this exception(4) rs(1) [unfolded exception(3)] exception(5), of cap] exception progress_invD(2) [OF inv]
    show ?thesis by (intro thread_step [OF inv ci _ \<open>i < n\<close>]) (auto simp: connection_work_def)
  next
    case (storage sv)
    from serving_step_advances [OF storage(2) progress_invD(4,2) [OF inv]] obtain i where
      i: "serving_safe cap sv" "work_of cap sv i < work_of cap (cs_serving s) i"
        "\<And>j. j \<noteq> i \<Longrightarrow> work_of cap sv j = work_of cap (cs_serving s) j"
      unfolding advances_def by blast
    then have "i < n" by (intro busy_below [OF inv]) auto
    with i storage(1) show ?thesis
      by (intro thread_step [OF inv ci _ \<open>i < n\<close>]) (auto simp: connection_work_def)
  next
    case (send_fails i c args out)
    then have "i < n" by (intro busy_below [OF inv]) simp
    let ?sv = "(cs_serving s)\<lparr>sv_client := (sv_client (cs_serving s))(i := NoCommand), sv_replies := sv_replies (cs_serving s) @ [(i, c, args, out)]\<rparr>"
    from serving_step_advances [OF answer_command [OF send_fails(2)] progress_invD(4,2) [OF inv]]
    have "serving_safe cap ?sv" by (simp add: advances_def)
    moreover have "thread_work cap (cs_thread t i) \<le> thread_work cap (cs_thread s i)" by (simp add: send_fails(1) thread_work_ended)
    moreover have "work_of cap (cs_serving t) i < work_of cap (cs_serving s) i"
      using send_fails serving_invD [OF progress_invD(4) [OF inv], of i] by simp
    ultimately show ?thesis using send_fails(1)
      by (intro thread_step [OF inv ci _ \<open>i < n\<close>]) (auto simp: connection_work_def)
  next
    case stop
    with inv show ?thesis by (simp add: progress_inv_def connections_inv_def total_work_def connection_work_def)
  qed
qed

interpretation connections: decreasing_work connection_step "progress_inv cap n s0 all" "total_work cap n" for cap n s0 all
  by unfold_locales (simp_all add: connection_step_progress)


section \<open>Where a run can end\<close>

text \<open>Whoever holds the lock can go on, unless its call has no defined outcome.\<close>

lemma owner_goes_on:
  assumes "serving_inv s0 s" "serving_safe cap s" "ts_owner (sv_storage s) = Some i"
  shows "(\<exists>t. serving_moves i s t) \<or>
    (\<exists>x. phase_of s i = Working x (ts_object (sv_storage s)) \<and> shrinks x (ts_object (sv_storage s)))"
proof -
  let ?m = "sv_storage s"
  from assms(1,3) have "phase_of s i \<noteq> Outside" by (simp add: serving_inv_def ts_inv_def)
  moreover from this serving_invD [OF assms(1), of i] obtain c args x f where
    client: "sv_client s i = Executing c args (Call x f)"
    by (cases "(sv_client s i, phase_of s i)" rule: calls_next.cases) auto
  moreover note next_call = serving_invD [OF assms(1), of i, unfolded client]
  ultimately consider "phase_of s i = Holding x" | v where "phase_of s i = Working x v" | r where "phase_of s i = Leaving r"
    by (cases "phase_of s i") auto
  then show ?thesis
  proof cases
    case 1
    let ?t = "?m\<lparr>ts_phase := (ts_phase ?m)(i := Working x (ts_object ?m))\<rparr>"
    from ts_step.read_object [OF 1] have "ts_step ?m ?t" .
    from read_in_call [OF 1 this, of "ts_object ?m"] have "serving_moves i s (s\<lparr>sv_storage := ?t\<rparr>)"
      by (simp add: serving_moves_def)
    then show ?thesis by blast
  next
    case (2 v)
    then have v: "v = ts_object ?m" using assms(1) by (auto simp: serving_inv_def ts_inv_def)
    show ?thesis
    proof (cases "shrinks x (ts_object ?m)")
      case False
      from run_op_healthy [OF serving_safe_healthy [OF assms(2)]
          safe_call(1) [OF conjunct1 [OF serving_safe_client [OF assms(2) client]]] False]
      obtain r v' where "run_op x v = Some (r, v')" using v by metis
      from ts_step.write_object [OF 2 this] write_in_call [OF client 2, of _ r] show ?thesis
        by (fastforce simp: serving_moves_def)
    qed (use 2 v in blast)
  next
    case (3 r)
    from ts_step.release [OF 3] return_call [OF client 3] show ?thesis by (fastforce simp: serving_moves_def)
  qed
qed

lemma thread_goes_on:
  assumes "progress_inv cap n s0 all s" "sv_client (cs_serving s) i = NoCommand" "\<not> idle_thread (cs_thread s i)"
  shows "\<exists>t. connection_moves i s t"
proof -
  obtain bs buf se off where t: "cs_thread s i = \<lparr>ct_reads = bs, ct_buf = buf, ct_session = se, ct_cut = off\<rparr>"
    by (cases "cs_thread s i")
  show ?thesis
  proof (cases buf)
    case Nil
    with t assms(3) obtain b bs' where "bs = b # bs'" by (cases bs) (auto simp: idle_thread_def)
    with Nil t have t': "cs_thread s i = \<lparr>ct_reads = b # bs', ct_buf = [], ct_session = se, ct_cut = off\<rparr>" by simp
    show ?thesis
    proof (cases "cs_running s \<or> pending se \<noteq> None")
      case True
      from receive [OF assms(2) t' this] show ?thesis by (auto simp: connection_moves_def begun_def)
    next
      case False
      then show ?thesis using stopped [OF assms(2) t'] by (auto simp: connection_moves_def)
    qed
  next
    case (Cons c cs)
    then have buf: "buf \<noteq> []" by simp
    from progress_inv_thread [OF assms(1), of i] t buf obtain rs where
      rs: "session_ok se" "request_list (buf @ concat bs) se = Some rs"
      by (auto simp: thread_ok_def to_ask_def)
    from rs(2) have "requests buf se \<noteq> None"
      by (cases "requests buf se") (auto simp: request_list_def requests_append)
    with requests_iteration [OF rs(1) buf] have "iteration buf se \<noteq> None" by (cases "iteration buf se") simp_all
    then obtain x se' where it: "iteration buf se = Some (x, se')" by (cases "iteration buf se") auto
    show ?thesis
    proof (cases x)
      case (Inl e)
      from exception [OF assms(2) t buf it [unfolded Inl]] show ?thesis by (auto simp: connection_moves_def begun_def)
    next
      case (Inr buf')
      show ?thesis
      proof (cases "ready se'")
        case None
        from parse_on [OF assms(2) t buf it [unfolded Inr] None] show ?thesis by (auto simp: connection_moves_def begun_def)
      next
        case (Some cmd)
        from request [OF assms(2) t buf it [unfolded Inr] Some] show ?thesis by (auto simp: connection_moves_def begun_def)
      qed
    qed
  qed
qed

lemma client_goes_on:
  assumes "serving_inv s0 s" "ts_owner (sv_storage s) = None" "sv_client s i \<noteq> NoCommand"
  shows "\<exists>t. serving_moves i s t"
proof -
  from assms(1,2) have out: "phase_of s i = Outside" by (auto simp: serving_inv_def ts_inv_def)
  from assms(3) obtain c args p where cl: "sv_client s i = Executing c args p" by (cases "sv_client s i") auto
  show ?thesis
  proof (cases p)
    case (Reply out)
    with answer_command cl show ?thesis by (fastforce simp: serving_moves_def)
  next
    case (Call x f)
    from ts_step.acquire [OF out assms(2), of x] enter_call [OF cl [unfolded Call] out] show ?thesis by (fastforce simp: serving_moves_def)
  qed
qed

text \<open>No step but a call of \<open>Stop\<close> is left.\<close>

definition at_rest :: "connections \<Rightarrow> bool" where
  "at_rest s \<longleftrightarrow> (\<forall>t. connection_step s t \<longrightarrow> cs_running t \<noteq> cs_running s)"

definition stuck_in_call :: "connections \<Rightarrow> bool" where
  "stuck_in_call s \<longleftrightarrow> (\<exists>i x. phase_of (cs_serving s) i = Working x (ts_object (sv_storage (cs_serving s))) \<and>
     shrinks x (ts_object (sv_storage (cs_serving s))))"

text \<open>A connection with nothing left to do has been served to its end, or cut off.\<close>

lemma over_served:
  assumes "progress_inv cap n s0 all s" "sv_client (cs_serving s) i = NoCommand" "idle_thread (cs_thread s i)"
  shows "\<exists>later. all i = Some (map sent (answers_of i (sv_replies (cs_serving s))) @ later) \<and>
    (\<not> ct_cut (cs_thread s i) \<longrightarrow> finished_reading s i \<and> later = [])"
  using progress_inv_to_ask [OF assms(1), of i] assms(2,3)
  by (auto simp: finished_reading_def idle_thread_def asked_def to_ask_def split: if_splits)

lemma resting_states:
  assumes inv: "progress_inv cap n s0 all s" and rest: "at_rest s" and defined: "\<not> stuck_in_call s"
  shows "idle_thread (cs_thread s i) \<and> (\<exists>later. all i = Some (map sent (answers_of i (sv_replies (cs_serving s))) @ later) \<and>
    (\<not> ct_cut (cs_thread s i) \<longrightarrow> finished_reading s i \<and> later = []))"
proof -
  let ?sv = "cs_serving s"
  have no: "\<not> serving_moves j ?sv t" for j t using rest storage [of s t] by (auto simp: at_rest_def serving_moves_def)
  have "ts_owner (sv_storage ?sv) = None"
  proof (cases "ts_owner (sv_storage ?sv)")
    case (Some j)
    from owner_goes_on [OF progress_invD(4,2) [OF inv] Some] no defined show ?thesis by (auto simp: stuck_in_call_def)
  qed
  then have c: "sv_client ?sv i = NoCommand" using client_goes_on [OF progress_invD(4) [OF inv], of i] no by blast
  moreover have "idle_thread (cs_thread s i)" using thread_goes_on [OF inv c] rest by (auto simp: at_rest_def connection_moves_def)
  ultimately show ?thesis using over_served [OF inv] by blast
qed

lemma progress_inv_start:
  assumes "lru_invar s0" "lru_capacity s0 < 2 ^ 63" "\<And>i. session_ok (ses i)" "\<And>i. n \<le> i \<Longrightarrow> reads i = []"
    "\<And>i. \<exists>rs. request_list (concat (reads i)) (ses i) = Some rs \<and>
       (\<forall>r \<in> set rs. in_size_t (stored_size (fst r) (snd r) + lru_capacity s0))"
  shows "progress_inv (lru_capacity s0) n s0 (\<lambda>i. request_list (concat (reads i)) (ses i)) (connections_start s0 reads ses)"
  using connections_inv_start [OF assms(3), of "\<lambda>_. True" s0 reads] assms(1,2,4,5)
  by (auto simp: progress_inv_def serving_safe_def healthy_def connections_start_def serving_start_def ts_start_def idle_thread_def)

section \<open>Property\<close>

text \<open>
  C5. The multi-threaded server serves everybody: connections that send finitely many bytes make
  boundedly many steps in all, however their threads interleave, and when no step but a call of \<open>Stop\<close> is left
  every connection has been read to its end and its client has been answered every command that it sent, in
  the order it sent them, or it was cut off by \<open>Stop\<close> or a failed \<open>send\<close>, and answers to a beginning of them
  have been handed to \<open>send\<close>. The only other way in which all threads can end is that one of them,
  with the lock, is about to store through \<open>Put\<close> or \<open>Set\<close> a value shorter than the stored one,
  which has no defined outcome. In particular the threads never deadlock.
\<close>

theorem connections_served:
  assumes "lru_invar s0" "lru_capacity s0 < 2 ^ 63" "\<And>i. session_ok (ses i)" "\<And>i. n \<le> i \<Longrightarrow> reads i = []"
    "\<And>i. \<exists>rs. request_list (concat (reads i)) (ses i) = Some rs \<and>
       (\<forall>r \<in> set rs. in_size_t (stored_size (fst r) (snd r) + lru_capacity s0))"
  shows "\<exists>bound. \<forall>m s. (connection_step ^^ m) (connections_start s0 reads ses) s \<longrightarrow> m \<le> bound \<and>
    (at_rest s \<longrightarrow> stuck_in_call s \<or> (\<forall>i. \<exists>rs later. request_list (concat (reads i)) (ses i) = Some rs \<and>
       rs = map sent (answers_of i (sv_replies (cs_serving s))) @ later \<and>
       (if ct_cut (cs_thread s i) then idle_thread (cs_thread s i) else finished_reading s i \<and> later = [])))"
proof (intro exI allI impI conjI)
  let ?start = "connections_start s0 reads ses" and ?all = "\<lambda>i. request_list (concat (reads i)) (ses i)"
  have start: "progress_inv (lru_capacity s0) n s0 ?all ?start" by (rule progress_inv_start) (fact assms)+
  fix m s assume run: "(connection_step ^^ m) ?start s"
  from connections.steps_bounded [OF run start] show "m \<le> total_work (lru_capacity s0) n ?start" by simp
  assume rest: "at_rest s"
  note inv = connections.along_n [OF run start]
  have "\<exists>rs later. ?all i = Some rs \<and> rs = map sent (answers_of i (sv_replies (cs_serving s))) @ later \<and>
       (if ct_cut (cs_thread s i) then idle_thread (cs_thread s i) else finished_reading s i \<and> later = [])" if "\<not> stuck_in_call s" for i
    using resting_states [OF inv rest that, of i] by auto
  then show "stuck_in_call s \<or> (\<forall>i. \<exists>rs later. ?all i = Some rs \<and> rs = map sent (answers_of i (sv_replies (cs_serving s))) @ later \<and>
       (if ct_cut (cs_thread s i) then idle_thread (cs_thread s i) else finished_reading s i \<and> later = []))" by blast
qed

lemma connections_served_witness:
  "\<exists>bound. \<forall>m s. (connection_step ^^ m) (connections_start (SimpleLRU 64) (\<lambda>i. if i = 0 then [''get a'' @ crlf] else [])
      (\<lambda>_. new_session 0 True)) s \<longrightarrow> m \<le> bound \<and>
    (at_rest s \<longrightarrow> stuck_in_call s \<or> ct_cut (cs_thread s 0) \<or>
      map sent (answers_of 0 (sv_replies (cs_serving s))) = [(GetCmd [''a''], [])])"
proof -
  let ?reads = "\<lambda>i :: nat. if i = 0 then [''get a'' @ crlf] else []" and ?ses = "\<lambda>_ :: nat. new_session 0 True"
  have req: "request_list (''get a'' @ crlf) (new_session 0 True) = Some [(GetCmd [''a''], [])]" by code_simp
  have lru: "lru_invar (SimpleLRU 64)" "lru_capacity (SimpleLRU 64) = 64"
    using represents_new [of 64] by (auto simp: lru_invar_def lru_capacity_def SimpleLRU_def)
  have sizes: "\<exists>rs. request_list (concat (?reads i)) (?ses i) = Some rs \<and>
       (\<forall>r \<in> set rs. in_size_t (stored_size (fst r) (snd r) + lru_capacity (SimpleLRU 64)))" for i
    by (cases "i = 0") (simp_all add: req lru in_size_t_def del: append.simps)
  have "\<exists>bound. \<forall>m s. (connection_step ^^ m) (connections_start (SimpleLRU 64) ?reads ?ses) s \<longrightarrow> m \<le> bound \<and>
    (at_rest s \<longrightarrow> stuck_in_call s \<or> (\<forall>i. \<exists>rs later. request_list (concat (?reads i)) (?ses i) = Some rs \<and>
       rs = map sent (answers_of i (sv_replies (cs_serving s))) @ later \<and>
       (if ct_cut (cs_thread s i) then idle_thread (cs_thread s i) else finished_reading s i \<and> later = [])))"
    by (rule connections_served [where n = 1]) (use sizes in \<open>simp_all add: lru del: append.simps\<close>)
  then obtain bound where b: "\<And>m s. (connection_step ^^ m) (connections_start (SimpleLRU 64) ?reads ?ses) s \<Longrightarrow> m \<le> bound \<and>
    (at_rest s \<longrightarrow> stuck_in_call s \<or> (\<forall>i. \<exists>rs later. request_list (concat (?reads i)) (?ses i) = Some rs \<and>
       rs = map sent (answers_of i (sv_replies (cs_serving s))) @ later \<and>
       (if ct_cut (cs_thread s i) then idle_thread (cs_thread s i) else finished_reading s i \<and> later = [])))" by blast
  have r0: "request_list (concat (?reads 0)) (?ses 0) = Some [(GetCmd [''a''], [])]" using req by (simp del: append.simps)
  show ?thesis
  proof (intro exI [of _ bound] allI impI conjI)
    fix m s assume run: "(connection_step ^^ m) (connections_start (SimpleLRU 64) ?reads ?ses) s"
    from b [OF run] show "m \<le> bound" by (rule conjunct1)
    assume rest: "at_rest s"
    show "stuck_in_call s \<or> ct_cut (cs_thread s 0) \<or> map sent (answers_of 0 (sv_replies (cs_serving s))) = [(GetCmd [''a''], [])]"
    proof (rule disjE [OF mp [OF conjunct2 [OF b [OF run]] rest]])
      assume "\<forall>i. \<exists>rs later. request_list (concat (?reads i)) (?ses i) = Some rs \<and>
       rs = map sent (answers_of i (sv_replies (cs_serving s))) @ later \<and>
       (if ct_cut (cs_thread s i) then idle_thread (cs_thread s i) else finished_reading s i \<and> later = [])"
      then obtain rs later where "request_list (concat (?reads 0)) (?ses 0) = Some rs"
        "rs = map sent (answers_of 0 (sv_replies (cs_serving s))) @ later" "\<not> ct_cut (cs_thread s 0) \<Longrightarrow> later = []"
        by (elim allE [where x = 0] exE conjE) (simp split: if_splits)
      with r0 show ?thesis by (cases "ct_cut (cs_thread s 0)") (simp_all del: append.simps concat.simps)
    qed simp
  qed
qed

end
