(* ===== verification/Executor.thy ===== *)
theory Executor
  imports Transition_Systems "HOL-Library.Signed_Division" "HOL-Library.Multiset"
begin

text \<open>
  The thread pool of the multi-threaded blocking server (\<open>include/afina/concurrency/Executor.h\<close>,
  \<open>src/concurrency/Executor.cpp\<close>): its members as a record, one definition per critical section
  of \<open>Execute\<close>, \<open>perform\<close> and \<open>Stop\<close>, and the pool with its threads as a step relation. A wait on
  the condition variable may end at any time, by a notification, its timeout or spuriously, so
  notifications do not appear; the clock is an input.
\<close>

section \<open>Members\<close>

datatype pool_state = kRun | kStopping | kStopped

record 'task pool =
  low_watermark :: size_t
  hight_watermark :: size_t
  max_queue_size :: size_t
  idle_time :: size_t
  sleeping_workers :: size_t
  running_threads :: size_t
  tasks :: "'task list"
  e_state :: pool_state

text \<open>The constructor starts \<open>low_watermark\<close> threads.\<close>

definition Executor_new :: "size_t \<Rightarrow> size_t \<Rightarrow> size_t \<Rightarrow> size_t \<Rightarrow> 'task pool" where
  "Executor_new low hight queue idle = \<lparr>low_watermark = low, hight_watermark = hight, max_queue_size = queue,
     idle_time = idle, sleeping_workers = low, running_threads = low, tasks = [], e_state = kRun\<rparr>"

section \<open>Execute\<close>

text \<open>The results: was the task enqueued, was a thread started.\<close>

definition Execute :: "'task \<Rightarrow> 'task pool \<Rightarrow> bool \<times> bool \<times> 'task pool" where
  "Execute task p =
     (if e_state p \<noteq> kRun then (False, False, p)
      else if length (tasks p) < unat (max_queue_size p) then
        (let p = p\<lparr>tasks := tasks p @ [task]\<rparr> in
         if sleeping_workers p = 0 then
           (if running_threads p < hight_watermark p then
              (True, True, p\<lparr>running_threads := running_threads p + 1, sleeping_workers := sleeping_workers p + 1\<rparr>)
            else (True, False, p))
         else (True, False, p))
      else (False, False, p))"

section \<open>perform\<close>

text \<open>
  The test of the inner loop. Times are in nanoseconds; the difference, cut to milliseconds, is
  converted to the unsigned type of \<open>idle_time\<close> for the comparison.
\<close>

definition within_idle_time :: "int \<Rightarrow> int \<Rightarrow> 'task pool \<Rightarrow> bool" where
  "within_idle_time last_task_time now p \<longleftrightarrow> (word_of_int ((now - last_task_time) sdiv 1000000) :: size_t) < idle_time p"

text \<open>What a worker does next: wait and look again, run a task, leave, or look again at once.\<close>

datatype 'task poll_result = Wait | Run 'task | Leave | Again

definition perform_poll :: "int \<Rightarrow> int \<Rightarrow> 'task pool \<Rightarrow> 'task poll_result \<times> 'task pool" where
  "perform_poll last_task_time now p =
     (if tasks p = [] \<and> e_state p = kRun \<and> within_idle_time last_task_time now p then (Wait, p)
      else
       (let p = p\<lparr>sleeping_workers := sleeping_workers p - 1\<rparr> in
        case tasks p of
          t # ts \<Rightarrow> (Run t, p\<lparr>tasks := ts\<rparr>)
        | [] \<Rightarrow>
           (if e_state p \<noteq> kRun then
              (let p = p\<lparr>running_threads := running_threads p - 1\<rparr> in
               (Leave, if running_threads p = 0 then p\<lparr>e_state := kStopped\<rparr> else p))
            else if sleeping_workers p \<ge> low_watermark p then
              (Leave, p\<lparr>running_threads := running_threads p - 1\<rparr>)
            else (Again, p\<lparr>sleeping_workers := sleeping_workers p + 1\<rparr>))))"

text \<open>After a task, whether it returned or threw.\<close>

definition perform_done :: "'task pool \<Rightarrow> 'task pool" where
  "perform_done p = p\<lparr>sleeping_workers := sleeping_workers p + 1\<rparr>"

section \<open>Stop\<close>

definition Stop :: "'task pool \<Rightarrow> 'task pool" where
  "Stop p = p\<lparr>e_state := kStopping\<rparr>"

text \<open>The wait of \<open>Stop(true)\<close> is over.\<close>

definition Stop_returns :: "'task pool \<Rightarrow> bool" where
  "Stop_returns p \<longleftrightarrow> running_threads p = 0"

section \<open>The pool and its threads\<close>

text \<open>
  A thread is about to look at the queue (with its \<open>last_task_time\<close> and \<open>now\<close>), runs a task, or
  has left. Threads are numbered in the order they were started. \<open>accepted\<close>, \<open>started\<close> and
  \<open>finished\<close> record the tasks that \<open>Execute\<close> took, that a worker picked up and that ended.
\<close>

datatype 'task thread = Polling int int | Working int 'task | Done

record 'task system =
  s_pool :: "'task pool"
  threads :: "'task thread list"
  accepted :: "'task list"
  started :: "'task list"
  finished :: "'task list"

definition system_start :: "size_t \<Rightarrow> size_t \<Rightarrow> size_t \<Rightarrow> size_t \<Rightarrow> int \<Rightarrow> 'task system" where
  "system_start low hight queue idle t = \<lparr>s_pool = Executor_new low hight queue idle,
     threads = replicate (unat low) (Polling t t), accepted = [], started = [], finished = []\<rparr>"

definition client_execute :: "'task \<Rightarrow> int \<Rightarrow> 'task system \<Rightarrow> bool \<times> 'task system" where
  "client_execute task t s = (case Execute task (s_pool s) of
      (ok, spawn, p) \<Rightarrow> (ok, s\<lparr>s_pool := p, accepted := accepted s @ (if ok then [task] else []),
        threads := threads s @ (if spawn then [Polling t t] else [])\<rparr>))"

text \<open>Thread \<open>i\<close> looks at the queue; \<open>t\<close> is the time at which a wait ends.\<close>

definition thread_poll :: "nat \<Rightarrow> int \<Rightarrow> int \<Rightarrow> int \<Rightarrow> 'task system \<Rightarrow> 'task system" where
  "thread_poll i lt now t s = (case perform_poll lt now (s_pool s) of
      (Wait, p) \<Rightarrow> s\<lparr>s_pool := p, threads := (threads s)[i := Polling lt t]\<rparr>
    | (Run task, p) \<Rightarrow> s\<lparr>s_pool := p, threads := (threads s)[i := Working now task], started := started s @ [task]\<rparr>
    | (Leave, p) \<Rightarrow> s\<lparr>s_pool := p, threads := (threads s)[i := Done]\<rparr>
    | (Again, p) \<Rightarrow> s\<lparr>s_pool := p, threads := (threads s)[i := Polling lt now]\<rparr>)"

definition thread_done :: "nat \<Rightarrow> int \<Rightarrow> 'task \<Rightarrow> int \<Rightarrow> 'task system \<Rightarrow> 'task system" where
  "thread_done i now task t s = s\<lparr>s_pool := perform_done (s_pool s), threads := (threads s)[i := Polling t now],
     finished := finished s @ [task]\<rparr>"

inductive thread_step :: "'task system \<Rightarrow> 'task system \<Rightarrow> bool" where
  poll: "i < length (threads s) \<Longrightarrow> threads s ! i = Polling lt now \<Longrightarrow> thread_step s (thread_poll i lt now t s)"
| finish: "i < length (threads s) \<Longrightarrow> threads s ! i = Working now task \<Longrightarrow> thread_step s (thread_done i now task t s)"

inductive pool_step :: "'task system \<Rightarrow> 'task system \<Rightarrow> bool" where
  thread: "thread_step s s' \<Longrightarrow> pool_step s s'"
| execute: "pool_step s (snd (client_execute task t s))"
| stop: "pool_step s (s\<lparr>s_pool := Stop (s_pool s)\<rparr>)"

abbreviation pool_reachable :: "'task system \<Rightarrow> 'task system \<Rightarrow> bool" where
  "pool_reachable \<equiv> reaches pool_step"

end
