(* ===== verification/Executor_Facts.thy ===== *)
theory Executor_Facts
  imports Executor
begin

text \<open>
  Correctness of the thread pool: the counters count, the bounds hold, no accepted task is lost,
  doubled or overtaken, every shutdown of a pool with a worker ends and finishes the queue; and
  what is not as intended: a pool without workers never reports that it stopped, and idle
  workers do not wait.
\<close>

section \<open>Counting threads\<close>

fun is_polling :: "'task thread \<Rightarrow> bool" where
  "is_polling (Polling lt now) \<longleftrightarrow> True"
| "is_polling _ \<longleftrightarrow> False"

fun is_live :: "'task thread \<Rightarrow> bool" where
  "is_live Done \<longleftrightarrow> False"
| "is_live _ \<longleftrightarrow> True"

fun running_task :: "'task thread \<Rightarrow> 'task list" where
  "running_task (Working now task) = [task]"
| "running_task _ = []"

definition polling :: "'task system \<Rightarrow> nat" where
  "polling s = count_if is_polling (threads s)"

definition live :: "'task system \<Rightarrow> nat" where
  "live s = count_if is_live (threads s)"

definition running_tasks :: "'task thread list \<Rightarrow> 'task multiset" where
  "running_tasks ths = mset (concat (map running_task ths))"

lemma running_tasks_update:
  "i < length ths \<Longrightarrow>
    running_tasks (ths[i := y]) + mset (running_task (ths ! i)) = running_tasks ths + mset (running_task y)"
proof (induction ths arbitrary: i)
  case (Cons x xs)
  then show ?case by (cases i) (auto simp: running_tasks_def ac_simps)
qed simp

lemma polling_le_live: "polling s \<le> live s"
  unfolding polling_def live_def by (rule count_if_mono) (auto elim: is_polling.elims)

section \<open>The invariant\<close>

definition max_threads :: "'task pool \<Rightarrow> nat" where
  "max_threads p = max (unat (low_watermark p)) (unat (hight_watermark p))"

definition counters_ok :: "'task system \<Rightarrow> bool" where
  "counters_ok s \<longleftrightarrow>
     sleeping_workers (s_pool s) = of_nat (polling s) \<and> running_threads (s_pool s) = of_nat (live s) \<and>
     live s \<le> max_threads (s_pool s)"

definition queue_inv :: "'task system \<Rightarrow> bool" where
  "queue_inv s \<longleftrightarrow> length (tasks (s_pool s)) \<le> unat (max_queue_size (s_pool s)) \<and>
     accepted s = started s @ tasks (s_pool s) \<and>
     mset (started s) = mset (finished s) + running_tasks (threads s)"

definition workers_inv :: "'task system \<Rightarrow> bool" where
  "workers_inv s \<longleftrightarrow>
     (tasks (s_pool s) \<noteq> [] \<and> hight_watermark (s_pool s) > 0 \<longrightarrow> live s > 0) \<and>
     (e_state (s_pool s) = kStopped \<longrightarrow> live s = 0 \<and> tasks (s_pool s) = [])"

definition pool_inv :: "'task system \<Rightarrow> bool" where
  "pool_inv s \<longleftrightarrow> counters_ok s \<and> queue_inv s \<and> workers_inv s"

lemma live_size_t: "counters_ok s \<Longrightarrow> in_size_t (live s)"
  using in_size_t_unat [of "low_watermark (s_pool s)"] in_size_t_unat [of "hight_watermark (s_pool s)"]
  by (auto simp: counters_ok_def max_threads_def in_size_t_def)

lemma zero_counters:
  assumes "counters_ok s"
  shows "sleeping_workers (s_pool s) = 0 \<longleftrightarrow> polling s = 0" and "running_threads (s_pool s) = 0 \<longleftrightarrow> live s = 0"
proof -
  note l = live_size_t [OF assms]
  note p = in_size_t_le [OF l polling_le_live]
  show "sleeping_workers (s_pool s) = 0 \<longleftrightarrow> polling s = 0"
    using assms of_nat_eq_zero_size_t [OF p] by (simp add: counters_ok_def)
  show "running_threads (s_pool s) = 0 \<longleftrightarrow> live s = 0"
    using assms of_nat_eq_zero_size_t [OF l] by (simp add: counters_ok_def)
qed

lemma system_start_inv: "pool_inv (system_start low hight queue idle t)"
  by (simp add: pool_inv_def counters_ok_def queue_inv_def workers_inv_def system_start_def Executor_new_def
    polling_def live_def max_threads_def running_tasks_def)

lemma client_execute_inv:
  assumes "pool_inv s"
  shows "pool_inv (snd (client_execute task t s))"
proof -
  let ?p = "s_pool s"
  from assms have c: "counters_ok s" and q: "queue_inv s" and w: "workers_inv s" by (simp_all add: pool_inv_def)
  note zero = zero_counters [OF c]
  show ?thesis
  proof (cases "e_state ?p = kRun \<and> length (tasks ?p) < unat (max_queue_size ?p)")
    case False
    then have "Execute task ?p = (False, False, ?p)" by (auto simp: Execute_def)
    with assms show ?thesis by (simp add: client_execute_def)
  next
    case True
    show ?thesis
    proof (cases "sleeping_workers ?p = 0 \<and> running_threads ?p < hight_watermark ?p")
      case spawn: True
      with c have "unat (of_nat (live s) :: size_t) < unat (hight_watermark ?p)"
        by (simp add: counters_ok_def word_less_nat_alt)
      then have "live s + 1 \<le> unat (hight_watermark ?p)" using unat_of_nat_small [OF live_size_t [OF c]] by simp
      with True spawn c q w show ?thesis
        by (auto simp: client_execute_def Execute_def Let_def pool_inv_def counters_ok_def queue_inv_def workers_inv_def
          polling_def live_def max_threads_def running_tasks_def)
    next
      case False
      have "live s > 0" if "hight_watermark ?p > 0"
      proof (cases "sleeping_workers ?p = 0")
        case False
        with zero(1) polling_le_live [of s] show ?thesis by linarith
      next
        case True
        with \<open>\<not> (_ \<and> _)\<close> that have "running_threads ?p \<noteq> 0" by auto
        with zero(2) show ?thesis by simp
      qed
      with True False c q w show ?thesis
        by (auto simp: client_execute_def Execute_def Let_def pool_inv_def counters_ok_def queue_inv_def workers_inv_def
          polling_def live_def max_threads_def running_tasks_def)
    qed
  qed
qed

lemma stop_inv:
  assumes "pool_inv s"
  shows "pool_inv (s\<lparr>s_pool := Stop (s_pool s)\<rparr>)"
  using assms by (simp add: pool_inv_def counters_ok_def queue_inv_def workers_inv_def Stop_def polling_def live_def max_threads_def)


text \<open>A thread changes its own entry only.\<close>

lemma thread_update:
  assumes "i < length (threads s)" "threads s ! i = x"
  shows "count_if is_polling ((threads s)[i := y]) + count_if is_polling [x] = polling s + count_if is_polling [y]"
    and "count_if is_live ((threads s)[i := y]) + count_if is_live [x] = live s + count_if is_live [y]"
    and "running_tasks ((threads s)[i := y]) + mset (running_task x) = running_tasks (threads s) + mset (running_task y)"
  using count_if_update [OF assms(1), of is_polling y] count_if_update [OF assms(1), of is_live y]
    running_tasks_update [OF assms(1), of y] assms(2)
  by (simp_all add: polling_def live_def)

lemma of_nat_minus_one: "m + 1 = n \<Longrightarrow> (of_nat n :: size_t) - 1 = of_nat m"
  by auto

lemma thread_poll_inv:
  assumes inv: "pool_inv s" and i: "i < length (threads s)" "threads s ! i = Polling lt now"
  shows "pool_inv (thread_poll i lt now t s)"
proof -
  let ?p = "s_pool s"
  from inv have c: "counters_ok s" and q: "queue_inv s" and w: "workers_inv s" by (simp_all add: pool_inv_def)
  show ?thesis
  proof (cases "tasks ?p = [] \<and> e_state ?p = kRun \<and> within_idle_time lt now ?p")
    case True
    then have "thread_poll i lt now t s = s\<lparr>threads := (threads s)[i := Polling lt t]\<rparr>"
      by (simp add: thread_poll_def perform_poll_def)
    with c q w thread_update [OF i, of "Polling lt t"] show ?thesis
      by (simp add: pool_inv_def counters_ok_def queue_inv_def workers_inv_def polling_def live_def)
  next
    case busy: False
    show ?thesis
    proof (cases "tasks ?p")
      case (Cons x xs)
      with busy have "thread_poll i lt now t s = s\<lparr>s_pool := ?p\<lparr>sleeping_workers := sleeping_workers ?p - 1, tasks := xs\<rparr>,
          threads := (threads s)[i := Working now x], started := started s @ [x]\<rparr>"
        by (simp add: thread_poll_def perform_poll_def Let_def)
      moreover from thread_update(1) [OF i, of "Working now x"]
      have "(of_nat (count_if is_polling (threads s)) :: size_t) - 1 = of_nat (count_if is_polling ((threads s)[i := Working now x]))"
        by (intro of_nat_minus_one) (simp add: polling_def)
      ultimately show ?thesis using c q w Cons thread_update [OF i, of "Working now x"]
        by (simp add: pool_inv_def counters_ok_def queue_inv_def workers_inv_def polling_def live_def max_threads_def)
    next
      case Nil
      show ?thesis
      proof (cases "e_state ?p = kRun \<and> \<not> low_watermark ?p \<le> sleeping_workers ?p - 1")
        case True
        with busy Nil have "thread_poll i lt now t s = s\<lparr>s_pool := ?p\<lparr>sleeping_workers := sleeping_workers ?p - 1 + 1\<rparr>,
            threads := (threads s)[i := Polling lt now]\<rparr>"
          by (simp add: thread_poll_def perform_poll_def Let_def)
        with c q w thread_update [OF i, of "Polling lt now"] show ?thesis
          by (simp add: pool_inv_def counters_ok_def queue_inv_def workers_inv_def polling_def live_def max_threads_def)
      next
        case False
        let ?p' = "?p\<lparr>sleeping_workers := sleeping_workers ?p - 1, running_threads := running_threads ?p - 1\<rparr>"
        let ?s' = "s\<lparr>s_pool := ?p', threads := (threads s)[i := Done]\<rparr>"
        from busy Nil False have step: "thread_poll i lt now t s =
            (if e_state ?p \<noteq> kRun \<and> running_threads ?p' = 0 then ?s'\<lparr>s_pool := ?p'\<lparr>e_state := kStopped\<rparr>\<rparr> else ?s')"
          by (auto simp: thread_poll_def perform_poll_def Let_def)
        have "(of_nat (count_if is_polling (threads s)) :: size_t) - 1 = of_nat (count_if is_polling ((threads s)[i := Done]))"
          "(of_nat (count_if is_live (threads s)) :: size_t) - 1 = of_nat (count_if is_live ((threads s)[i := Done]))"
          using thread_update(1,2) [OF i, of Done] by (intro of_nat_minus_one; simp add: polling_def live_def)+
        then have inv': "counters_ok ?s'" "queue_inv ?s'" "workers_inv ?s'"
          using c q w Nil thread_update [OF i, of Done]
          by (auto simp: counters_ok_def queue_inv_def workers_inv_def polling_def live_def max_threads_def)
        from zero_counters(2) [OF inv'(1)] have "running_threads ?p' = 0 \<longleftrightarrow> live ?s' = 0" by simp
        with inv' Nil show ?thesis unfolding step
          by (auto simp: pool_inv_def counters_ok_def queue_inv_def workers_inv_def polling_def live_def max_threads_def)
      qed
    qed
  qed
qed

lemma thread_done_inv:
  assumes inv: "pool_inv s" and i: "i < length (threads s)" "threads s ! i = Working now task"
  shows "pool_inv (thread_done i now task t s)"
  using inv thread_update [OF i, of "Polling t now"]
  by (auto simp: thread_done_def perform_done_def pool_inv_def counters_ok_def queue_inv_def workers_inv_def
    polling_def live_def max_threads_def)

lemma thread_step_inv: "thread_step s s' \<Longrightarrow> pool_inv s \<Longrightarrow> pool_inv s'"
  by (induction rule: thread_step.induct) (auto intro: thread_poll_inv thread_done_inv)

lemma pool_step_inv: "pool_step s s' \<Longrightarrow> pool_inv s \<Longrightarrow> pool_inv s'"
  by (induction rule: pool_step.induct) (auto intro: thread_step_inv client_execute_inv stop_inv)

interpretation pool: step_invariant pool_step pool_inv
  by unfold_locales (rule pool_step_inv)

lemma pool_reachable_inv: "pool_reachable (system_start low hight queue idle t) s \<Longrightarrow> pool_inv s"
  by (erule pool.along) (rule system_start_inv)

text \<open>The limits never change.\<close>

definition limits :: "'task pool \<Rightarrow> size_t \<times> size_t \<times> size_t \<times> size_t" where
  "limits p = (low_watermark p, hight_watermark p, max_queue_size p, idle_time p)"

lemma perform_poll_limits: "limits (snd (perform_poll lt now p)) = limits p"
  by (auto simp: perform_poll_def limits_def Let_def split: list.split)

lemma thread_poll_pool: "s_pool (thread_poll i lt now t s) = snd (perform_poll lt now (s_pool s))"
  by (auto simp: thread_poll_def split: prod.split poll_result.split)

lemma pool_step_limits: "pool_step s s' \<Longrightarrow> limits (s_pool s') = limits (s_pool s)"
proof (induction rule: pool_step.induct)
  case (thread s s')
  then show ?case
  proof (cases rule: thread_step.cases)
    case (poll i lt now t)
    then show ?thesis by (simp add: thread_poll_pool perform_poll_limits)
  next
    case (finish i now task t)
    then show ?thesis by (simp add: thread_done_def perform_done_def limits_def)
  qed
next
  case (execute s task t)
  show ?case by (auto simp: client_execute_def Execute_def limits_def Let_def)
next
  case (stop s)
  show ?case by (simp add: Stop_def limits_def)
qed

interpretation pool_limits: conserved_quantity pool_step "\<lambda>s. limits (s_pool s)"
  by unfold_locales (rule pool_step_limits)

lemma pool_reachable_limits:
  "pool_reachable (system_start low hight queue idle t) s \<Longrightarrow> limits (s_pool s) = (low, hight, queue, idle)"
  by (erule pool_limits.along) (simp_all add: system_start_def Executor_new_def limits_def)


section \<open>Counters, bounds, order\<close>

text \<open>
  C24. In every state the pool reaches, whatever its threads and clients do, \<open>running_threads\<close> is
  the number of threads that have not left, \<open>sleeping_workers\<close> the number of those without a task
  (so that neither counter ever wraps), there are at most \<open>max low_watermark hight_watermark\<close>
  threads and at most \<open>max_queue_size\<close> queued tasks.
\<close>

theorem pool_counters:
  assumes "pool_reachable (system_start low hight queue idle t) s"
  shows "unat (running_threads (s_pool s)) = live s \<and> unat (sleeping_workers (s_pool s)) = polling s \<and>
    live s \<le> max (unat low) (unat hight) \<and> length (tasks (s_pool s)) \<le> unat queue"
proof -
  from pool_reachable_inv [OF assms] have c: "counters_ok s" and q: "queue_inv s" by (simp_all add: pool_inv_def)
  note l = live_size_t [OF c]
  from pool_reachable_limits [OF assms] have "low_watermark (s_pool s) = low" "hight_watermark (s_pool s) = hight"
    "max_queue_size (s_pool s) = queue" by (simp_all add: limits_def)
  with c q unat_of_nat_small [OF l] unat_of_nat_small [OF in_size_t_le [OF l polling_le_live]] show ?thesis
    by (simp add: counters_ok_def queue_inv_def max_threads_def)
qed

definition sample_start :: "nat system" where
  "sample_start = system_start 1 2 4 1000 0"

lemma sample_reachable:
  "pool_reachable sample_start (thread_poll 0 0 0 0 (snd (client_execute 7 0 sample_start)))"
proof -
  have "pool_reachable sample_start (snd (client_execute 7 0 sample_start))"
    by (rule reaches_one [where step = pool_step, OF pool_step.execute])
  moreover have "thread_step (snd (client_execute 7 0 sample_start)) (thread_poll 0 0 0 0 (snd (client_execute 7 0 sample_start)))"
    by (rule thread_step.poll)
      (simp_all add: sample_start_def system_start_def client_execute_def Execute_def Executor_new_def Let_def)
  ultimately show ?thesis by (blast intro: reaches_step pool_step.thread)
qed

lemma pool_counters_witness:
  "let s = thread_poll 0 0 0 0 (snd (client_execute 7 0 sample_start)) in
     unat (running_threads (s_pool s)) = live s \<and> live s \<le> 2"
  using pool_counters [OF sample_reachable [unfolded sample_start_def]] by (simp add: sample_start_def Let_def)

text \<open>
  C23. Tasks are started in the order in which \<open>Execute\<close> accepted them, each accepted task is
  either still queued or was started exactly once, and each started task has ended or is being
  run by exactly one thread.
\<close>

theorem pool_tasks_fifo:
  assumes "pool_reachable (system_start low hight queue idle t) s"
  shows "accepted s = started s @ tasks (s_pool s) \<and> mset (started s) = mset (finished s) + running_tasks (threads s)"
  using pool_reachable_inv [OF assms] by (simp add: pool_inv_def queue_inv_def)

lemma pool_tasks_fifo_witness:
  "let s = thread_poll 0 0 0 0 (snd (client_execute 7 0 sample_start)) in
     accepted s = started s @ tasks (s_pool s) \<and> started s = [7]"
  using pool_tasks_fifo [OF sample_reachable [unfolded sample_start_def]]
  by (simp add: Let_def sample_start_def system_start_def client_execute_def Execute_def Executor_new_def
    thread_poll_def perform_poll_def)

section \<open>Shutdown\<close>

definition working :: "'task system \<Rightarrow> nat" where
  "working s = count_if (\<lambda>x. running_task x \<noteq> []) (threads s)"

lemma live_split: "live s = polling s + working s"
proof -
  have "count_if is_live ths = count_if is_polling ths + count_if (\<lambda>x. running_task x \<noteq> []) ths" for ths :: "'a thread list"
  proof (induction ths)
    case (Cons x xs)
    then show ?case by (cases x) simp_all
  qed simp
  then show ?thesis by (simp add: live_def polling_def working_def)
qed

lemma no_live_no_running: "live s = 0 \<Longrightarrow> running_tasks (threads s) = {#}"
proof -
  assume "live s = 0"
  then have "working s = 0" by (simp add: live_split)
  then have "\<forall>x\<in>set (threads s). running_task x = []"
    by (auto simp: working_def count_if_def filter_empty_conv)
  then show ?thesis by (simp add: running_tasks_def)
qed

text \<open>The work left: three steps for a queued task, two for a running one, one to leave.\<close>

definition pool_work :: "'task system \<Rightarrow> nat" where
  "pool_work s = 3 * length (tasks (s_pool s)) + 2 * working s + polling s"

lemma working_update:
  assumes "i < length (threads s)" "threads s ! i = x"
  shows "count_if (\<lambda>x. running_task x \<noteq> []) ((threads s)[i := y]) + count_if (\<lambda>x. running_task x \<noteq> []) [x] =
    working s + count_if (\<lambda>x. running_task x \<noteq> []) [y]"
  using count_if_update [OF assms(1), of "\<lambda>x. running_task x \<noteq> []" y] assms(2) by (simp add: working_def)

lemma shutdown_step:
  assumes "thread_step s s'" "pool_inv s" "e_state (s_pool s) \<noteq> kRun"
  shows "pool_work s' < pool_work s \<and> e_state (s_pool s') \<noteq> kRun \<and> (live s' = 0 \<longrightarrow> e_state (s_pool s') = kStopped)"
  using assms(1)
proof (cases rule: thread_step.cases)
  case (poll i lt now t)
  show ?thesis
  proof (cases "tasks (s_pool s)")
    case (Cons x xs)
    with poll(1) assms(3) have s': "s' = s\<lparr>s_pool := (s_pool s)\<lparr>sleeping_workers := sleeping_workers (s_pool s) - 1, tasks := xs\<rparr>,
        threads := (threads s)[i := Working now x], started := started s @ [x]\<rparr>"
      by (simp add: thread_poll_def perform_poll_def Let_def)
    from working_update [OF poll(2,3), of "Working now x"] thread_update(1,2) [OF poll(2,3), of "Working now x"]
      count_if_pos [OF poll(2), of is_live] poll(3) Cons assms(3)
    show ?thesis by (simp add: s' pool_work_def polling_def working_def live_def)
  next
    case Nil
    let ?p = "(s_pool s)\<lparr>sleeping_workers := sleeping_workers (s_pool s) - 1, running_threads := running_threads (s_pool s) - 1\<rparr>"
    from poll(1) assms(3) Nil have s': "s' = s\<lparr>s_pool := (if running_threads ?p = 0 then ?p\<lparr>e_state := kStopped\<rparr> else ?p),
        threads := (threads s)[i := Done]\<rparr>"
      by (auto simp: thread_poll_def perform_poll_def Let_def)
    from thread_step_inv [OF assms(1,2)] have "counters_ok s'" by (simp add: pool_inv_def)
    from zero_counters(2) [OF this] have "running_threads (s_pool s') = 0 \<longleftrightarrow> live s' = 0" .
    moreover have "running_threads (s_pool s') = running_threads ?p" unfolding s' by (cases "running_threads ?p = 0") simp_all
    ultimately have z: "running_threads ?p = 0 \<longleftrightarrow> live s' = 0" by argo
    have eq: "e_state (s_pool s') = (if running_threads ?p = 0 then kStopped else e_state (s_pool s))"
      unfolding s' by (cases "running_threads ?p = 0") simp_all
    from working_update [OF poll(2,3), of Done] thread_update(1) [OF poll(2,3), of Done] Nil
    have "pool_work s' < pool_work s" by (simp add: s' pool_work_def polling_def working_def)
    moreover from eq z have "e_state (s_pool s') = (if live s' = 0 then kStopped else e_state (s_pool s))" by argo
    ultimately show ?thesis using assms(3) by simp
  qed
next
  case (finish i now task t)
  from working_update [OF finish(2,3), of "Polling t now"] thread_update(1,2) [OF finish(2,3), of "Polling t now"]
    count_if_pos [OF finish(2), of is_live] finish(3) assms(3)
  show ?thesis
    by (simp add: finish(1) thread_done_def perform_done_def pool_work_def polling_def working_def live_def)
qed

lemma thread_step_exists: "live s > 0 \<Longrightarrow> \<exists>s'. thread_step s s'"
proof -
  assume "live s > 0"
  then obtain x where "x \<in> set (threads s)" "is_live x"
    by (auto simp: live_def count_if_def length_greater_0_conv filter_empty_conv)
  then obtain i where i: "i < length (threads s)" "is_live (threads s ! i)" by (auto simp: in_set_conv_nth)
  show ?thesis
  proof (cases "threads s ! i")
    case (Polling lt now)
    with thread_step.poll [OF i(1)] show ?thesis by blast
  next
    case (Working now task)
    with thread_step.finish [OF i(1)] show ?thesis by blast
  qed (use i(2) in simp)
qed

lemma thread_step_limits: "thread_step s s' \<Longrightarrow> limits (s_pool s') = limits (s_pool s)"
  by (rule pool_step_limits) (rule pool_step.thread)

lemma thread_step_accepted: "thread_step s s' \<Longrightarrow> accepted s' = accepted s"
  by (induction rule: thread_step.induct)
    (auto simp: thread_poll_def thread_done_def split: prod.split poll_result.split)

text \<open>
  The contracts of a pool that is being shut down: its invariant, the limits and accepted tasks that
  stay, and the work that becomes less with every step of a thread.
\<close>

definition shutting_down :: "'task system \<Rightarrow> bool" where
  "shutting_down s \<longleftrightarrow> pool_inv s \<and> e_state (s_pool s) \<noteq> kRun \<and> (live s = 0 \<longrightarrow> e_state (s_pool s) = kStopped)"

interpretation shutdown: decreasing_work thread_step shutting_down pool_work
proof unfold_locales
  fix s t :: "'a system" assume "thread_step s t" "shutting_down s"
  with shutdown_step [of s t] thread_step_inv [of s t] show "shutting_down t" "pool_work t < pool_work s"
    by (auto simp: shutting_down_def)
qed

interpretation thread_keeps: conserved_quantity thread_step "\<lambda>s. (limits (s_pool s), accepted s)"
  by unfold_locales (simp add: thread_step_limits thread_step_accepted)

lemma shutdown_run:
  assumes "(thread_step ^^ n) s s'" "pool_inv s" "e_state (s_pool s) \<noteq> kRun" "0 < live s"
  shows "n + pool_work s' \<le> pool_work s \<and> pool_inv s' \<and> e_state (s_pool s') \<noteq> kRun \<and>
    (live s' = 0 \<longrightarrow> e_state (s_pool s') = kStopped) \<and> limits (s_pool s') = limits (s_pool s) \<and> accepted s' = accepted s"
proof -
  have "shutting_down s" using assms(2-4) by (simp add: shutting_down_def)
  with shutdown.steps_bounded [OF assms(1)] shutdown.along_n [OF assms(1)] thread_keeps.along_n [OF assms(1) refl]
  show ?thesis by (simp add: shutting_down_def)
qed

text \<open>
  C10. Every shutdown ends: once \<open>Stop\<close> was called on a pool that still has a thread, the threads
  make at most \<open>3 queued + 2 running + 1 waiting\<close> more steps however they are scheduled, and when
  none is left to make the pool is in \<open>kStopped\<close>, no thread is alive, the wait of \<open>Stop(true)\<close> is
  over and every task that was ever accepted has been executed to its end.
\<close>

theorem pool_shutdown:
  assumes "pool_reachable (system_start low hight queue idle t) s" "0 < hight"
    "e_state (s_pool s) \<noteq> kRun" "0 < live s" "(thread_step ^^ n) s s'"
  shows "n \<le> pool_work s \<and>
    ((\<nexists>s''. thread_step s' s'') \<longrightarrow> e_state (s_pool s') = kStopped \<and> live s' = 0 \<and> Stop_returns (s_pool s') \<and>
      tasks (s_pool s') = [] \<and> mset (finished s') = mset (accepted s))"
proof -
  from shutdown_run [OF assms(5) pool_reachable_inv [OF assms(1)] assms(3,4)]
  have run: "n + pool_work s' \<le> pool_work s" "pool_inv s'" "live s' = 0 \<Longrightarrow> e_state (s_pool s') = kStopped"
    "limits (s_pool s') = limits (s_pool s)" "accepted s' = accepted s" by auto
  from run(4) pool_reachable_limits [OF assms(1)] assms(2) have h: "0 < hight_watermark (s_pool s')"
    by (simp add: limits_def)
  from run(2) have c: "counters_ok s'" and q: "queue_inv s'" and w: "workers_inv s'" by (simp_all add: pool_inv_def)
  have "e_state (s_pool s') = kStopped \<and> live s' = 0 \<and> Stop_returns (s_pool s') \<and>
      tasks (s_pool s') = [] \<and> mset (finished s') = mset (accepted s)" if "\<nexists>s''. thread_step s' s''"
  proof -
    from that thread_step_exists [of s'] have live: "live s' = 0" by auto
    with w h have "tasks (s_pool s') = []" by (auto simp: workers_inv_def)
    with live run(3,5) zero_counters(2) [OF c] q no_live_no_running [OF live] show ?thesis
      by (simp add: Stop_returns_def queue_inv_def)
  qed
  with run(1) show ?thesis by simp
qed

lemma pool_shutdown_witness:
  "let s = sample_start\<lparr>s_pool := Stop (s_pool sample_start)\<rparr>; s' = thread_poll 0 0 0 0 s in
     e_state (s_pool s') = kStopped \<and> 1 \<le> pool_work s"
proof -
  let ?s = "sample_start\<lparr>s_pool := Stop (s_pool sample_start)\<rparr>"
  let ?s' = "thread_poll 0 0 0 0 ?s"
  have reach: "pool_reachable sample_start ?s" by (rule reaches_one [where step = pool_step, OF pool_step.stop])
  have step: "thread_step ?s ?s'"
    by (rule thread_step.poll) (simp_all add: sample_start_def system_start_def)
  have s': "threads ?s' = [Done]"
    by (simp add: sample_start_def system_start_def Executor_new_def Stop_def thread_poll_def perform_poll_def)
  have "\<nexists>s''. thread_step ?s' s''" by (auto simp: s' elim!: thread_step.cases)
  moreover have "(thread_step ^^ 1) ?s ?s'" unfolding relpowp_1 by (rule step)
  ultimately show ?thesis using pool_shutdown [of 1 2 4 1000 0 ?s 1 ?s'] reach
    by (simp add: Let_def sample_start_def system_start_def Executor_new_def Stop_def live_def)
qed


section \<open>What is not as intended\<close>

lemma no_live_step:
  assumes "pool_step s s'" "pool_inv s" "live s = 0" "e_state (s_pool s) = kStopping"
  shows "live s' = 0 \<and> e_state (s_pool s') = kStopping"
  using assms(1)
proof (cases rule: pool_step.cases)
  case thread
  then have "0 < live s"
    using count_if_pos [where P = is_live and xs = "threads s"] by (cases rule: thread_step.cases) (auto simp: live_def)
  with assms(3) show ?thesis by simp
next
  case (execute task t)
  with assms(3,4) show ?thesis by (simp add: client_execute_def Execute_def live_def)
next
  case stop
  with assms(3) show ?thesis by (simp add: Stop_def live_def)
qed

interpretation abandoned: step_invariant pool_step "\<lambda>s. pool_inv s \<and> live s = 0 \<and> e_state (s_pool s) = kStopping"
  by unfold_locales (auto dest: no_live_step pool_step_inv)

text \<open>
  A pool whose workers have all left, as every pool with \<open>low_watermark\<close> 0 has before its first
  task, never reports that it stopped: after \<open>Stop\<close> it stays in \<open>kStopping\<close> for ever, since only a
  leaving worker sets \<open>kStopped\<close>; a second \<open>Stop\<close> on a stopped pool takes \<open>kStopped\<close> back likewise.
\<close>

theorem stop_without_workers:
  assumes "pool_reachable (system_start low hight queue idle t) s" "live s = 0"
    "pool_reachable (s\<lparr>s_pool := Stop (s_pool s)\<rparr>) s'"
  shows "e_state (s_pool s') = kStopping"
proof -
  have "pool_inv s' \<and> live s' = 0 \<and> e_state (s_pool s') = kStopping"
    by (rule abandoned.along [OF assms(3)])
      (use stop_inv [OF pool_reachable_inv [OF assms(1)]] assms(2) in \<open>simp add: Stop_def live_def\<close>)
  then show ?thesis by simp
qed

lemma stop_without_workers_witness:
  "let s = system_start 0 10 10 1000 0 :: nat system; s1 = s\<lparr>s_pool := Stop (s_pool s)\<rparr>;
     s2 = s1\<lparr>s_pool := Stop (s_pool s1)\<rparr> in e_state (s_pool s2) = kStopping"
proof -
  let ?s = "system_start 0 10 10 1000 0 :: nat system"
  let ?s1 = "?s\<lparr>s_pool := Stop (s_pool ?s)\<rparr>"
  have "live ?s = 0" by (simp add: live_def system_start_def)
  from stop_without_workers [OF reaches_refl this reaches_one [where step = pool_step, OF pool_step.stop]]
  show ?thesis by (simp add: Let_def)
qed

lemma late_now:
  assumes "now + 1000000 \<le> lt" "lt - now < 2 ^ 62" "unat (idle_time p) \<le> 2 ^ 63"
  shows "\<not> within_idle_time lt now p"
proof -
  let ?d = "(now - lt) sdiv 1000000"
  let ?k = "(lt - now) div 1000000"
  have d: "?d = - ?k" using assms(1) by (simp add: signed_divide_int_def sgn_if)
  have k: "1 \<le> ?k" "?k < 2 ^ 62" using assms(1,2) by auto
  have "uint (word_of_int ?d :: size_t) = 2 ^ 64 - ?k"
  proof -
    have "take_bit 64 (- ?k) = 2 ^ 64 - ?k" using k by (simp add: take_bit_int_def zmod_zminus1_eq_if)
    with k show ?thesis unfolding d by (simp add: unsigned_of_int del: of_int_minus)
  qed
  then have "2 ^ 63 \<le> unat (word_of_int ?d :: size_t)" using k by (simp add: unat_eq_nat_uint)
  with assms(3) show ?thesis by (simp add: within_idle_time_def word_less_nat_alt)
qed

text \<open>
  Idle workers do not wait. After a task the worker compares a \<open>now\<close> from before the task with
  the time of its end; the negative difference becomes a huge unsigned number, so on an empty
  queue it does not sleep for \<open>idle_time\<close> but leaves at once or, when it is one of the last
  \<open>low_watermark\<close> workers, looks at the queue again with the same times and the pool unchanged,
  which repeats without end and without a wait for as long as no task arrives.
\<close>

theorem idle_worker_spins:
  assumes "now + 1000000 \<le> lt" "lt - now < 2 ^ 62" "unat (idle_time p) \<le> 2 ^ 63" "tasks p = []" "e_state p = kRun"
  shows "fst (perform_poll lt now p) \<noteq> Wait \<and>
    (sleeping_workers p - 1 < low_watermark p \<longrightarrow> perform_poll lt now p = (Again, p)) \<and>
    (low_watermark p \<le> sleeping_workers p - 1 \<longrightarrow> fst (perform_poll lt now p) = Leave)"
  using late_now [OF assms(1-3)] assms(4,5) by (simp add: perform_poll_def Let_def not_less)

lemma idle_worker_spins_witness:
  "perform_poll 5000000 0 (Executor_new 1 2 4 1000 :: nat pool) = (Again, Executor_new 1 2 4 1000)"
  using idle_worker_spins [of 0 5000000 "Executor_new 1 2 4 1000 :: nat pool"] by (simp add: Executor_new_def)

end
