(* ===== verification/Blocking_System.thy ===== *)
theory Blocking_System
  imports Connections_Progress Executor_Facts
begin

text \<open>
  The multi-threaded blocking server as a whole (\<open>src/network/mt_blocking/ServerImpl.cpp\<close>): the acceptor
  thread of \<open>OnRun\<close>, the thread pool whose tasks are the accepted connections, the loops of
  \<open>ProcessConnection\<close> on the shared storage, and the main thread, which calls \<open>Stop\<close> and \<open>Join\<close>.
\<close>

section \<open>The threads\<close>

text \<open>
  The acceptor tests \<open>running\<close>, waits in \<open>accept\<close>, is past the loop, waits in \<open>thread_pool.Stop(true)\<close>,
  or has ended. The main thread has not called \<open>Stop\<close> yet, joins the acceptor, waits in its own
  \<open>thread_pool.Stop(true)\<close>, or has left \<open>Join\<close>.
\<close>

datatype acceptor_at = AcceptorTests | AcceptorAccepts | AcceptorStops | AcceptorWaits | AcceptorGone

datatype main_at = MainServes | MainJoins | MainWaits | MainLeft

text \<open>
  Connections are numbered as \<open>accept\<close> returns them; the task of connection \<open>i\<close> is \<open>i\<close>. \<open>bs_next\<close> is the
  number of the next one, and \<open>bs_refused\<close> has those that the pool did not take, which are closed at once.
\<close>

record blocking_system =
  bs_pool :: "nat system"
  bs_conns :: connections
  bs_acceptor :: acceptor_at
  bs_main :: main_at
  bs_next :: nat
  bs_refused :: "nat list"

definition blocking_start :: "nat system \<Rightarrow> connections \<Rightarrow> blocking_system" where
  "blocking_start p c = \<lparr>bs_pool = p, bs_conns = c, bs_acceptor = AcceptorTests, bs_main = MainServes,
     bs_next = 0, bs_refused = []\<rparr>"

text \<open>\<open>ProcessConnection\<close> has nothing left to do.\<close>

definition connection_over :: "connections \<Rightarrow> nat \<Rightarrow> bool" where
  "connection_over c i \<longleftrightarrow> sv_client (cs_serving c) i = NoCommand \<and> idle_thread (cs_thread c i)"

inductive blocking_step :: "blocking_system \<Rightarrow> blocking_system \<Rightarrow> bool" where
  accept_test: "bs_acceptor s = AcceptorTests \<Longrightarrow>
    blocking_step s (s\<lparr>bs_acceptor := if cs_running (bs_conns s) then AcceptorAccepts else AcceptorStops\<rparr>)"
| accept_fails: "bs_acceptor s = AcceptorAccepts \<Longrightarrow> blocking_step s (s\<lparr>bs_acceptor := AcceptorTests\<rparr>)"
| accepts: "bs_acceptor s = AcceptorAccepts \<Longrightarrow> client_execute (bs_next s) t (bs_pool s) = (ok, p) \<Longrightarrow>
    blocking_step s (s\<lparr>bs_pool := p, bs_acceptor := AcceptorTests, bs_next := bs_next s + 1,
      bs_refused := bs_refused s @ (if ok then [] else [bs_next s])\<rparr>)"
| acceptor_stops: "bs_acceptor s = AcceptorStops \<Longrightarrow>
    blocking_step s (s\<lparr>bs_pool := (bs_pool s)\<lparr>s_pool := Stop (s_pool (bs_pool s))\<rparr>, bs_acceptor := AcceptorWaits\<rparr>)"
| acceptor_returns: "bs_acceptor s = AcceptorWaits \<Longrightarrow> Stop_returns (s_pool (bs_pool s)) \<Longrightarrow>
    blocking_step s (s\<lparr>bs_acceptor := AcceptorGone\<rparr>)"
| worker_polls: "w < length (threads (bs_pool s)) \<Longrightarrow> threads (bs_pool s) ! w = Polling lt now \<Longrightarrow>
    blocking_step s (s\<lparr>bs_pool := thread_poll w lt now t (bs_pool s)\<rparr>)"
| task_step: "w < length (threads (bs_pool s)) \<Longrightarrow> threads (bs_pool s) ! w = Executor.thread.Working now i \<Longrightarrow>
    connection_moves i (bs_conns s) c \<Longrightarrow> blocking_step s (s\<lparr>bs_conns := c\<rparr>)"
| task_ends: "w < length (threads (bs_pool s)) \<Longrightarrow> threads (bs_pool s) ! w = Executor.thread.Working now i \<Longrightarrow>
    connection_over (bs_conns s) i \<Longrightarrow> blocking_step s (s\<lparr>bs_pool := thread_done w now i t (bs_pool s)\<rparr>)"
| main_stop: "bs_main s = MainServes \<Longrightarrow>
    blocking_step s (s\<lparr>bs_conns := (bs_conns s)\<lparr>cs_running := False\<rparr>, bs_main := MainJoins\<rparr>)"
| main_joins: "bs_main s = MainJoins \<Longrightarrow> bs_acceptor s = AcceptorGone \<Longrightarrow>
    blocking_step s (s\<lparr>bs_pool := (bs_pool s)\<lparr>s_pool := Stop (s_pool (bs_pool s))\<rparr>, bs_main := MainWaits\<rparr>)"
| main_returns: "bs_main s = MainWaits \<Longrightarrow> Stop_returns (s_pool (bs_pool s)) \<Longrightarrow>
    blocking_step s (s\<lparr>bs_main := MainLeft\<rparr>)"

section \<open>What the parts see of a step\<close>

lemma blocking_step_pool: "blocking_step s t \<Longrightarrow> bs_pool t = bs_pool s \<or> pool_step (bs_pool s) (bs_pool t)"
proof (induction rule: blocking_step.induct)
  case (accepts s t ok p)
  with pool_step.execute [of "bs_pool s" "bs_next s" t] show ?case by simp
qed (auto intro: pool_step.stop pool_step.thread thread_step.intros)

lemma blocking_step_conns:
  "blocking_step s t \<Longrightarrow> (bs_main s = MainServes \<longrightarrow> cs_running (bs_conns s)) \<Longrightarrow>
    bs_conns t = bs_conns s \<or> connection_step (bs_conns s) (bs_conns t)"
  by (induction rule: blocking_step.induct) (auto simp: connection_moves_def intro: connection_step.stop)

text \<open>How far the acceptor and the main thread have come.\<close>

definition control_inv :: "blocking_system \<Rightarrow> bool" where
  "control_inv s \<longleftrightarrow> pool_inv (bs_pool s) \<and> (cs_running (bs_conns s) \<longleftrightarrow> bs_main s = MainServes) \<and>
     (bs_acceptor s \<in> {AcceptorStops, AcceptorWaits, AcceptorGone} \<longrightarrow> \<not> cs_running (bs_conns s)) \<and>
     (bs_acceptor s \<in> {AcceptorWaits, AcceptorGone} \<longrightarrow> e_state (s_pool (bs_pool s)) \<noteq> kRun) \<and>
     (bs_acceptor s = AcceptorGone \<longrightarrow> live (bs_pool s) = 0) \<and>
     (bs_main s \<in> {MainWaits, MainLeft} \<longrightarrow> bs_acceptor s = AcceptorGone)"

lemma pool_inv_returns: "pool_inv s \<Longrightarrow> Stop_returns (s_pool s) \<longleftrightarrow> live s = 0"
  using zero_counters(2) [of s] by (simp add: pool_inv_def Stop_returns_def)

lemma live_index: "w < length (threads s) \<Longrightarrow> is_live (threads s ! w) \<Longrightarrow> 0 < live s"
  using count_if_pos [of w "threads s" is_live] by (simp add: live_def)

lemma stop_simps: "e_state (Stop p) = kStopping" "live (s\<lparr>s_pool := q\<rparr>) = live s" "pool_work (s\<lparr>s_pool := Stop (s_pool s)\<rparr>) = pool_work s"
  by (simp_all add: Stop_def live_def pool_work_def working_def polling_def)

lemma control_inv_worker:
  assumes "control_inv s" "Executor.thread_step (bs_pool s) p"
  shows "control_inv (s\<lparr>bs_pool := p\<rparr>)"
proof -
  from assms(1) have inv: "pool_inv (bs_pool s)" by (simp add: control_inv_def)
  from assms(2) have "0 < live (bs_pool s)"
    by (cases rule: thread_step.cases) (auto intro: live_index)
  with assms shutdown_step [OF assms(2) inv] thread_step_inv [OF assms(2) inv] show ?thesis
    by (auto simp: control_inv_def)
qed

lemma control_inv_step: "blocking_step s t \<Longrightarrow> control_inv s \<Longrightarrow> control_inv t"
proof (induction rule: blocking_step.induct)
  case (accepts s t ok p)
  with client_execute_inv [of "bs_pool s" "bs_next s" t] show ?case by (auto simp: control_inv_def)
next
  case (acceptor_stops s)
  with stop_inv [of "bs_pool s"] show ?case by (auto simp: control_inv_def stop_simps)
next
  case (main_joins s)
  with stop_inv [of "bs_pool s"] show ?case by (auto simp: control_inv_def stop_simps)
next
  case (worker_polls w s lt now t)
  then show ?case by (auto intro!: control_inv_worker thread_step.poll)
next
  case (task_ends w s now i t)
  then show ?case by (auto intro!: control_inv_worker thread_step.finish)
next
  case (task_step w s now i c)
  then show ?case by (auto simp: control_inv_def connection_moves_def)
next
  case (acceptor_returns s)
  then show ?case using pool_inv_returns [of "bs_pool s"] by (auto simp: control_inv_def)
qed (auto simp: control_inv_def)

interpretation control: step_invariant blocking_step control_inv
  by unfold_locales (rule control_inv_step)

interpretation as_pool: refinement_map blocking_step control_inv pool_step bs_pool
  by unfold_locales (rule blocking_step_pool)

interpretation as_connections: refinement_map blocking_step control_inv connection_step bs_conns
  by unfold_locales (rule blocking_step_conns, auto simp: control_inv_def)


section \<open>Which thread serves which connection\<close>

text \<open>Every connection is refused, queued, served by one worker or over, and not yet touched before that.\<close>

definition untouched :: "connections \<Rightarrow> connections \<Rightarrow> nat \<Rightarrow> bool" where
  "untouched c0 c i \<longleftrightarrow> cs_thread c i = cs_thread c0 i \<and> sv_client (cs_serving c) i = NoCommand"

definition tasks_inv :: "connections \<Rightarrow> blocking_system \<Rightarrow> bool" where
  "tasks_inv c0 s \<longleftrightarrow> mset (accepted (bs_pool s) @ bs_refused s) = mset [0..<bs_next s] \<and>
     (\<forall>i. i \<notin> set (started (bs_pool s)) \<longrightarrow> untouched c0 (bs_conns s) i) \<and>
     (\<forall>i \<in> set (finished (bs_pool s)). connection_over (bs_conns s) i)"

lemma running_task_started: "queue_inv p \<Longrightarrow> w < length (threads p) \<Longrightarrow> threads p ! w = Executor.thread.Working now i \<Longrightarrow>
    i \<in># running_tasks (threads p) \<and> i \<in> set (started p)"
proof -
  assume q: "queue_inv p" and w: "w < length (threads p)" "threads p ! w = Executor.thread.Working now i"
  then have "i \<in># running_tasks (threads p)" by (force simp: running_tasks_def in_set_conv_nth)
  with q show ?thesis by (auto simp: queue_inv_def dest: arg_cong [of _ _ set_mset])
qed

text \<open>A connection has one task only, so the one that a worker runs is not over.\<close>

lemma running_task_unfinished:
  assumes "tasks_inv c0 s" "queue_inv (bs_pool s)" "w < length (threads (bs_pool s))"
    "threads (bs_pool s) ! w = Executor.thread.Working now i"
  shows "i \<notin> set (finished (bs_pool s))"
proof -
  let ?p = "bs_pool s"
  from assms(1) have "distinct (accepted ?p @ bs_refused s)"
    by (metis tasks_inv_def distinct_upt mset_eq_imp_distinct_iff)
  with assms(2) have "distinct (started ?p)" by (simp add: queue_inv_def)
  then have "count (mset (started ?p)) i \<le> 1" by (simp add: distinct_count_atmost_1)
  with assms(2) running_task_started [OF assms(2-4)] show ?thesis
    by (auto simp: queue_inv_def simp flip: count_greater_zero_iff set_mset_mset)
qed

lemma thread_poll_shows: "accepted (thread_poll w lt now t p) = accepted p \<and> finished (thread_poll w lt now t p) = finished p \<and>
    set (started p) \<subseteq> set (started (thread_poll w lt now t p))"
  by (auto simp: thread_poll_def split: prod.split poll_result.split)

lemma client_execute_shows: "client_execute i t p = (ok, q) \<Longrightarrow>
    accepted q = accepted p @ (if ok then [i] else []) \<and> finished q = finished p \<and> started q = started p"
  by (auto simp: client_execute_def split: prod.splits)

lemma tasks_inv_step: "blocking_step s t \<Longrightarrow> control_inv s \<Longrightarrow> tasks_inv c0 s \<Longrightarrow> tasks_inv c0 t"
proof (induction rule: blocking_step.induct)
  case (accepts s t ok p)
  with client_execute_shows [OF accepts(2)] show ?case by (auto simp: tasks_inv_def)
next
  case (worker_polls w s lt now t)
  with thread_poll_shows [of w lt now t "bs_pool s"] show ?case by (auto simp: tasks_inv_def)
next
  case (task_step w s now i c)
  then have q: "queue_inv (bs_pool s)" by (simp add: control_inv_def pool_inv_def)
  have "j \<noteq> i" if "j \<notin> set (started (bs_pool s)) \<or> j \<in> set (finished (bs_pool s))" for j
    using that running_task_started [OF q task_step.hyps(1,2)] running_task_unfinished [OF task_step.prems(2) q task_step.hyps(1,2)] by auto
  with task_step.hyps(3) task_step.prems(2) show ?case
    by (simp add: tasks_inv_def connection_moves_def untouched_def connection_over_def)
next
  case (task_ends w s now i t)
  then show ?case by (auto simp: tasks_inv_def thread_done_def)
next
  case (main_stop s)
  then show ?case by (auto simp: tasks_inv_def untouched_def connection_over_def)
qed (simp_all add: tasks_inv_def)

definition blocking_inv :: "connections \<Rightarrow> blocking_system \<Rightarrow> bool" where
  "blocking_inv c0 s \<longleftrightarrow> control_inv s \<and> tasks_inv c0 s"

interpretation blocking: step_invariant blocking_step "blocking_inv c0" for c0
  by unfold_locales (auto simp: blocking_inv_def intro: control_inv_step tasks_inv_step)

text \<open>The server on a new pool, with the connections as the clients will use them.\<close>

definition server_start :: "size_t \<Rightarrow> size_t \<Rightarrow> size_t \<Rightarrow> size_t \<Rightarrow> int \<Rightarrow> connections \<Rightarrow> blocking_system" where
  "server_start low hight queue idle t c = blocking_start (system_start low hight queue idle t) c"

abbreviation server_reachable :: "blocking_system \<Rightarrow> blocking_system \<Rightarrow> bool" where
  "server_reachable \<equiv> reaches blocking_step"

lemma server_start_inv:
  "blocking_inv (connections_start s0 reads ses) (server_start low hight queue idle t (connections_start s0 reads ses))"
  by (auto simp: blocking_inv_def control_inv_def tasks_inv_def server_start_def blocking_start_def system_start_inv
    connections_start_def serving_start_def untouched_def) (simp_all add: system_start_def)

section \<open>When no thread is left\<close>

lemma no_thread_left:
  assumes "blocking_inv c0 s" "0 < hight_watermark (s_pool (bs_pool s))" "live (bs_pool s) = 0" "i < bs_next s"
  shows "tasks (s_pool (bs_pool s)) = [] \<and>
    (if i \<in> set (bs_refused s) then untouched c0 (bs_conns s) i
     else i \<in> set (finished (bs_pool s)) \<and> connection_over (bs_conns s) i)"
proof -
  let ?p = "bs_pool s"
  from assms(1) have inv: "queue_inv ?p" "workers_inv ?p" "tasks_inv c0 s"
    by (simp_all add: blocking_inv_def control_inv_def pool_inv_def)
  from inv(2) assms(2,3) have tasks: "tasks (s_pool ?p) = []" by (auto simp: workers_inv_def)
  with inv(1) no_live_no_running [OF assms(3)] have fin: "accepted ?p = started ?p" "mset (started ?p) = mset (finished ?p)"
    by (simp_all add: queue_inv_def)
  from inv(3) have m: "mset (accepted ?p @ bs_refused s) = mset [0..<bs_next s]" by (simp add: tasks_inv_def)
  from m assms(4) have all: "i \<in> set (accepted ?p) \<or> i \<in> set (bs_refused s)"
    by (metis Un_iff atLeastLessThan_iff le0 mset_eq_setD set_append set_upt)
  from m have "distinct (accepted ?p @ bs_refused s)" by (metis distinct_upt mset_eq_imp_distinct_iff)
  then have "i \<notin> set (started ?p)" if "i \<in> set (bs_refused s)" using that fin(1) by auto
  with all inv(3) fin tasks show ?thesis
    by (metis mset_eq_setD tasks_inv_def)
qed


section \<open>The shutdown goes on\<close>

definition serves_well :: "nat \<Rightarrow> nat \<Rightarrow> simple_lru \<Rightarrow> (nat \<Rightarrow> (command \<times> string) list option) \<Rightarrow> connections \<Rightarrow> blocking_system \<Rightarrow> bool" where
  "serves_well cap n s0 all c0 s \<longleftrightarrow> blocking_inv c0 s \<and> progress_inv cap n s0 all (bs_conns s)"

lemma serves_well_step:
  assumes "blocking_step s t" "serves_well cap n s0 all c0 s"
  shows "serves_well cap n s0 all c0 t"
proof -
  from assms(2) have inv: "blocking_inv c0 s" "progress_inv cap n s0 all (bs_conns s)" by (simp_all add: serves_well_def)
  then have "bs_conns t = bs_conns s \<or> connection_step (bs_conns s) (bs_conns t)"
    by (intro blocking_step_conns [OF assms(1)]) (simp add: blocking_inv_def control_inv_def)
  with connection_step_progress inv(2) have "progress_inv cap n s0 all (bs_conns t)" by metis
  with blocking.preserved [OF assms(1) inv(1)] show ?thesis by (simp add: serves_well_def)
qed

text \<open>A thread that executes a command belongs to a worker, so the owner of the lock does.\<close>

lemma busy_has_worker:
  assumes "blocking_inv (connections_start s0 reads ses) s" "sv_client (cs_serving (bs_conns s)) i \<noteq> NoCommand"
  shows "\<exists>w now. w < length (threads (bs_pool s)) \<and> threads (bs_pool s) ! w = Executor.thread.Working now i"
proof -
  let ?p = "bs_pool s"
  from assms have "i \<in> set (started ?p)" "i \<notin> set (finished ?p)"
    by (auto simp: blocking_inv_def tasks_inv_def untouched_def connection_over_def)
  moreover from assms(1) have "mset (started ?p) = mset (finished ?p) + running_tasks (threads ?p)"
    by (simp add: blocking_inv_def control_inv_def pool_inv_def queue_inv_def)
  ultimately have "i \<in># running_tasks (threads ?p)" by (metis set_mset_mset union_iff)
  then obtain w where w: "w < length (threads ?p)" "i \<in> set (running_task (threads ?p ! w))"
    by (auto simp: running_tasks_def in_set_conv_nth [of _ "threads ?p"])
  then show ?thesis by (cases "threads ?p ! w") auto
qed

lemma task_goes_on:
  assumes inv: "serves_well cap n s0 all (connections_start s0 reads ses) s" and defined: "\<not> stuck_in_call (bs_conns s)"
    and w: "w < length (threads (bs_pool s))" "threads (bs_pool s) ! w = Executor.thread.Working now i"
  shows "\<exists>t. blocking_step s t"
proof -
  let ?c = "bs_conns s"
  from inv have b: "blocking_inv (connections_start s0 reads ses) s" and p: "progress_inv cap n s0 all ?c"
    by (simp_all add: serves_well_def)
  show ?thesis
  proof (cases "ts_owner (sv_storage (cs_serving ?c))")
    case (Some j)
    with owner_goes_on [OF progress_invD(4,2) [OF p] Some] defined obtain sv where sv: "serving_moves j (cs_serving ?c) sv"
      by (auto simp: stuck_in_call_def)
    from progress_invD(4) [OF p] Some have "phase_of (cs_serving ?c) j \<noteq> Outside" by (simp add: serving_inv_def ts_inv_def)
    with serving_invD [OF progress_invD(4) [OF p], of j] have "sv_client (cs_serving ?c) j \<noteq> NoCommand" by auto
    from busy_has_worker [OF b this] storage_moves [OF sv] show ?thesis by (blast intro: blocking_step.task_step)
  next
    case None
    have moves: "\<exists>t. blocking_step s t" if "\<exists>c. connection_moves i ?c c" using that blocking_step.task_step [OF w] by blast
    show ?thesis
    proof (cases "sv_client (cs_serving ?c) i = NoCommand")
      case False
      from client_goes_on [OF progress_invD(4) [OF p] None False] storage_moves moves show ?thesis by blast
    next
      case True
      with thread_goes_on [OF p True] moves blocking_step.task_ends [OF w] show ?thesis
        unfolding connection_over_def by blast
    qed
  qed
qed

lemma worker_goes_on:
  assumes "serves_well cap n s0 all (connections_start s0 reads ses) s" "\<not> stuck_in_call (bs_conns s)" "0 < live (bs_pool s)"
  shows "\<exists>t. blocking_step s t"
proof -
  from thread_step_exists [OF assms(3)] obtain p where "Executor.thread_step (bs_pool s) p" ..
  then show ?thesis
  proof cases
    case (poll w lt now t)
    with blocking_step.worker_polls show ?thesis by blast
  next
    case (finish w now i t)
    with task_goes_on [OF assms(1,2)] show ?thesis by blast
  qed
qed

lemma shutdown_goes_on:
  assumes "serves_well cap n s0 all (connections_start s0 reads ses) s" "bs_acceptor s \<in> {AcceptorWaits, AcceptorGone}"
    "\<not> stuck_in_call (bs_conns s)" "\<nexists>t. blocking_step s t"
  shows "bs_main s = MainLeft \<and> live (bs_pool s) = 0"
proof -
  from assms(1) have c: "control_inv s" by (simp add: serves_well_def blocking_inv_def)
  from worker_goes_on [OF assms(1,3)] assms(4) have live: "live (bs_pool s) = 0" by blast
  with c have ret: "Stop_returns (s_pool (bs_pool s))" using pool_inv_returns [of "bs_pool s"] by (simp add: control_inv_def)
  from assms(2,4) ret have "bs_acceptor s = AcceptorGone" using blocking_step.acceptor_returns by blast
  with c assms(4) ret show ?thesis
    using live blocking_step.main_joins [of s] blocking_step.main_returns [of s]
    by (cases "bs_main s") (auto simp: control_inv_def)
qed

section \<open>The work that a shutdown leaves\<close>

fun acceptor_left :: "acceptor_at \<Rightarrow> nat" where
  "acceptor_left AcceptorWaits = 1"
| "acceptor_left _ = 0"

fun main_left :: "main_at \<Rightarrow> nat" where
  "main_left MainJoins = 2"
| "main_left MainWaits = 1"
| "main_left _ = 0"

definition shutdown_work :: "nat \<Rightarrow> nat \<Rightarrow> blocking_system \<Rightarrow> nat" where
  "shutdown_work cap n s = pool_work (bs_pool s) + total_work cap n (bs_conns s) +
     acceptor_left (bs_acceptor s) + main_left (bs_main s)"

definition being_stopped :: "blocking_system \<Rightarrow> bool" where
  "being_stopped s \<longleftrightarrow> bs_acceptor s \<in> {AcceptorWaits, AcceptorGone}"

lemma being_stopped_step:
  assumes "blocking_step s t" "serves_well cap n s0 all c0 s" "being_stopped s"
  shows "being_stopped t \<and> shutdown_work cap n t < shutdown_work cap n s"
proof -
  from assms(2) have c: "control_inv s" and p: "progress_inv cap n s0 all (bs_conns s)"
    by (simp_all add: serves_well_def blocking_inv_def)
  from c assms(3) have st: "e_state (s_pool (bs_pool s)) \<noteq> kRun" "pool_inv (bs_pool s)" "bs_main s \<noteq> MainServes"
    by (auto simp: control_inv_def being_stopped_def)
  from assms(1) show ?thesis
  proof cases
    case (worker_polls w lt now t)
    from shutdown_step [OF thread_step.poll [OF worker_polls(2,3)] st(2,1)] assms(3) show ?thesis
      by (simp add: worker_polls(1) being_stopped_def shutdown_work_def)
  next
    case (task_step w now i d)
    then have "connection_step (bs_conns s) d" by (simp add: connection_moves_def)
    from connection_step_progress [OF this p] assms(3) show ?thesis
      by (simp add: task_step(1) being_stopped_def shutdown_work_def)
  next
    case (task_ends w now i t)
    from shutdown_step [OF thread_step.finish [OF task_ends(2,3)] st(2,1)] assms(3) show ?thesis
      by (simp add: task_ends(1) being_stopped_def shutdown_work_def)
  qed (use assms(3) st(3) in \<open>auto simp: being_stopped_def shutdown_work_def stop_simps\<close>)
qed

interpretation stopping: decreasing_work blocking_step "\<lambda>s. serves_well cap n s0 all c0 s \<and> being_stopped s" "shutdown_work cap n" for cap n s0 all c0
  by unfold_locales (auto dest: being_stopped_step serves_well_step)

interpretation serving_well: step_invariant blocking_step "serves_well cap n s0 all c0" for cap n s0 all c0
  by unfold_locales (rule serves_well_step)


lemma server_hight:
  assumes "server_reachable (server_start low hight queue idle t (connections_start s0 reads ses)) s" "0 < hight"
  shows "0 < hight_watermark (s_pool (bs_pool s))"
proof -
  from server_start_inv have "control_inv (server_start low hight queue idle t (connections_start s0 reads ses))"
    by (simp add: blocking_inv_def)
  from as_pool.run_simulated [OF assms(1) this] have "pool_reachable (system_start low hight queue idle t) (bs_pool s)"
    by (simp add: server_start_def blocking_start_def)
  from pool_reachable_limits [OF this] assms(2) show ?thesis by (simp add: limits_def)
qed

text \<open>What the clients got, of connections that were refused and of those that are over.\<close>

lemma refused_unanswered:
  assumes "progress_inv cap n s0 (\<lambda>i. request_list (concat (reads i)) (ses i)) c" "untouched (connections_start s0 reads ses) c i"
  shows "answers_of i (sv_replies (cs_serving c)) = []"
  using progress_inv_to_ask [OF assms(1), of i] assms(2)
  by (auto simp: untouched_def connections_start_def to_ask_def asked_def)

lemma served_at_end:
  assumes "serves_well cap n s0 (\<lambda>i. request_list (concat (reads i)) (ses i)) (connections_start s0 reads ses) s"
    "0 < hight_watermark (s_pool (bs_pool s))" "live (bs_pool s) = 0" "i < bs_next s"
  shows "\<exists>rs later. request_list (concat (reads i)) (ses i) = Some rs \<and>
    rs = map sent (answers_of i (sv_replies (cs_serving (bs_conns s)))) @ later \<and>
    (if i \<in> set (bs_refused s) then later = rs
     else connection_over (bs_conns s) i \<and> (ct_cut (cs_thread (bs_conns s) i) \<or> later = []))"
proof -
  from assms(1) have b: "blocking_inv (connections_start s0 reads ses) s"
    and p: "progress_inv cap n s0 (\<lambda>i. request_list (concat (reads i)) (ses i)) (bs_conns s)" by (simp_all add: serves_well_def)
  from no_thread_left [OF b assms(2-4)] consider
    (refused) "i \<in> set (bs_refused s)" "untouched (connections_start s0 reads ses) (bs_conns s) i"
  | (over) "i \<notin> set (bs_refused s)" "connection_over (bs_conns s) i" by (auto split: if_splits)
  then show ?thesis
  proof cases
    case refused
    obtain rs where "request_list (concat (reads i)) (ses i) = Some rs" using p unfolding progress_inv_def by blast
    with refused refused_unanswered [OF p refused(2)] show ?thesis by simp
  next
    case over
    with over_served [OF p, of i] show ?thesis by (auto simp: connection_over_def)
  qed
qed

section \<open>Samples\<close>

text \<open>A server that has accepted one connection and was then told to stop, and the same server at its end.\<close>

definition sample_stopping :: "connections \<Rightarrow> blocking_system" where
  "sample_stopping c = \<lparr>bs_pool = \<lparr>s_pool = \<lparr>low_watermark = 1, hight_watermark = 2, max_queue_size = 4, idle_time = 1000,
       sleeping_workers = 1, running_threads = 1, tasks = [0], e_state = kStopping\<rparr>,
       threads = [Polling 0 0], accepted = [0], started = [], finished = []\<rparr>,
     bs_conns = c\<lparr>cs_running := False\<rparr>, bs_acceptor = AcceptorWaits, bs_main = MainJoins, bs_next = 1, bs_refused = []\<rparr>"

definition sample_left :: "connections \<Rightarrow> blocking_system" where
  "sample_left c = \<lparr>bs_pool = \<lparr>s_pool = \<lparr>low_watermark = 1, hight_watermark = 2, max_queue_size = 4, idle_time = 1000,
       sleeping_workers = 0, running_threads = 0, tasks = [], e_state = kStopping\<rparr>,
       threads = [Done], accepted = [0], started = [0], finished = [0]\<rparr>,
     bs_conns = c\<lparr>cs_running := False\<rparr>, bs_acceptor = AcceptorGone, bs_main = MainLeft, bs_next = 1, bs_refused = []\<rparr>"

lemmas sample_simps = sample_stopping_def sample_left_def server_start_def blocking_start_def system_start_def
  Executor_new_def client_execute_def Execute_def Stop_def thread_poll_def perform_poll_def thread_done_def
  perform_done_def Stop_returns_def Let_def

lemmas one_more = reaches_step [where step = blocking_step]

lemma sample_stopping_reachable:
  assumes "cs_running c"
  shows "server_reachable (server_start 1 2 4 1000 0 c) (sample_stopping c)"
proof -
  let ?a = "server_start 1 2 4 1000 0 c"
  let ?b = "?a\<lparr>bs_acceptor := AcceptorAccepts\<rparr>"
  let ?c = "?b\<lparr>bs_pool := snd (client_execute 0 0 (bs_pool ?b)), bs_acceptor := AcceptorTests, bs_next := 1\<rparr>"
  let ?d = "?c\<lparr>bs_conns := c\<lparr>cs_running := False\<rparr>, bs_main := MainJoins\<rparr>"
  let ?e = "?d\<lparr>bs_acceptor := AcceptorStops\<rparr>"
  have ab: "blocking_step ?a ?b" using accept_test [of ?a] assms by (simp add: sample_simps)
  have bc: "blocking_step ?b ?c" using accepts [of ?b 0] by (simp add: sample_simps)
  have cd: "blocking_step ?c ?d" using main_stop [of ?c] by (simp add: sample_simps)
  have de: "blocking_step ?d ?e" using accept_test [of ?d] by (simp add: sample_simps)
  have ef: "blocking_step ?e (sample_stopping c)" using acceptor_stops [of ?e] by (simp add: sample_simps)
  note b = one_more [OF reaches_refl ab]
  note c = one_more [OF b bc]
  note d = one_more [OF c cd]
  note e = one_more [OF d de]
  show ?thesis by (rule one_more [OF e ef])
qed

lemma sample_left_reachable:
  assumes "cs_running c" "connection_over c 0"
  shows "server_reachable (server_start 1 2 4 1000 0 c) (sample_left c)"
proof -
  let ?a = "sample_stopping c"
  let ?b = "?a\<lparr>bs_pool := thread_poll 0 0 0 0 (bs_pool ?a)\<rparr>"
  let ?c = "?b\<lparr>bs_pool := thread_done 0 0 0 0 (bs_pool ?b)\<rparr>"
  let ?d = "?c\<lparr>bs_pool := thread_poll 0 0 0 0 (bs_pool ?c)\<rparr>"
  let ?e = "?d\<lparr>bs_acceptor := AcceptorGone\<rparr>"
  let ?f = "?e\<lparr>bs_pool := (bs_pool ?e)\<lparr>s_pool := Stop (s_pool (bs_pool ?e))\<rparr>, bs_main := MainWaits\<rparr>"
  have ab: "blocking_step ?a ?b" by (rule worker_polls) (simp_all add: sample_simps)
  have bc: "blocking_step ?b ?c"
    by (rule task_ends) (use assms(2) in \<open>simp_all add: sample_simps connection_over_def\<close>)
  have cd: "blocking_step ?c ?d" by (rule worker_polls) (simp_all add: sample_simps)
  have de: "blocking_step ?d ?e" by (rule acceptor_returns) (simp_all add: sample_simps)
  have ef: "blocking_step ?e ?f" by (rule main_joins) (simp_all add: sample_simps)
  have fg: "blocking_step ?f (sample_left c)" using main_returns [of ?f] by (simp add: sample_simps)
  note b = one_more [OF sample_stopping_reachable [OF assms(1)] ab]
  note c = one_more [OF b bc]
  note d = one_more [OF c cd]
  note e = one_more [OF d de]
  note f = one_more [OF e ef]
  show ?thesis by (rule one_more [OF f fg])
qed

section \<open>Properties\<close>

text \<open>
  C11. The multi-threaded server is its parts: however acceptor, workers, connections and the main thread
  interleave, the pool goes through states that the pool reaches, the connections through states that
  the connections reach, and every connection that \<open>accept\<close> returned is in exactly one place: closed because the
  pool refused it, in the queue, served by one worker, or over.
\<close>

theorem blocking_server_parts:
  assumes "server_reachable (server_start low hight queue idle t (connections_start s0 reads ses)) s"
  shows "pool_reachable (system_start low hight queue idle t) (bs_pool s) \<and> connections_reachable s0 reads ses (bs_conns s) \<and>
    mset (bs_refused s) + mset (tasks (s_pool (bs_pool s))) + running_tasks (threads (bs_pool s)) + mset (finished (bs_pool s)) =
      mset [0..<bs_next s]"
proof -
  let ?start = "server_start low hight queue idle t (connections_start s0 reads ses)"
  from server_start_inv have c: "control_inv ?start" by (simp add: blocking_inv_def)
  from blocking.along [OF assms server_start_inv] have
    "mset (accepted (bs_pool s) @ bs_refused s) = mset [0..<bs_next s]" "queue_inv (bs_pool s)"
    by (simp_all add: blocking_inv_def tasks_inv_def control_inv_def pool_inv_def)
  with as_pool.run_simulated [OF assms c] as_connections.run_simulated [OF assms c] show ?thesis
    by (simp add: queue_inv_def server_start_def blocking_start_def ac_simps)
qed

lemma blocking_server_parts_witness:
  "let s = sample_stopping (connections_start (SimpleLRU 64) (\<lambda>_. []) (\<lambda>_. new_session 0 True)) in
     pool_reachable (system_start 1 2 4 1000 0) (bs_pool s) \<and> tasks (s_pool (bs_pool s)) = [0]"
  using blocking_server_parts [OF sample_stopping_reachable [of "connections_start (SimpleLRU 64) (\<lambda>_. []) (\<lambda>_. new_session 0 True)"]]
  by (simp add: connections_start_def Let_def sample_stopping_def)

text \<open>
  C7. When \<open>Join\<close> has returned, the server is at rest and the storage may be stopped: the acceptor has
  ended, no worker is alive, the queue is empty, every connection was refused without having been touched or has been
  processed to its end, and no step of any thread of the server is left.
\<close>

theorem join_returns_last:
  assumes "server_reachable (server_start low hight queue idle t (connections_start s0 reads ses)) s" "0 < hight"
    "bs_main s = MainLeft"
  shows "bs_acceptor s = AcceptorGone \<and> live (bs_pool s) = 0 \<and> tasks (s_pool (bs_pool s)) = [] \<and>
    (\<forall>i < bs_next s. if i \<in> set (bs_refused s) then untouched (connections_start s0 reads ses) (bs_conns s) i
       else i \<in> set (finished (bs_pool s)) \<and> connection_over (bs_conns s) i) \<and> (\<nexists>s'. blocking_step s s')"
proof -
  note inv = blocking.along [OF assms(1) server_start_inv]
  then have c: "control_inv s" by (simp add: blocking_inv_def)
  with assms(3) have gone: "bs_acceptor s = AcceptorGone" "live (bs_pool s) = 0" by (auto simp: control_inv_def)
  note no = no_thread_left [OF inv server_hight [OF assms(1,2)] gone(2)]
  have "\<not> blocking_step s s'" for s'
  proof
    assume "blocking_step s s'"
    then show False using gone assms(3) by cases (auto dest: live_index)
  qed
  moreover have "tasks (s_pool (bs_pool s)) = []"
    using inv server_hight [OF assms(1,2)] gone(2) by (auto simp: blocking_inv_def control_inv_def pool_inv_def workers_inv_def)
  ultimately show ?thesis using gone no by blast
qed

lemma join_returns_last_witness:
  "let c = connections_start (SimpleLRU 64) (\<lambda>_. []) (\<lambda>_. new_session 0 True); s = sample_left c in
     server_reachable (server_start 1 2 4 1000 0 c) s \<and> connection_over (bs_conns s) 0 \<and> (\<nexists>s'. blocking_step s s')"
proof -
  let ?c = "connections_start (SimpleLRU 64) (\<lambda>_. []) (\<lambda>_. new_session 0 True)"
  have "connection_over ?c 0" "cs_running ?c"
    by (simp_all add: connection_over_def idle_thread_def connections_start_def serving_start_def)
  note reach = sample_left_reachable [OF this(2,1)]
  from join_returns_last [OF reach] have "\<nexists>s'. blocking_step (sample_left ?c) s'" by (simp add: sample_left_def)
  with reach \<open>connection_over ?c 0\<close> show ?thesis by (simp add: Let_def sample_left_def connection_over_def)
qed


text \<open>
  C6. The multi-threaded server can be stopped: once the acceptor waits for the pool to stop, the workers, the
  connections they serve, the acceptor and the main thread make boundedly many steps in all,
  however they interleave, and when none is left the main thread has returned from \<open>Join\<close>, no worker is alive, and
  every connection has been answered nothing because the pool refused it, or everything it asked for, or a beginning of that
  if it was cut off. The only other way in which it all can end is a call of the storage without a defined outcome.
\<close>

theorem blocking_server_shutdown:
  assumes "lru_invar s0" "lru_capacity s0 < 2 ^ 63" "\<And>i. session_ok (ses i)" "\<And>i. n \<le> i \<Longrightarrow> reads i = []"
    "\<And>i. \<exists>rs. request_list (concat (reads i)) (ses i) = Some rs \<and>
       (\<forall>r \<in> set rs. in_size_t (stored_size (fst r) (snd r) + lru_capacity s0))"
    "server_reachable (server_start low hight queue idle t (connections_start s0 reads ses)) s" "0 < hight" "being_stopped s"
  shows "\<exists>bound. \<forall>m s'. (blocking_step ^^ m) s s' \<longrightarrow> m \<le> bound \<and>
    ((\<nexists>s''. blocking_step s' s'') \<longrightarrow> stuck_in_call (bs_conns s') \<or>
      bs_main s' = MainLeft \<and> live (bs_pool s') = 0 \<and>
      (\<forall>i < bs_next s'. \<exists>rs later. request_list (concat (reads i)) (ses i) = Some rs \<and>
         rs = map sent (answers_of i (sv_replies (cs_serving (bs_conns s')))) @ later \<and>
         (if i \<in> set (bs_refused s') then later = rs
          else connection_over (bs_conns s') i \<and> (ct_cut (cs_thread (bs_conns s') i) \<or> later = []))))"
proof -
  let ?c0 = "connections_start s0 reads ses" and ?all = "\<lambda>i. request_list (concat (reads i)) (ses i)"
    and ?good = "serves_well (lru_capacity s0) n s0 (\<lambda>i. request_list (concat (reads i)) (ses i)) (connections_start s0 reads ses)"
  have "progress_inv (lru_capacity s0) n s0 ?all ?c0" by (rule progress_inv_start) (fact assms)+
  then have "?good (server_start low hight queue idle t ?c0)"
    using server_start_inv by (simp add: serves_well_def server_start_def blocking_start_def)
  from serving_well.along [OF assms(6) this] assms(8) have start: "?good s \<and> being_stopped s" ..
  have served: "\<exists>rs later. ?all i = Some rs \<and> rs = map sent (answers_of i (sv_replies (cs_serving (bs_conns s')))) @ later \<and>
         (if i \<in> set (bs_refused s') then later = rs
          else connection_over (bs_conns s') i \<and> (ct_cut (cs_thread (bs_conns s') i) \<or> later = []))"
    if "?good s'" "server_reachable (server_start low hight queue idle t ?c0) s'" "live (bs_pool s') = 0" "i < bs_next s'" for s' i
    using that served_at_end [OF that(1) server_hight [OF that(2) assms(7)] that(3,4)] by blast
  show ?thesis
  proof (intro exI [of _ "shutdown_work (lru_capacity s0) n s"] allI impI conjI)
    fix m s' assume run: "(blocking_step ^^ m) s s'"
    from stopping.steps_bounded [OF run start] show "m \<le> shutdown_work (lru_capacity s0) n s" by simp
    assume rest: "\<nexists>s''. blocking_step s' s''"
    from stopping.along_n [OF run start] have good: "?good s'" "bs_acceptor s' \<in> {AcceptorWaits, AcceptorGone}"
      by (simp_all add: being_stopped_def)
    from reaches_trans [OF assms(6) relpowp_reaches [OF run]] have reach: "server_reachable (server_start low hight queue idle t ?c0) s'" .
    show "stuck_in_call (bs_conns s') \<or> bs_main s' = MainLeft \<and> live (bs_pool s') = 0 \<and>
      (\<forall>i < bs_next s'. \<exists>rs later. ?all i = Some rs \<and> rs = map sent (answers_of i (sv_replies (cs_serving (bs_conns s')))) @ later \<and>
         (if i \<in> set (bs_refused s') then later = rs
          else connection_over (bs_conns s') i \<and> (ct_cut (cs_thread (bs_conns s') i) \<or> later = [])))"
      using shutdown_goes_on [OF good _ rest] served [OF good(1) reach] by blast
  qed
qed

lemma blocking_server_shutdown_witness:
  "let s = sample_stopping (connections_start (SimpleLRU 64) (\<lambda>i. if i = 0 then [''get a'' @ crlf] else []) (\<lambda>_. new_session 0 True)) in
    \<exists>bound. \<forall>m s'. (blocking_step ^^ m) s s' \<longrightarrow> m \<le> bound \<and>
      ((\<nexists>s''. blocking_step s' s'') \<longrightarrow> stuck_in_call (bs_conns s') \<or> bs_main s' = MainLeft)"
proof -
  let ?reads = "\<lambda>i :: nat. if i = 0 then [''get a'' @ crlf] else []" and ?ses = "\<lambda>_ :: nat. new_session 0 True"
  let ?s = "sample_stopping (connections_start (SimpleLRU 64) ?reads ?ses)"
  have req: "request_list (''get a'' @ crlf) (new_session 0 True) = Some [(GetCmd [''a''], [])]" by code_simp
  have lru: "lru_invar (SimpleLRU 64)" "lru_capacity (SimpleLRU 64) = 64"
    using represents_new [of 64] by (auto simp: lru_invar_def lru_capacity_def SimpleLRU_def)
  have sizes: "\<exists>rs. request_list (concat (?reads i)) (?ses i) = Some rs \<and>
       (\<forall>r \<in> set rs. in_size_t (stored_size (fst r) (snd r) + lru_capacity (SimpleLRU 64)))" for i
    by (cases "i = 0") (simp_all add: req lru in_size_t_def del: append.simps)
  have reach: "server_reachable (server_start 1 2 4 1000 0 (connections_start (SimpleLRU 64) ?reads ?ses)) ?s"
    by (rule sample_stopping_reachable) (simp add: connections_start_def)
  have "\<exists>bound. \<forall>m s'. (blocking_step ^^ m) ?s s' \<longrightarrow> m \<le> bound \<and>
    ((\<nexists>s''. blocking_step s' s'') \<longrightarrow> stuck_in_call (bs_conns s') \<or>
      bs_main s' = MainLeft \<and> live (bs_pool s') = 0 \<and>
      (\<forall>i < bs_next s'. \<exists>rs later. request_list (concat (?reads i)) (?ses i) = Some rs \<and>
         rs = map sent (answers_of i (sv_replies (cs_serving (bs_conns s')))) @ later \<and>
         (if i \<in> set (bs_refused s') then later = rs
          else connection_over (bs_conns s') i \<and> (ct_cut (cs_thread (bs_conns s') i) \<or> later = []))))"
    by (rule blocking_server_shutdown [where n = 1, OF _ _ _ _ _ reach])
      (use sizes in \<open>simp_all add: lru sample_stopping_def being_stopped_def del: append.simps\<close>)
  then show ?thesis unfolding Let_def by blast
qed

end
