(* ===== verification/Blocking_Servers.thy ===== *)
theory Blocking_Servers
  imports Session_Bytes
begin

text \<open>
  The connection handling of the two blocking servers: the acceptor loop
  \<open>STblocking::ServerImpl::OnRun\<close> with its read loop, and \<open>MTblocking::ProcessConnection\<close>. What
  the kernel does is an input: the results of \<open>accept\<close> and \<open>read\<close> as lists of events, the
  results of \<open>send\<close> as a function of the responses sent so far.
\<close>

section \<open>Events\<close>

text \<open>What \<open>read\<close> returns: bytes, 0 for a closed connection, or -1.\<close>

datatype read_event = Data string | PeerClosed | ReadError

text \<open>How a connection ends: an exception is caught and logged in either case.\<close>

datatype connection_end = StillReading | ClosedByPeer | Failed

section \<open>st_blocking\<close>

fun read_loop :: "'s storage_ops \<Rightarrow> (string list \<Rightarrow> bool) \<Rightarrow> read_event list \<Rightarrow>
    session \<Rightarrow> 's \<Rightarrow> string list \<Rightarrow> (connection_end \<times> session \<times> 's \<times> string list) option" where
  "read_loop st send_fails [] se s out = Some (StillReading, se, s, out)"
| "read_loop st send_fails (PeerClosed # evs) se s out = Some (ClosedByPeer, se, s, out)"
| "read_loop st send_fails (ReadError # evs) se s out = Some (Failed, se, s, out)"
| "read_loop st send_fails (Data buf # evs) se s out = do {
     (e, _, se, s, out) \<leftarrow> session_loop st send_fails False buf se s out;
     if e = Threw \<or> e = Halted then Some (Failed, se, s, out)
     else read_loop st send_fails evs se s out }"

text \<open>One turn of the acceptor loop: \<open>accept\<close> fails or yields a connection with its events.\<close>

datatype accept_event = AcceptFailed | Accepted "read_event list" "string list \<Rightarrow> bool"

fun OnRun_blocking :: "'s storage_ops \<Rightarrow> accept_event list \<Rightarrow> session \<Rightarrow> 's \<Rightarrow>
    ((connection_end \<times> string list) list \<times> session \<times> 's) option" where
  "OnRun_blocking st [] se s = Some ([], se, s)"
| "OnRun_blocking st (AcceptFailed # as) se s = OnRun_blocking st as se s"
| "OnRun_blocking st (Accepted evs send_fails # as) se s = do {
     (e, se, s, out) \<leftarrow> read_loop st send_fails evs se s [];
     (rs, se, s) \<leftarrow> OnRun_blocking st as (finish se) s;
     Some ((e, out) # rs, se, s) }"

section \<open>mt_blocking\<close>

text \<open>
  \<open>ProcessConnection\<close>, with the value of \<open>running\<close> after each read. Leaving the loop with bytes
  in the buffer throws, as a failed read does.
\<close>

fun process_loop :: "'s storage_ops \<Rightarrow> (string list \<Rightarrow> bool) \<Rightarrow> (read_event \<times> bool) list \<Rightarrow>
    session \<Rightarrow> 's \<Rightarrow> string list \<Rightarrow> (connection_end \<times> session \<times> 's \<times> string list) option" where
  "process_loop st send_fails [] se s out = Some (StillReading, se, s, out)"
| "process_loop st send_fails ((PeerClosed, running) # evs) se s out = Some (ClosedByPeer, se, s, out)"
| "process_loop st send_fails ((ReadError, running) # evs) se s out = Some (Failed, se, s, out)"
| "process_loop st send_fails ((Data buf, running) # evs) se s out =
     (if running \<or> pending se \<noteq> None then do {
        (e, _, se, s, out) \<leftarrow> session_loop st send_fails False buf se s out;
        if e = Threw \<or> e = Halted then Some (Failed, se, s, out)
        else process_loop st send_fails evs se s out }
      else Some (Failed, se, s, out))"

definition ProcessConnection :: "'s storage_ops \<Rightarrow> (string list \<Rightarrow> bool) \<Rightarrow> (read_event \<times> bool) list \<Rightarrow>
    size_t \<Rightarrow> bool \<Rightarrow> 's \<Rightarrow> (connection_end \<times> 's \<times> string list) option" where
  "ProcessConnection st send_fails evs r neg s = do {
     (e, _, s, out) \<leftarrow> process_loop st send_fails evs (new_session r neg) s [];
     Some (e, s, out) }"

section \<open>Streams\<close>

lemma session_loop_feed_bind:
  assumes "session_ok se"
  shows "(do { (e, _, se, s, out) \<leftarrow> session_loop st stop tidy buf se s out; f e se s out }) =
    (do { (e, _, se, s, out) \<leftarrow> feed_bytes st stop tidy buf se s out; f e se s out })"
  using session_loop_feed [OF assms, of st stop tidy buf s out, symmetric]
  by (cases "session_loop st stop tidy buf se s out") (auto split: prod.split)

lemma read_loop_feed:
  assumes "session_ok se"
  shows "read_loop st send_fails (map Data chunks) se s out =
    (do { (e, _, X) \<leftarrow> feed_bytes st send_fails False (concat chunks) se s out;
          Some (if e = Drained then StillReading else Failed, X) })"
  using assms
proof (induction chunks arbitrary: se s out)
  case (Cons c cs)
  show ?case
  proof (cases "feed_bytes st send_fails False c se s out")
    case None
    then show ?thesis by (simp add: session_loop_feed_bind [OF Cons.prems] feed_bytes_append)
  next
    case (Some x)
    then obtain e buf se1 s1 out1 where x: "feed_bytes st send_fails False c se s out = Some (e, buf, se1, s1, out1)"
      by (cases x) auto
    note e = feed_bytes_end [OF x]
    show ?thesis
    proof (cases "e = Drained")
      case True
      from feed_bytes_ok [OF Cons.prems x [unfolded True]] have "session_ok se1" by simp
      from Cons.IH [OF this] True show ?thesis
        by (simp add: session_loop_feed_bind [OF Cons.prems] x feed_bytes_append)
    next
      case False
      with e show ?thesis by (auto simp: session_loop_feed_bind [OF Cons.prems] x feed_bytes_append)
    qed
  qed
qed simp


text \<open>
  A connection of the single-threaded blocking server is a function of the bytes: however
  the kernel cuts the client's stream into reads, the responses, the storage and the session
  are those of the byte machine on the concatenation, and an exception or a failed send ends
  the connection at the same byte.
\<close>

theorem read_loop_stream:
  assumes "session_ok se"
  shows "read_loop st send_fails (map Data chunks) se s out =
    (do { (e, _, X) \<leftarrow> feed_bytes st send_fails False (concat chunks) se s out;
          Some (if e = Drained then StillReading else Failed, X) })"
  by (rule read_loop_feed [OF assms])

lemma read_loop_stream_witness:
  "read_loop simple_lru_ops (\<lambda>_. False) (map Data [''ge'', ''t a'']) (new_session 0 True) (SimpleLRU 64) [] =
    (do { (e, _, X) \<leftarrow> feed_bytes simple_lru_ops (\<lambda>_. False) False ''get a'' (new_session 0 True) (SimpleLRU 64) [];
          Some (if e = Drained then StillReading else Failed, X) })"
  using read_loop_stream [of "new_session 0 True" simple_lru_ops "\<lambda>_. False" "[''ge'', ''t a'']" "SimpleLRU 64" "[]"]
  by simp

section \<open>What a finished command leaves behind\<close>

text \<open>
  \<open>Reset\<close> does not reset \<open>negative\<close> and the loop does not reset \<open>arg_remains\<close>. Two sessions are
  \<open>similar\<close> if they differ in these members only where the code cannot notice.
\<close>

definition similar_parser :: "parser \<Rightarrow> parser \<Rightarrow> bool" where
  "similar_parser p q \<longleftrightarrow> q = p\<lparr>p_negative := p_negative q\<rparr> \<and>
     (p_state p \<in> {spExprTimeStart, spExprTime} \<longrightarrow> p_negative p = p_negative q)"

definition similar :: "session \<Rightarrow> session \<Rightarrow> bool" where
  "similar se se' \<longleftrightarrow> similar_parser (s_parser se) (s_parser se') \<and> pending se' = pending se \<and>
     argument se' = argument se \<and> (pending se \<noteq> None \<longrightarrow> arg_remains se' = arg_remains se)"

lemma similar_parserE:
  assumes "similar_parser p q"
  obtains n where "q = p\<lparr>p_negative := n\<rparr>" "p_state p \<in> {spExprTimeStart, spExprTime} \<longrightarrow> p_negative p = n"
  using assms by (auto simp: similar_parser_def)

lemma parse_char_similar:
  assumes "similar_parser p q"
  shows "fst (parse_char c n q) = fst (parse_char c n p) \<and>
    similar_parser (snd (parse_char c n p)) (snd (parse_char c n q))"
proof -
  from assms obtain m where q: "q = p\<lparr>p_negative := m\<rparr>"
    and m: "p_state p \<in> {spExprTimeStart, spExprTime} \<longrightarrow> p_negative p = m" by (rule similar_parserE)
  show ?thesis
  proof (cases "p_state p \<in> {spExprTimeStart, spExprTime}")
    case True
    with m have "q = p" unfolding q by (cases p) auto
    then show ?thesis by (simp add: similar_parser_def)
  next
    case False
    then show ?thesis unfolding q
      by (cases "p_state p") (simp_all add: parse_char.simps similar_parser_def Let_def)
  qed
qed

lemma Build_similar: "similar_parser p q \<Longrightarrow> Build q = Build p"
  by (erule similar_parserE, cases p) (simp add: Build_def first_key_def split: list.split)

lemma Reset_similar: "similar_parser (Reset p) (Reset q)"
  by (simp add: similar_parser_def Reset_eq new_parser_def)

lemma fresh_similar: "fresh se \<Longrightarrow> fresh se' \<Longrightarrow> similar se se'"
  by (auto simp: fresh_def similar_def Reset_similar)

lemma finish_similar: "similar (finish se) (finish se')"
  by (simp add: finish_def similar_def Reset_similar)


text \<open>Two results that agree in all but the members without influence.\<close>

definition same_result :: "('e \<times> session \<times> 'a) option \<Rightarrow> ('e \<times> session \<times> 'a) option \<Rightarrow> bool" where
  "same_result x y \<longleftrightarrow> (case (x, y) of
      (None, None) \<Rightarrow> True
    | (Some (e, se, X), Some (e', se', X')) \<Rightarrow> e' = e \<and> X' = X \<and> similar se se'
    | _ \<Rightarrow> False)"

lemma same_result_simps [simp]:
  "same_result None y \<longleftrightarrow> y = None"
  "same_result x None \<longleftrightarrow> x = None"
  "same_result (Some (e, se, X)) (Some (e', se', X')) \<longleftrightarrow> e' = e \<and> X' = X \<and> similar se se'"
  by (auto simp: same_result_def split: option.splits)

lemma same_resultE:
  assumes "same_result x y"
  obtains "x = None" "y = None"
  | e se se' X where "x = Some (e, se, X)" "y = Some (e, se', X)" "similar se se'"
  using assms by (cases x; cases y) (auto simp: same_result_def)

definition same_session :: "(bool \<times> session) option \<Rightarrow> (bool \<times> session) option \<Rightarrow> bool" where
  "same_session x y \<longleftrightarrow> (case (x, y) of
      (None, None) \<Rightarrow> True
    | (Some (b, se), Some (b', se')) \<Rightarrow> b' = b \<and> similar se se'
    | _ \<Rightarrow> False)"

lemma build_command_similar:
  assumes "similar se se'" "parser_inv (s_parser se)" "p_complete (s_parser se)" "pending se = None"
  shows "same_session (build_command se) (build_command se')"
proof -
  from assms(1) have sim: "similar_parser (s_parser se) (s_parser se')" and eq: "pending se' = pending se" "argument se' = argument se"
    by (simp_all add: similar_def)
  from sim have bytes: "p_bytes (s_parser se') = p_bytes (s_parser se)"
    by (rule similar_parserE) simp
  show ?thesis
  proof (cases "Build (s_parser se)")
    case (Inl e)
    with Build_similar [OF sim] bytes sim eq show ?thesis
      by (simp add: build_command_def same_session_def similar_def)
  next
    case (Inr x)
    with Build_inv [OF assms(2,3)] obtain cmd n where "Build (s_parser se) = Inr (Some (cmd, n))" by (cases x) auto
    with Build_similar [OF sim] sim eq show ?thesis
      by (simp add: build_command_def same_session_def similar_def Let_def)
  qed
qed

lemma take_byte_similar:
  assumes "similar se se'" "session_ok se"
  shows "same_session (take_byte c se) (take_byte c se')"
proof -
  from assms(1) have sim: "similar_parser (s_parser se) (s_parser se')"
    and eq: "pending se' = pending se" "argument se' = argument se" "pending se \<noteq> None \<Longrightarrow> arg_remains se' = arg_remains se"
    by (simp_all add: similar_def)
  show ?thesis
  proof (cases "pending se")
    case (Some cmd)
    with sim eq show ?thesis by (simp add: take_byte_def same_session_def similar_def)
  next
    case None
    with assms(2) have nc: "\<not> p_complete (s_parser se)" and inv: "parser_inv (s_parser se)" by (simp_all add: session_ok_def)
    obtain r q where q: "parse_char c 0 (s_parser se) = (r, q)" by (cases "parse_char c 0 (s_parser se)")
    from parse_char_similar [OF sim, of c 0] q obtain q' where q': "parse_char c 0 (s_parser se') = (r, q')" "similar_parser q q'"
      by (cases "parse_char c 0 (s_parser se')") simp
    from q'(2) have complete: "p_complete q' = p_complete q" by (rule similar_parserE) simp
    from None eq q'(2) have s: "similar (se\<lparr>s_parser := q\<rparr>) (se'\<lparr>s_parser := q'\<rparr>)" by (simp add: similar_def)
    show ?thesis
    proof (cases r)
      case (Some e)
      with None eq q q' s show ?thesis by (simp add: take_byte_def same_session_def)
    next
      case r: None
      from parse_char_inv [OF inv nc q] have "parser_inv q" by simp
      with build_command_similar [OF s] None r eq q q' s complete show ?thesis
        by (cases "p_complete q") (simp_all add: take_byte_def same_session_def)
    qed
  qed
qed

lemma run_ready_similar:
  assumes "similar se se'"
  shows "same_result (run_ready st stop tidy se s out) (run_ready st stop tidy se' s out)"
proof -
  have "ready se' = ready se" using assms by (cases "pending se") (auto simp: similar_def ready_def)
  moreover have "argument se' = argument se" using assms by (simp add: similar_def)
  ultimately show ?thesis using assms
    by (cases "ready se"; cases "execute st (the (ready se)) (argument se) s")
      (auto simp: run_ready_def finish_similar Let_def split: prod.split)
qed

lemma feed_byte_similar:
  assumes "similar se se'" "session_ok se"
  shows "same_result (feed_byte st stop tidy c se s out) (feed_byte st stop tidy c se' s out)"
proof -
  note t = take_byte_similar [OF assms, of c]
  show ?thesis
  proof (cases "take_byte c se")
    case None
    with t show ?thesis by (simp add: feed_byte_def same_session_def split: option.splits prod.splits)
  next
    case (Some x)
    then obtain b se1 where x: "take_byte c se = Some (b, se1)" by (cases x) auto
    with t obtain se1' where y: "take_byte c se' = Some (b, se1')" "similar se1 se1'"
      by (cases "take_byte c se'") (auto simp: same_session_def)
    from x y run_ready_similar [OF y(2)] show ?thesis by (cases b) (simp_all add: feed_byte_def)
  qed
qed


lemma feed_bytes_similar:
  assumes "similar se se'" "session_ok se"
  shows "same_result (map_option (\<lambda>(e, buf, se, X). ((e, buf), se, X)) (feed_bytes st stop tidy cs se s out))
    (map_option (\<lambda>(e, buf, se, X). ((e, buf), se, X)) (feed_bytes st stop tidy cs se' s out))"
  using assms
proof (induction cs arbitrary: se se' s out)
  case (Cons c cs)
  from feed_byte_similar [OF Cons.prems, of st stop tidy c s out] show ?case
  proof (cases rule: same_resultE)
    case (2 r se1 se1' X)
    show ?thesis
    proof (cases r)
      case None
      obtain s1 out1 where X: "X = (s1, out1)" by (cases X) auto
      from feed_byte_ok [OF Cons.prems(2)] 2(1) None X have "session_ok se1" by auto
      from Cons.IH [OF 2(3) this] 2 None X show ?thesis by simp
    qed (use 2 in \<open>cases X, simp\<close>)
  qed simp
qed simp

lemma similar_ok: "similar se se' \<Longrightarrow> session_ok se \<Longrightarrow> session_ok se'"
proof -
  assume sim: "similar se se'" and ok: "session_ok se"
  from sim have "similar_parser (s_parser se) (s_parser se')" by (simp add: similar_def)
  then obtain n where "s_parser se' = (s_parser se)\<lparr>p_negative := n\<rparr>" by (rule similar_parserE)
  moreover have "parser_inv (p\<lparr>p_negative := n\<rparr>) = parser_inv p" for p by (simp add: parser_inv_def)
  ultimately show "session_ok se'" using sim ok
    by (cases "pending se") (simp_all add: similar_def session_ok_def)
qed

lemma read_loop_similar:
  assumes "similar se se'" "session_ok se"
  shows "same_result (read_loop st send_fails evs se s out) (read_loop st send_fails evs se' s out)"
  using assms
proof (induction evs arbitrary: se se' s out)
  case (Cons ev evs)
  show ?case
  proof (cases ev)
    case (Data buf)
    from feed_bytes_similar [OF Cons.prems, of st send_fails False buf s out] show ?thesis
    proof (cases rule: same_resultE)
      case (2 eb se1 se1' X)
      obtain e b s1 out1 where eq: "eb = (e, b)" "X = (s1, out1)" by (cases eb, cases X) auto
      with 2 have f: "feed_bytes st send_fails False buf se s out = Some (e, b, se1, s1, out1)"
        "feed_bytes st send_fails False buf se' s out = Some (e, b, se1', s1, out1)"
        by auto
      note e = feed_bytes_end [OF f(1)]
      show ?thesis
      proof (cases "e = Drained")
        case True
        from feed_bytes_ok [OF Cons.prems(2) f(1) [unfolded True]] have "session_ok se1" by simp
        from Cons.IH [OF 2(3) this] Data True show ?thesis
          by (simp add: session_loop_feed_bind [OF Cons.prems(2)]
            session_loop_feed_bind [OF similar_ok [OF Cons.prems]] f)
      next
        case False
        with e 2(3) Data show ?thesis
          by (auto simp: session_loop_feed_bind [OF Cons.prems(2)]
            session_loop_feed_bind [OF similar_ok [OF Cons.prems]] f)
      qed
    qed (use Data in \<open>simp add: session_loop_feed_bind [OF Cons.prems(2)]
            session_loop_feed_bind [OF similar_ok [OF Cons.prems]]\<close>)
  qed (use Cons.prems in simp_all)
qed simp

section \<open>Isolation of connections\<close>

text \<open>Every connection on a server of its own, one after the other on the same storage.\<close>

fun serve_each :: "'s storage_ops \<Rightarrow> accept_event list \<Rightarrow> 's \<Rightarrow> ((connection_end \<times> string list) list \<times> 's) option" where
  "serve_each st [] s = Some ([], s)"
| "serve_each st (AcceptFailed # as) s = serve_each st as s"
| "serve_each st (Accepted evs send_fails # as) s = do {
     (e, _, s, out) \<leftarrow> read_loop st send_fails evs (new_session 0 False) s [];
     (rs, s) \<leftarrow> serve_each st as s;
     Some ((e, out) # rs, s) }"

text \<open>
  C25. Connections of the single-threaded blocking server do not influence each other except
  through the storage: the server keeps one parser, one argument buffer and one \<open>arg_remains\<close>
  for all of them and resets only some of their members between connections, yet every
  connection, also after one that was cut off in the middle of a command or thrown out by an
  exception, gets the responses it would get from a server of its own.
\<close>

theorem connections_isolated:
  assumes "fresh se"
  shows "map_option (\<lambda>(rs, _, s). (rs, s)) (OnRun_blocking st as se s) = serve_each st as s"
  using assms
proof (induction as arbitrary: se s)
  case (Cons a as)
  show ?case
  proof (cases a)
    case AcceptFailed
    with Cons show ?thesis by simp
  next
    case (Accepted evs send_fails)
    from read_loop_similar [OF fresh_similar [OF Cons.prems fresh_new [of 0 False]] fresh_ok [OF Cons.prems], of st send_fails evs s "[]"]
    show ?thesis
    proof (cases rule: same_resultE)
      case (2 e se1 se1' X)
      obtain s1 out1 where X: "X = (s1, out1)" by (cases X) auto
      from 2 X Accepted show ?thesis
        by (cases "OnRun_blocking st as (finish se1) s1")
          (auto simp: Cons.IH [OF fresh_finish [of se1], of s1, symmetric] split: prod.splits)
    qed (use Accepted in simp)
  qed
qed simp

lemma connections_isolated_witness:
  "map_option (\<lambda>(rs, _, s). (rs, s)) (OnRun_blocking simple_lru_ops
      [Accepted [Data ''set k 0 0 1'', PeerClosed] (\<lambda>_. False), Accepted [Data ''get k''] (\<lambda>_. False)]
      (new_session 7 True) (SimpleLRU 64)) =
    serve_each simple_lru_ops
      [Accepted [Data ''set k 0 0 1'', PeerClosed] (\<lambda>_. False), Accepted [Data ''get k''] (\<lambda>_. False)] (SimpleLRU 64)"
  by (rule connections_isolated) simp


section \<open>mt_blocking\<close>

text \<open>
  \<open>answers n\<close>: the connection answered the first \<open>n\<close> reads of \<open>chunks\<close> as the byte machine
  answers their concatenation, and stopped before the next only because the server stopped and
  no command waited for its argument.
\<close>

definition answers :: "nat \<Rightarrow> (string \<times> bool) list \<Rightarrow> (loop_end \<times> string \<times> session \<times> 's \<times> string list) option \<Rightarrow>
    (connection_end \<times> session \<times> 's \<times> string list) option \<Rightarrow> bool" where
  "answers n chunks fed result \<longleftrightarrow>
     result = (do { (e, _, X) \<leftarrow> fed;
       Some (if e = Drained \<and> n = length chunks then StillReading else Failed, X) }) \<and>
     (n < length chunks \<longrightarrow>
       (\<exists>buf se s out. fed = Some (Drained, buf, se, s, out) \<and> pending se = None) \<and> \<not> snd (chunks ! n))"

definition with_flag :: "string \<times> bool \<Rightarrow> read_event \<times> bool" where
  "with_flag c = (Data (fst c), snd c)"

lemma process_loop_feed:
  assumes "session_ok se"
  shows "\<exists>n \<le> length chunks. answers n chunks
    (feed_bytes st send_fails False (concat (map fst (take n chunks))) se s out)
    (process_loop st send_fails (map with_flag chunks) se s out)"
  using assms
proof (induction chunks arbitrary: se s out)
  case Nil
  show ?case by (simp add: answers_def)
next
  case (Cons x cs)
  obtain c r where x: "x = (c, r)" by (cases x)
  show ?case
  proof (cases "r \<or> pending se \<noteq> None")
    case False
    then show ?thesis by (intro exI [of _ 0]) (simp add: answers_def x with_flag_def)
  next
    case go: True
    let ?all = "concat (map fst (x # cs))"
    show ?thesis
    proof (cases "feed_bytes st send_fails False c se s out")
      case None
      with go show ?thesis
        by (intro exI [of _ "length (x # cs)"])
          (simp add: answers_def x with_flag_def session_loop_feed_bind [OF Cons.prems] feed_bytes_append)
    next
      case (Some y)
      then obtain e buf se1 s1 out1 where y: "feed_bytes st send_fails False c se s out = Some (e, buf, se1, s1, out1)"
        by (cases y) auto
      show ?thesis
      proof (cases "e = Drained")
        case False
        with feed_bytes_end [OF y] go show ?thesis
          by (intro exI [of _ "length (x # cs)"])
            (auto simp: answers_def x with_flag_def session_loop_feed_bind [OF Cons.prems] y feed_bytes_append)
      next
        case True
        from feed_bytes_ok [OF Cons.prems y [unfolded True]] have "session_ok se1" by simp
        from Cons.IH [OF this, of s1 out1] obtain n where n: "n \<le> length cs"
          "answers n cs (feed_bytes st send_fails False (concat (map fst (take n cs))) se1 s1 out1)
            (process_loop st send_fails (map with_flag cs) se1 s1 out1)" by blast
        have "process_loop st send_fails (map with_flag (x # cs)) se s out =
          process_loop st send_fails (map with_flag cs) se1 s1 out1"
          using go True by (simp add: x with_flag_def session_loop_feed_bind [OF Cons.prems] y)
        moreover have "feed_bytes st send_fails False (concat (map fst (take (Suc n) (x # cs)))) se s out =
          feed_bytes st send_fails False (concat (map fst (take n cs))) se1 s1 out1"
          using True by (simp add: x feed_bytes_append y)
        ultimately show ?thesis using n by (intro exI [of _ "Suc n"]) (simp add: answers_def)
      qed
    qed
  qed
qed

text \<open>
  \<open>ProcessConnection\<close> answers the reads as the single-threaded server would, as a function of
  the bytes, up to a point: it gives up before a read only when the server was stopped and no
  command waits for its argument, so a command already begun is still completed and answered.
\<close>

theorem process_connection_prefix:
  assumes "session_ok se"
  shows "\<exists>n \<le> length chunks. answers n chunks
    (feed_bytes st send_fails False (concat (map fst (take n chunks))) se s out)
    (process_loop st send_fails (map with_flag chunks) se s out)"
  by (rule process_loop_feed [OF assms])

lemma process_connection_prefix_witness:
  "\<exists>n \<le> length [(''set k 0 0 1'', True), (''get a'', False)]. answers n [(''set k 0 0 1'', True), (''get a'', False)]
    (feed_bytes simple_lru_ops (\<lambda>_. False) False
      (concat (map fst (take n [(''set k 0 0 1'', True), (''get a'', False)]))) (new_session 0 True) (SimpleLRU 64) [])
    (process_loop simple_lru_ops (\<lambda>_. False) (map with_flag [(''set k 0 0 1'', True), (''get a'', False)])
      (new_session 0 True) (SimpleLRU 64) [])"
  by (rule process_connection_prefix) simp

section \<open>A client stores a value and reads it back\<close>

definition set_request :: "string \<Rightarrow> string \<Rightarrow> nat \<Rightarrow> string \<Rightarrow> string" where
  "set_request name key flags value =
     storage_line name key (decimal flags) False ''0'' (decimal (length value)) @ value @ crlf"

lemma body_crlf:
  assumes "0 < length v" "length v < 2 ^ 32"
  shows "body_of_size (of_nat (length v)) (v @ crlf)"
proof -
  have small: "in_size_t (length v + 2)" using assms(2) by (simp add: in_size_t_def)
  have "(of_nat (length v) :: size_t) + 2 = of_nat (length v + 2)" by simp
  then have u: "unat ((of_nat (length v) :: size_t) + 2) = length v + 2"
    using unat_of_nat_small [OF small] by metis
  have "unat (of_nat (length v) :: size_t) = length v"
    by (rule unat_of_nat_small) (rule in_size_t_le [OF small], simp)
  with assms(1) have nz: "(of_nat (length v) :: size_t) \<noteq> 0" by (metis less_irrefl unat_0)
  from u have "(of_nat (length v) :: size_t) + 2 \<noteq> 0" by (metis add_is_0 unat_0 zero_neq_numeral)
  with u nz show ?thesis by (simp add: body_of_size_def crlf_def)
qed

lemma storage_line_not_Nil [simp]: "storage_line name key fd neg ds bd \<noteq> []"
  by (simp add: storage_line_def)

lemma get_line_not_Nil [simp]: "get_line keys \<noteq> []"
  by (simp add: get_line_def)

lemma reads_set_request:
  assumes "name \<in> {''set'', ''add'', ''append''}" "plain_key key" "flags < 2 ^ 32" "length v < 2 ^ 32"
  shows "reads_command (storage_line name key (decimal flags) False ''0'' (decimal (length v))) rest
    (insert_command name key (of_nat flags) 0) (of_nat (length v)) (Reset p)"
proof -
  have "digits ''0''" "digit_sum ''0'' = 0"
    by (simp_all add: digits_def is_digit_def digit_sum_def digit_value_def)
  moreover have "ucast (of_nat (length v) :: u32) = (of_nat (length v) :: size_t)"
    using assms(4) by (simp add: unsigned_of_nat take_bit_nat_eq_self)
  ultimately show ?thesis
    using reads_storage_line [of name key "decimal flags" "decimal (length v)" "''0''" False rest p] assms
    by (simp add: plain_key_def signed_add_def)
qed


text \<open>A whole command fed to a session between two commands, with a peer that takes every response.\<close>

lemma feed_command:
  assumes "fresh se" "reads_command line (body @ rest) cmd n (s_parser se)" "line \<noteq> []" "body_of_size n body"
    "execute st cmd body s = Some (result, s')"
  shows "\<exists>se'. fresh se' \<and> feed_bytes st (\<lambda>_. False) tidy (line @ body @ rest) se s out =
    feed_bytes st (\<lambda>_. False) tidy rest se' s' (out @ [result @ crlf])"
proof -
  from session_loop_command [OF assms(1-4), of st "\<lambda>_. False" tidy s out] assms(5) obtain se1 where
    "session_loop st (\<lambda>_. False) tidy (line @ body @ rest) se s out =
      session_loop st (\<lambda>_. False) tidy rest (finish se1) s' (out @ [result @ crlf])" by auto
  then have "outcome (session_loop st (\<lambda>_. False) tidy (line @ body @ rest) se s out) =
      outcome (session_loop st (\<lambda>_. False) tidy rest (finish se1) s' (out @ [result @ crlf]))" by simp
  then show ?thesis
    unfolding session_loop_feed [OF fresh_ok [OF assms(1)]] session_loop_feed [OF session_ok_finish]
    by (intro exI [of _ "finish se1"]) simp
qed

context command_storage begin

lemma set_get_stream:
  assumes "invar s" "accepts k (v @ crlf) s" "entry_size k (v @ crlf) \<le> capacity s"
    "fresh se" "plain_key k" "flags < 2 ^ 32" "0 < length v" "length v < 2 ^ 32"
  shows "\<exists>se' s'. feed_bytes st (\<lambda>_. False) tidy (set_request ''set'' k flags v @ get_line [k]) se s out =
    Some (Drained, [], se', s', out @ [''STORED'' @ crlf, value_item k (v @ crlf) @ ''END'' @ crlf])"
proof -
  from set_then_get [OF assms(1-3)] obtain s1 s2 where
    ex: "Set_Execute st k (v @ crlf) s = Some (''STORED'', s1)"
      "Get_Execute st [k] s1 = Some (value_item k (v @ crlf) @ ''END'', s2)" by blast
  from assms(4) obtain p where p: "s_parser se = Reset p" by (auto simp: fresh_def)
  have r: "reads_command (storage_line ''set'' k (decimal flags) False ''0'' (decimal (length v)))
      ((v @ crlf) @ get_line [k]) (SetCmd k (of_nat flags) 0) (of_nat (length v)) (s_parser se)"
    using reads_set_request [of "''set''" k flags v "(v @ crlf) @ get_line [k]" p] assms(5-8)
    by (simp add: p insert_command_def)
  from feed_command [OF assms(4) r storage_line_not_Nil body_crlf [OF assms(7,8)], of st s "''STORED''" s1 tidy out]
    ex(1) obtain se1 where se1: "fresh se1" and
    f1: "feed_bytes st (\<lambda>_. False) tidy (set_request ''set'' k flags v @ get_line [k]) se s out =
      feed_bytes st (\<lambda>_. False) tidy (get_line [k]) se1 s1 (out @ [''STORED'' @ crlf])"
    by (auto simp: set_request_def)
  from se1 obtain p1 where p1: "s_parser se1 = Reset p1" by (auto simp: fresh_def)
  have r1: "reads_command (get_line [k]) ([] @ []) (GetCmd [k]) 0 (s_parser se1)"
    using reads_get_line [of "[k]" "[]" p1] assms(5) by (simp add: p1)
  from feed_command [OF se1 r1 get_line_not_Nil, of st s1 "value_item k (v @ crlf) @ ''END''" s2 tidy "out @ [''STORED'' @ crlf]"]
    ex(2) obtain se2 where
    "feed_bytes st (\<lambda>_. False) tidy (get_line [k]) se1 s1 (out @ [''STORED'' @ crlf]) =
      Some (Drained, [], se2, s2, (out @ [''STORED'' @ crlf]) @ [(value_item k (v @ crlf) @ ''END'') @ crlf])"
    by (auto simp: body_of_size_def)
  with f1 show ?thesis by simp
qed

end

text \<open>
  C9. End to end: a client of the single-threaded blocking server over \<open>SimpleLRU\<close> that sends
  \<open>set\<close> with a non-empty value and then \<open>get\<close>, in reads of any sizes, receives \<open>STORED\<close> and the
  value followed by the two bytes \<open>\r\n\<close> that end the data block: the server stores the line end
  with the value and reports a length two larger than the one the client announced.
\<close>

theorem set_get_end_to_end:
  assumes "entry_size k (v @ crlf) \<le> unat cap" "plain_key k" "flags < 2 ^ 32" "0 < length v" "length v < 2 ^ 32"
    "concat chunks = set_request ''set'' k flags v @ get_line [k]"
  shows "\<exists>se s. read_loop simple_lru_ops (\<lambda>_. False) (map Data chunks) (new_session r neg) (SimpleLRU cap) [] =
    Some (StillReading, se, s, [''STORED'' @ crlf, value_item k (v @ crlf) @ ''END'' @ crlf])"
proof -
  have inv: "lru_invar (SimpleLRU cap)" using represents_new by (auto simp: lru_invar_def)
  have look: "lru_look (SimpleLRU cap) k = None" by (simp add: lru_look_def SimpleLRU_def)
  have cap: "lru_capacity (SimpleLRU cap) = unat cap" by (simp add: lru_capacity_def SimpleLRU_def)
  from assms(1) have acc: "lru_accepts k (v @ crlf) (SimpleLRU cap)"
    using in_size_t_le [OF in_size_t_unat] by (auto simp: lru_accepts_def look)
  from lru_cmd.set_get_stream [OF inv acc _ fresh_new assms(2-5), of False r neg "[]"] assms(1) cap
  obtain se' s' where "feed_bytes simple_lru_ops (\<lambda>_. False) False (concat chunks) (new_session r neg) (SimpleLRU cap) [] =
    Some (Drained, [], se', s', [''STORED'' @ crlf, value_item k (v @ crlf) @ ''END'' @ crlf])"
    by (auto simp: assms(6))
  with read_loop_feed [OF fresh_ok [OF fresh_new], of simple_lru_ops "\<lambda>_. False" chunks r neg "SimpleLRU cap" "[]"]
  show ?thesis by simp
qed

lemma set_get_end_to_end_witness:
  "\<exists>se s. read_loop simple_lru_ops (\<lambda>_. False)
      (map Data [set_request ''set'' ''foo'' 5 ''bar'', get_line [''foo'']]) (new_session 0 True) (SimpleLRU 64) [] =
    Some (StillReading, se, s, [''STORED'' @ crlf, value_item ''foo'' (''bar'' @ crlf) @ ''END'' @ crlf])"
  using set_get_end_to_end [of "''foo''" "''bar''" 64 5 "[set_request ''set'' ''foo'' 5 ''bar'', get_line [''foo'']]" 0 True]
  by (simp add: entry_size_def crlf_def plain_key_def SP_def CR_def)


text \<open>A line end where a command should start.\<close>

lemma feed_crlf_fresh:
  assumes "fresh se"
  shows "\<exists>se'. feed_bytes st stop tidy (crlf @ rest) se s out = Some (Threw, [], se', s, out)"
proof -
  from assms obtain p where p: "s_parser se = Reset p" "pending se = None" by (auto simp: fresh_def)
  then show ?thesis
    by (simp add: crlf_def feed_byte_def take_byte_def Reset_eq new_parser_def parse_char.simps SP_def CR_def
      insert_names_def retrieve_names_def undefined_error_def)
qed

text \<open>
  An empty value ends the connection: \<open>set\<close> with 0 bytes is answered \<open>STORED\<close> before the empty
  data block is read, then the line end of the block is taken for a command with an empty name,
  and the exception closes the connection without an answer to anything that follows.
\<close>

theorem empty_value_ends_connection:
  assumes "entry_size k [] \<le> unat cap" "plain_key k" "flags < 2 ^ 32"
  shows "\<exists>se s. read_loop simple_lru_ops (\<lambda>_. False) [Data (set_request ''set'' k flags [] @ rest)]
      (new_session r neg) (SimpleLRU cap) [] = Some (Failed, se, s, [''STORED'' @ crlf])"
proof -
  let ?s = "SimpleLRU cap" and ?se = "new_session r neg"
  have inv: "lru_invar ?s" using represents_new by (auto simp: lru_invar_def)
  have look: "lru_look ?s k = None" by (simp add: lru_look_def SimpleLRU_def)
  have "lru_accepts k [] ?s"
    using assms(1) in_size_t_le [OF in_size_t_unat] by (auto simp: lru_accepts_def look)
  from lru.Set_Execute_result [OF inv this] obtain s1 where
    ex: "Set_Execute simple_lru_ops k [] ?s = Some (''STORED'', s1)" by blast
  from fresh_new [of r neg] obtain p where p: "s_parser ?se = Reset p" by (auto simp: fresh_def)
  have line: "reads_command (storage_line ''set'' k (decimal flags) False ''0'' (decimal 0)) ([] @ crlf @ rest)
      (SetCmd k (of_nat flags) 0) 0 (s_parser ?se)"
    using reads_set_request [of "''set''" k flags "[]" "crlf @ rest" p] assms(2,3)
    by (simp add: p insert_command_def)
  from feed_command [OF fresh_new line storage_line_not_Nil, of simple_lru_ops ?s "''STORED''" s1 False "[]"] ex
  obtain se1 where se1: "fresh se1" and
    f: "feed_bytes simple_lru_ops (\<lambda>_. False) False (set_request ''set'' k flags [] @ rest) ?se ?s [] =
      feed_bytes simple_lru_ops (\<lambda>_. False) False (crlf @ rest) se1 s1 [''STORED'' @ crlf]"
    by (auto simp: set_request_def body_of_size_def)
  from feed_crlf_fresh [OF se1, of simple_lru_ops "\<lambda>_. False" False rest s1 "[''STORED'' @ crlf]"] f
    read_loop_feed [OF fresh_ok [OF fresh_new], of simple_lru_ops "\<lambda>_. False" "[set_request ''set'' k flags [] @ rest]" r neg ?s "[]"]
  show ?thesis by auto
qed

lemma empty_value_ends_connection_witness:
  "\<exists>se s. read_loop simple_lru_ops (\<lambda>_. False) [Data (set_request ''set'' ''foo'' 0 [] @ get_line [''foo''])]
      (new_session 0 True) (SimpleLRU 64) [] = Some (Failed, se, s, [''STORED'' @ crlf])"
  using empty_value_ends_connection [of "''foo''" 64 0 "get_line [''foo'']" 0 True]
  by (simp add: entry_size_def plain_key_def SP_def CR_def)

end
