(* ===== verification/Nonblocking_Connection.thy ===== *)
theory Nonblocking_Connection
  imports Blocking_Servers
begin

text \<open>
  The connections of the two epoll servers (\<open>st_nonblocking/Connection.h\<close>, \<open>.cpp\<close> and
  \<open>mt_nonblocking/Connection.h\<close>, \<open>.cpp\<close>): \<open>Start\<close>, \<open>OnError\<close>, \<open>OnClose\<close>, \<open>DoRead\<close> and
  \<open>DoWrite\<close>. The multi-threaded variant takes the connection's mutex in each of them and prepares
  the session for the next command later when the server stops.
\<close>

section \<open>State\<close>

datatype epoll_flag = EPOLLIN | EPOLLOUT | EPOLLERR | EPOLLRDHUP | EPOLLHUP | EPOLLONESHOT

text \<open>
  \<open>c_buffer\<close> is the first \<open>readed_bytes\<close> bytes of \<open>client_buffer\<close>. \<open>c_data_start\<close> and the result of
  \<open>writev\<close> are natural numbers, for which the code has \<open>int\<close>: the two agree as long as the at most 64
  responses of one \<open>writev\<close> have together fewer than \<open>2 ^ 31\<close> bytes.
\<close>

record connection =
  c_alive :: bool
  c_events :: "epoll_flag set"
  c_session :: session
  c_responses :: "string list"
  c_data_start :: nat
  c_buffer :: string
  c_locked :: bool

text \<open>The masks; the multi-threaded server adds \<open>EPOLLONESHOT\<close> to each of them.\<close>

definition MASK_EPOLLRD :: "epoll_flag set \<Rightarrow> epoll_flag set" where
  "MASK_EPOLLRD extra = {EPOLLIN, EPOLLERR, EPOLLRDHUP} \<union> extra"

definition MASK_EPOLLWR :: "epoll_flag set \<Rightarrow> epoll_flag set" where
  "MASK_EPOLLWR extra = {EPOLLOUT, EPOLLERR, EPOLLRDHUP} \<union> extra"

definition MASK_EPOLLRDWR :: "epoll_flag set \<Rightarrow> epoll_flag set" where
  "MASK_EPOLLRDWR extra = {EPOLLIN, EPOLLERR, EPOLLRDHUP, EPOLLOUT} \<union> extra"

definition resp_buf_size :: nat where
  "resp_buf_size = 64"

definition client_buffer_size :: nat where
  "client_buffer_size = 4096"

text \<open>The constructor; \<open>alive\<close> and \<open>arg_remains\<close> start with unknown values.\<close>

definition new_connection :: "bool \<Rightarrow> size_t \<Rightarrow> bool \<Rightarrow> connection" where
  "new_connection alive r neg = \<lparr>c_alive = alive, c_events = {}, c_session = new_session r neg,
     c_responses = [], c_data_start = 0, c_buffer = [], c_locked = False\<rparr>"

section \<open>The single-threaded connection\<close>

definition Start :: "epoll_flag set \<Rightarrow> connection \<Rightarrow> connection" where
  "Start extra c = c\<lparr>c_events := MASK_EPOLLRD extra, c_alive := True\<rparr>"

definition OnError :: "connection \<Rightarrow> connection" where
  "OnError c = (if c_alive c then c\<lparr>c_alive := False\<rparr> else c)"

definition OnClose :: "connection \<Rightarrow> connection" where
  "OnClose c = (if c_alive c then c\<lparr>c_alive := False\<rparr> else c)"

text \<open>
  \<open>DoRead\<close>: the results of the calls of \<open>read\<close> are an input; a call delivers no more than it was
  asked for, and 0 bytes or an error end the loop. \<open>running out\<close> is the value of \<open>server->run\<close>
  after the responses \<open>out\<close>.
\<close>

fun read_calls :: "epoll_flag set \<Rightarrow> bool \<Rightarrow> 's storage_ops \<Rightarrow> (string list \<Rightarrow> bool) \<Rightarrow> string list \<Rightarrow>
    connection \<Rightarrow> 's \<Rightarrow> (connection \<times> 's) option" where
  "read_calls extra tidy st running [] c s =
     Some (c\<lparr>c_events := (if c_responses c = [] then MASK_EPOLLRD extra else MASK_EPOLLRDWR extra)\<rparr>, s)"
| "read_calls extra tidy st running (r # rs) c s =
     (if r = [] \<or> client_buffer_size - length (c_buffer c) < length r then read_calls extra tidy st running [] c s
      else do {
        (e, left, se, s, out) \<leftarrow>
          session_loop st (\<lambda>out. \<not> running out) tidy (c_buffer c @ r) (c_session c) s (c_responses c);
        let c = c\<lparr>c_buffer := left, c_session := se, c_responses := out\<rparr>;
        if e = Threw then Some (c, s)
        else if e = Halted then Some (c\<lparr>c_events := MASK_EPOLLWR extra\<rparr>, s)
        else read_calls extra tidy st running rs c s })"

definition DoRead :: "'s storage_ops \<Rightarrow> (string list \<Rightarrow> bool) \<Rightarrow> string list \<Rightarrow> connection \<Rightarrow> 's \<Rightarrow>
    (connection \<times> 's) option" where
  "DoRead = read_calls {} True"

text \<open>\<open>writev\<close>: so many bytes, nothing for now, or an error.\<close>

datatype write_result = Written nat | WouldBlock | WriteError

text \<open>The bytes the call offers: at most 64 responses, the first without its sent part.\<close>

definition offered :: "connection \<Rightarrow> string" where
  "offered c = drop (c_data_start c) (concat (take (min resp_buf_size (length (c_responses c))) (c_responses c)))"

fun drop_sent :: "string list \<Rightarrow> nat \<Rightarrow> string list \<times> nat" where
  "drop_sent [] n = ([], n)"
| "drop_sent (r # rs) n = (if length r \<le> n then drop_sent rs (n - length r) else (r # rs, n))"

text \<open>
  \<open>DoWrite\<close> up to the calls of \<open>OnError\<close> and \<open>OnClose\<close>: the connection and which of them is to
  follow.
\<close>

datatype after_write = Nothing | CallOnError | CallOnClose

definition write_step :: "epoll_flag set \<Rightarrow> bool \<Rightarrow> write_result \<Rightarrow> connection \<Rightarrow> (after_write \<times> connection) option" where
  "write_step extra run w c =
     (if c_responses c = [] then None
      else case w of
        WriteError \<Rightarrow> Some (CallOnError, c)
      | WouldBlock \<Rightarrow> Some (Nothing, c\<lparr>c_events := (if run then MASK_EPOLLRDWR extra else MASK_EPOLLWR extra)\<rparr>)
      | Written n \<Rightarrow>
          (let (rs, d) = drop_sent (c_responses c) (c_data_start c + n);
               c = c\<lparr>c_responses := rs, c_data_start := d\<rparr>
           in Some (if rs = [] then
                      (if run then (Nothing, c\<lparr>c_events := MASK_EPOLLRD extra\<rparr>) else (CallOnClose, c))
                    else (Nothing, c\<lparr>c_events := (if run then MASK_EPOLLRDWR extra else MASK_EPOLLWR extra)\<rparr>))))"

definition DoWrite :: "bool \<Rightarrow> write_result \<Rightarrow> connection \<Rightarrow> connection option" where
  "DoWrite run w c = do {
     (a, c) \<leftarrow> write_step {} run w c;
     Some (case a of Nothing \<Rightarrow> c | CallOnError \<Rightarrow> OnError c | CallOnClose \<Rightarrow> OnClose c) }"

section \<open>The multi-threaded connection\<close>

text \<open>
  \<open>std::lock_guard<std::mutex> lock(mu)\<close> around a member function, as one thread sees it: locking
  a mutex the thread already holds never returns.
\<close>

definition with_mu :: "(connection \<Rightarrow> (connection \<times> 's) option) \<Rightarrow> connection \<Rightarrow> (connection \<times> 's) option" where
  "with_mu f c = (if c_locked c then None else do {
     (c, s) \<leftarrow> f (c\<lparr>c_locked := True\<rparr>);
     Some (c\<lparr>c_locked := False\<rparr>, s) })"

definition mt_Start :: "connection \<Rightarrow> connection option" where
  "mt_Start c = map_option fst (with_mu (\<lambda>c. Some (Start {EPOLLONESHOT} c, ())) c)"

definition mt_OnError :: "connection \<Rightarrow> connection option" where
  "mt_OnError c = map_option fst (with_mu (\<lambda>c. Some (OnError c, ())) c)"

definition mt_OnClose :: "connection \<Rightarrow> connection option" where
  "mt_OnClose c = map_option fst (with_mu (\<lambda>c. Some (OnClose c, ())) c)"

definition mt_isAlive :: "connection \<Rightarrow> bool option" where
  "mt_isAlive c = map_option snd (with_mu (\<lambda>c. Some (c, c_alive c)) c)"

definition mt_DoRead :: "'s storage_ops \<Rightarrow> (string list \<Rightarrow> bool) \<Rightarrow> string list \<Rightarrow> connection \<Rightarrow> 's \<Rightarrow>
    (connection \<times> 's) option" where
  "mt_DoRead st running reads c s = with_mu (\<lambda>c. read_calls {EPOLLONESHOT} False st running reads c s) c"

definition mt_DoWrite :: "bool \<Rightarrow> write_result \<Rightarrow> connection \<Rightarrow> connection option" where
  "mt_DoWrite run w c = map_option fst (with_mu (\<lambda>c. do {
     (a, c) \<leftarrow> write_step {EPOLLONESHOT} run w c;
     c \<leftarrow> (case a of Nothing \<Rightarrow> Some c | CallOnError \<Rightarrow> mt_OnError c | CallOnClose \<Rightarrow> mt_OnClose c);
     Some (c, ()) }) c)"

end
