(* ===== verification/Nonblocking_Streams.thy ===== *)
theory Nonblocking_Streams
  imports Nonblocking_Connection
begin

text \<open>
  What the epoll connections guarantee and what they do not: the bytes written to the socket are
  the responses in the order they were produced, none lost and none doubled, for any pattern of
  short reads and short writes, and up to the first exception they are those of the byte machine;
  a connection that met an unknown command name lying whole in its buffer executes nothing any
  more, while a name split over two reads may be completed to a known one; the multi-threaded
  connection deadlocks with itself when a write fails.
\<close>

section \<open>Responses only grow\<close>

lemma feed_byte_responses:
  "feed_byte st stop tidy c se s out = Some (e, se', s', out') \<Longrightarrow> \<exists>xs. out' = out @ xs \<and> [] \<notin> set xs"
  by (auto simp: feed_byte_def run_ready_def bind_eq_Some_conv Let_def crlf_def split: option.splits if_splits)

lemma feed_bytes_responses:
  "feed_bytes st stop tidy cs se s out = Some (e, buf, se', s', out') \<Longrightarrow> \<exists>xs. out' = out @ xs \<and> [] \<notin> set xs"
proof (induction cs arbitrary: se s out)
  case (Cons c cs)
  then obtain r se1 s1 out1 where 1: "feed_byte st stop tidy c se s out = Some (r, se1, s1, out1)"
    by (cases "feed_byte st stop tidy c se s out") auto
  from feed_byte_responses [OF 1] obtain xs where xs: "out1 = out @ xs" "[] \<notin> set xs" by blast
  show ?case
  proof (cases r)
    case None
    with Cons.prems 1 have "feed_bytes st stop tidy cs se1 s1 out1 = Some (e, buf, se', s', out')" by simp
    from Cons.IH [OF this] xs show ?thesis by auto
  qed (use Cons.prems 1 xs in auto)
qed simp

lemma feed_byte_prefix:
  "feed_byte st (\<lambda>_. False) tidy c se s (pre @ out) =
    map_option (\<lambda>(e, se, s, o'). (e, se, s, pre @ o')) (feed_byte st (\<lambda>_. False) tidy c se s out)"
  by (cases "take_byte c se")
    (auto simp: feed_byte_def run_ready_def Let_def split: option.split Option.bind_splits prod.split)

lemma feed_bytes_prefix:
  "feed_bytes st (\<lambda>_. False) tidy cs se s (pre @ out) =
    map_option (\<lambda>(e, b, se, s, o'). (e, b, se, s, pre @ o')) (feed_bytes st (\<lambda>_. False) tidy cs se s out)"
proof (induction cs arbitrary: se s out)
  case (Cons c cs)
  show ?case
    by (auto simp: feed_byte_prefix Cons.IH split: option.split prod.split)
qed simp

lemma feed_byte_not_halted: "feed_byte st (\<lambda>_. False) tidy c se s out \<noteq> Some (Some Halted, X)"
  by (auto simp: feed_byte_def run_ready_def bind_eq_Some_conv Let_def split: option.splits if_splits)

lemma feed_bytes_running:
  "feed_bytes st (\<lambda>_. False) tidy cs se s out = Some (e, buf, X) \<Longrightarrow> e = Drained \<or> e = Threw"
proof (induction cs arbitrary: se s out)
  case (Cons c cs)
  then obtain r se1 s1 out1 where 1: "feed_byte st (\<lambda>_. False) tidy c se s out = Some (r, se1, s1, out1)"
    by (cases "feed_byte st (\<lambda>_. False) tidy c se s out") auto
  with Cons feed_byte_not_halted [of st tidy c se s out "(se1, s1, out1)"] show ?case
    by (cases r) (auto dest: feed_byte_end)
qed simp

text \<open>
  Without a stop the two ways to prepare the session for the next command agree, the one of the
  single-threaded and the one of the multi-threaded connection.
\<close>

lemma feed_byte_tidy: "feed_byte st (\<lambda>_. False) tidy c se s out = feed_byte st (\<lambda>_. False) tidy' c se s out"
proof -
  have r: "run_ready st (\<lambda>_. False) tidy = run_ready st (\<lambda>_. False) tidy'"
    by (intro ext) (auto simp: run_ready_def Let_def split: option.split Option.bind_splits)
  show ?thesis unfolding feed_byte_def r ..
qed

lemma feed_bytes_tidy: "feed_bytes st (\<lambda>_. False) tidy cs se s out = feed_bytes st (\<lambda>_. False) tidy' cs se s out"
  by (induction cs arbitrary: se s out)
    (auto simp: feed_byte_tidy [of st tidy _ _ _ _ tidy'] split: option.split)

section \<open>DoRead\<close>

definition reads_fit :: "string list \<Rightarrow> bool" where
  "reads_fit reads \<longleftrightarrow> (\<forall>r\<in>set reads. r \<noteq> [] \<and> length r \<le> client_buffer_size)"

definition armed :: "epoll_flag set \<Rightarrow> connection \<Rightarrow> epoll_flag set" where
  "armed extra c = (if c_responses c = [] then MASK_EPOLLRD extra else MASK_EPOLLRDWR extra)"

lemma session_loop_left:
  "session_loop st stop tidy buf se s out = Some (Threw, left, X) \<Longrightarrow> left \<noteq> []"
proof (induction st stop tidy buf se s out rule: session_loop.induct)
  case (1 st stop tidy buf se s out)
  show ?case
  proof (cases "buf = []")
    case False
    from 1(3) False obtain r se1 where it: "iteration buf se = Some (r, se1)"
      by (cases "iteration buf se") (auto simp: session_loop.simps [of st stop tidy buf])
    show ?thesis
    proof (cases r)
      case (Inl e)
      with 1(3) it False show ?thesis by (simp add: session_loop_end)
    next
      case (Inr b)
      show ?thesis
      proof (cases "ready se1")
        case None
        with 1(3) it Inr False have "session_loop st stop tidy b se1 s out = Some (Threw, left, X)"
          by (simp add: session_loop.simps [of st stop tidy buf])
        with 1(1) it Inr False None show ?thesis by blast
      next
        case (Some cmd)
        with 1(3) it Inr False obtain result s1 where ex: "execute st cmd (argument se1) s = Some (result, s1)"
          by (cases "execute st cmd (argument se1) s") (auto simp: session_loop.simps [of st stop tidy buf])
        with 1(3) it Inr False Some have "\<not> stop (out @ [result @ crlf])"
          "session_loop st stop tidy b (finish se1) s1 (out @ [result @ crlf]) = Some (Threw, left, X)"
          by (auto simp: session_loop.simps [of st stop tidy buf] Let_def split: if_splits)
        with 1(2) it Inr False Some ex show ?thesis by blast
      qed
    qed
  qed (use 1(3) in simp)
qed

lemma read_calls_feed:
  assumes "session_ok (c_session c)" "c_buffer c = []" "reads_fit reads"
  shows "case feed_bytes st (\<lambda>_. False) tidy (concat reads) (c_session c) s (c_responses c) of
      None \<Rightarrow> read_calls extra tidy st (\<lambda>_. True) reads c s = None
    | Some (e, _, se, s', out) \<Rightarrow>
       (let c' = c\<lparr>c_session := se, c_responses := out\<rparr> in
        if e = Drained then read_calls extra tidy st (\<lambda>_. True) reads c s = Some (c'\<lparr>c_events := armed extra c'\<rparr>, s')
        else \<exists>left. left \<noteq> [] \<and> read_calls extra tidy st (\<lambda>_. True) reads c s = Some (c'\<lparr>c_buffer := left\<rparr>, s'))"
  using assms
proof (induction reads arbitrary: c s)
  case Nil
  have "c\<lparr>c_session := c_session c, c_responses := c_responses c\<rparr> = c" by (cases c) simp
  then show ?case by (simp add: armed_def Let_def)
next
  case (Cons r rs)
  from Cons.prems(3) have r: "r \<noteq> []" "length r \<le> client_buffer_size" "reads_fit rs" by (auto simp: reads_fit_def)
  let ?X = "session_loop st (\<lambda>_. False) tidy r (c_session c) s (c_responses c)"
  have step: "read_calls extra tidy st (\<lambda>_. True) (r # rs) c s = do {
        (e, left, se, s, out) \<leftarrow> ?X;
        let c = c\<lparr>c_buffer := left, c_session := se, c_responses := out\<rparr>;
        if e = Threw then Some (c, s)
        else if e = Halted then Some (c\<lparr>c_events := MASK_EPOLLWR extra\<rparr>, s)
        else read_calls extra tidy st (\<lambda>_. True) rs c s }"
    using r(1,2) Cons.prems(2) by (simp add: not_less)
  note feed = session_loop_feed [OF Cons.prems(1), of st "\<lambda>_. False" tidy r s "c_responses c", symmetric]
  show ?case
  proof (cases ?X)
    case None
    with feed step show ?thesis by (simp add: feed_bytes_append)
  next
    case (Some y)
    then obtain e left se1 s1 out1 where y: "?X = Some (e, left, se1, s1, out1)" by (cases y) auto
    note drained = session_loop_drained [OF Cons.prems(1) y]
    show ?thesis
    proof (cases "e = Drained")
      case True
      let ?c = "c\<lparr>c_buffer := [], c_session := se1, c_responses := out1\<rparr>"
      have eq: "?c\<lparr>c_session := a, c_responses := b\<rparr> = c\<lparr>c_session := a, c_responses := b\<rparr>" for a b
        using Cons.prems(2) by (cases c) simp
      from drained(1,3) True have f: "feed_bytes st (\<lambda>_. False) tidy r (c_session c) s (c_responses c) = Some (Drained, [], se1, s1, out1)"
        "left = []" "session_ok se1" by simp_all
      have calls: "read_calls extra tidy st (\<lambda>_. True) (r # rs) c s = read_calls extra tidy st (\<lambda>_. True) rs ?c s1"
        unfolding step by (simp add: y f(2) True)
      have fed: "feed_bytes st (\<lambda>_. False) tidy (concat (r # rs)) (c_session c) s (c_responses c) =
          feed_bytes st (\<lambda>_. False) tidy (concat rs) (c_session ?c) s1 (c_responses ?c)"
        using f(1) by (simp add: feed_bytes_append)
      from f(3) r(3) have "session_ok (c_session ?c)" "c_buffer ?c = []" "reads_fit rs" by simp_all
      from Cons.IH [OF this, of s1] show ?thesis unfolding calls fed eq .
    next
      case False
      with drained(1) feed_bytes_running have f: "e = Threw"
        "feed_bytes st (\<lambda>_. False) tidy r (c_session c) s (c_responses c) = Some (Threw, [], se1, s1, out1)" by fastforce+
      have eq: "c\<lparr>c_buffer := left, c_session := se1, c_responses := out1\<rparr> = c\<lparr>c_session := se1, c_responses := out1\<rparr>\<lparr>c_buffer := left\<rparr>"
        by simp
      from session_loop_left [OF y [unfolded f(1)]] f step y show ?thesis
        by (auto simp: feed_bytes_append Let_def)
    qed
  qed
qed

text \<open>Whatever happens in them, the reads only append responses to the queue.\<close>

lemma session_loop_responses:
  "session_loop st stop tidy buf se s out = Some (e, left, se', s', out') \<Longrightarrow> \<exists>xs. out' = out @ xs \<and> [] \<notin> set xs"
proof (induction st stop tidy buf se s out rule: session_loop.induct)
  case (1 st stop tidy buf se s out)
  show ?case
  proof (cases "buf = []")
    case False
    from 1(3) False obtain r se1 where it: "iteration buf se = Some (r, se1)"
      by (cases "iteration buf se") (auto simp: session_loop.simps [of st stop tidy buf])
    show ?thesis
    proof (cases r)
      case (Inl e)
      with 1(3) it False show ?thesis by (simp add: session_loop_end)
    next
      case (Inr b)
      show ?thesis
      proof (cases "ready se1")
        case None
        with 1(3) it Inr False have "session_loop st stop tidy b se1 s out = Some (e, left, se', s', out')"
          by (simp add: session_loop.simps [of st stop tidy buf])
        with 1(1) it Inr False None show ?thesis by blast
      next
        case (Some cmd)
        with 1(3) it Inr False obtain result s1 where ex: "execute st cmd (argument se1) s = Some (result, s1)"
          by (cases "execute st cmd (argument se1) s") (auto simp: session_loop.simps [of st stop tidy buf])
        let ?out = "out @ [result @ crlf]"
        have ne: "result @ crlf \<noteq> []" by (simp add: crlf_def)
        show ?thesis
        proof (cases "stop ?out")
          case True
          with 1(3) it Inr False Some ex have "out' = ?out"
            by (auto simp: session_loop.simps [of st stop tidy buf] Let_def)
          with ne show ?thesis by (intro exI [of _ "[result @ crlf]"]) simp
        next
          case go: False
          with 1(3) it Inr False Some ex have "session_loop st stop tidy b (finish se1) s1 ?out = Some (e, left, se', s', out')"
            by (auto simp: session_loop.simps [of st stop tidy buf] Let_def)
          with 1(2) it Inr False Some ex go obtain xs where "out' = ?out @ xs" "[] \<notin> set xs" by blast
          with ne show ?thesis by (intro exI [of _ "(result @ crlf) # xs"]) simp
        qed
      qed
    qed
  qed (use 1(3) in simp)
qed

lemma read_calls_responses:
  "read_calls extra tidy st running reads c s = Some (c', s') \<Longrightarrow>
   \<exists>xs. c_responses c' = c_responses c @ xs \<and> [] \<notin> set xs \<and> c_data_start c' = c_data_start c \<and> c_locked c' = c_locked c"
proof (induction reads arbitrary: c s)
  case (Cons r rs)
  show ?case
  proof (cases "r = [] \<or> client_buffer_size - length (c_buffer c) < length r")
    case True
    with Cons.prems have "c_responses c' = c_responses c" "c_data_start c' = c_data_start c" "c_locked c' = c_locked c" by auto
    then show ?thesis by simp
  next
    case False
    with Cons.prems obtain e left se s1 out where
      l: "session_loop st (\<lambda>out. \<not> running out) tidy (c_buffer c @ r) (c_session c) s (c_responses c) = Some (e, left, se, s1, out)"
      by (cases "session_loop st (\<lambda>out. \<not> running out) tidy (c_buffer c @ r) (c_session c) s (c_responses c)") auto
    from session_loop_responses [OF l] obtain xs where xs: "out = c_responses c @ xs" "[] \<notin> set xs" by blast
    let ?c = "c\<lparr>c_buffer := left, c_session := se, c_responses := out\<rparr>"
    show ?thesis
    proof (cases "e = Threw \<or> e = Halted")
      case True
      with Cons.prems False l have "c_responses c' = out" "c_data_start c' = c_data_start c" "c_locked c' = c_locked c" by (auto simp: Let_def split: if_splits)
      with xs show ?thesis by simp
    next
      case go: False
      with Cons.prems False l have "read_calls extra tidy st running rs ?c s1 = Some (c', s')" by (simp add: Let_def)
      from Cons.IH [OF this] obtain ys where "c_responses c' = out @ ys" "[] \<notin> set ys" "c_data_start c' = c_data_start c" "c_locked c' = c_locked c" by auto
      with xs show ?thesis by simp
    qed
  qed
qed auto

section \<open>DoWrite\<close>

definition to_send :: "connection \<Rightarrow> string" where
  "to_send c = drop (c_data_start c) (concat (c_responses c))"

definition queue_ok :: "connection \<Rightarrow> bool" where
  "queue_ok c \<longleftrightarrow> [] \<notin> set (c_responses c) \<and>
     (case c_responses c of [] \<Rightarrow> c_data_start c = 0 | r # _ \<Rightarrow> c_data_start c < length r)"

lemma queue_alive [simp]:
  "queue_ok (c\<lparr>c_alive := x\<rparr>) = queue_ok c" "to_send (c\<lparr>c_alive := x\<rparr>) = to_send c"
  "queue_ok (c\<lparr>c_events := m\<rparr>) = queue_ok c" "to_send (c\<lparr>c_events := m\<rparr>) = to_send c"
  by (simp_all add: queue_ok_def to_send_def split: list.split)

lemma drop_sent_queue:
  assumes "drop_sent rs n = (rs', d)" "n \<le> length (concat rs)"
  shows "drop d (concat rs') = drop n (concat rs) \<and> set rs' \<subseteq> set rs \<and>
    (case rs' of [] \<Rightarrow> d = 0 | r # _ \<Rightarrow> d < length r)"
  using assms
proof (induction rs arbitrary: n)
  case (Cons r rs)
  show ?case
  proof (cases "length r \<le> n")
    case True
    with Cons.prems have "drop_sent rs (n - length r) = (rs', d)" "n - length r \<le> length (concat rs)" by auto
    from Cons.IH [OF this] True show ?thesis by auto
  next
    case False
    with Cons.prems show ?thesis by auto
  qed
qed simp

lemma offered_prefix: "take n (offered c) = take (min n (length (offered c))) (to_send c)"
proof -
  let ?m = "min resp_buf_size (length (c_responses c))"
  have "concat (c_responses c) = concat (take ?m (c_responses c)) @ concat (drop ?m (c_responses c))"
    by (metis append_take_drop_id concat_append)
  then have "to_send c = offered c @ drop (c_data_start c - length (concat (take ?m (c_responses c)))) (concat (drop ?m (c_responses c)))"
    unfolding to_send_def offered_def by (metis drop_append)
  then show ?thesis by (simp add: min_def)
qed

lemma offered_length: "length (offered c) \<le> length (to_send c)"
proof -
  have "offered c = take (length (offered c)) (offered c)" by simp
  then have "length (offered c) = length (take (length (offered c)) (to_send c))"
    using offered_prefix [of "length (offered c)" c] by simp
  then show ?thesis by simp
qed

definition written :: "write_result \<Rightarrow> connection \<Rightarrow> string" where
  "written w c = (case w of Written n \<Rightarrow> take n (offered c) | _ \<Rightarrow> [])"

definition write_fits :: "write_result \<Rightarrow> connection \<Rightarrow> bool" where
  "write_fits w c = (case w of Written n \<Rightarrow> 0 < n \<and> n \<le> length (offered c) | _ \<Rightarrow> True)"

lemma write_step_queue:
  assumes "queue_ok c" "write_fits w c" "write_step extra run w c = Some (a, c')"
  shows "to_send c = written w c @ to_send c' \<and> queue_ok c' \<and> c_session c' = c_session c \<and>
    c_buffer c' = c_buffer c \<and> c_alive c' = c_alive c \<and> c_locked c' = c_locked c"
proof (cases w)
  case (Written n)
  obtain rs d where d: "drop_sent (c_responses c) (c_data_start c + n) = (rs, d)"
    by (cases "drop_sent (c_responses c) (c_data_start c + n)")
  from assms(2) Written have n: "n \<le> length (offered c)" by (simp add: write_fits_def)
  with offered_length [of c] have "n \<le> length (to_send c)" by simp
  with assms(1) have "c_data_start c + n \<le> length (concat (c_responses c))"
    by (cases "c_responses c") (auto simp: to_send_def queue_ok_def)
  from drop_sent_queue [OF d this] have q: "drop d (concat rs) = drop n (to_send c)"
    "set rs \<subseteq> set (c_responses c)" "case rs of [] \<Rightarrow> d = 0 | r # _ \<Rightarrow> d < length r"
    by (simp_all add: to_send_def add.commute)
  from assms(3) Written d have "c_responses c' = rs" "c_data_start c' = d" "c_session c' = c_session c"
    "c_buffer c' = c_buffer c" "c_alive c' = c_alive c" "c_locked c' = c_locked c"
    by (auto simp: write_step_def Let_def split: if_splits)
  moreover from this q(1) have "to_send c' = drop n (to_send c)" by (simp add: to_send_def)
  moreover have "written w c = take n (to_send c)"
    using offered_prefix [of n c] n Written by (simp add: written_def)
  moreover from calculation q(2,3) assms(1) have "queue_ok c'" by (auto simp: queue_ok_def)
  ultimately show ?thesis by simp
qed (use assms in \<open>auto simp: write_step_def written_def split: if_splits\<close>)

lemma DoWrite_queue:
  assumes "queue_ok c" "write_fits w c" "DoWrite run w c = Some c'"
  shows "to_send c = written w c @ to_send c' \<and> queue_ok c' \<and> c_session c' = c_session c \<and> c_buffer c' = c_buffer c"
proof -
  from assms(3) obtain a c1 where w: "write_step {} run w c = Some (a, c1)"
    and c': "c' = (case a of Nothing \<Rightarrow> c1 | CallOnError \<Rightarrow> OnError c1 | CallOnClose \<Rightarrow> OnClose c1)"
    by (auto simp: DoWrite_def bind_eq_Some_conv)
  from write_step_queue [OF assms(1,2) w] c' show ?thesis
    by (cases a) (auto simp: OnError_def OnClose_def)
qed

section \<open>A connection's life\<close>

text \<open>The member functions of the single-threaded and of the multi-threaded connection.\<close>

definition conn_read :: "bool \<Rightarrow> 's storage_ops \<Rightarrow> (string list \<Rightarrow> bool) \<Rightarrow> string list \<Rightarrow> connection \<Rightarrow> 's \<Rightarrow> (connection \<times> 's) option" where
  "conn_read mt = (if mt then mt_DoRead else DoRead)"

definition conn_write :: "bool \<Rightarrow> bool \<Rightarrow> write_result \<Rightarrow> connection \<Rightarrow> connection option" where
  "conn_write mt = (if mt then mt_DoWrite else DoWrite)"

text \<open>
  The life of a connection of either server, from its \<open>Start\<close>: calls of \<open>DoRead\<close> and of \<open>DoWrite\<close>
  that return, in any order, with writes of any length. \<open>wire\<close> are the bytes sent so far. As long
  as the connection is \<open>Sound\<close> it is read on a running server and no read threw; \<open>input\<close> are
  the bytes it received, up to and including those of the \<open>DoRead\<close> that threw first, which leaves
  unparsed bytes in the buffer and makes it \<open>Broken\<close>. A \<open>DoRead\<close> of a failed connection, or one
  during which the server may stop, is free to do what it does: its responses go to \<open>later\<close>.
\<close>

datatype read_state = Sound | Broken | Halting

inductive life_of :: "bool \<Rightarrow> 's storage_ops \<Rightarrow> connection \<Rightarrow> 's \<Rightarrow>
    connection \<Rightarrow> 's \<Rightarrow> read_state \<Rightarrow> string \<Rightarrow> string list \<Rightarrow> string \<Rightarrow> bool"
  for mt st c0 s0 where
  born: "life_of mt st c0 s0 c0 s0 Sound [] [] []"
| readable: "life_of mt st c0 s0 c s Sound input later wire \<Longrightarrow> reads_fit reads \<Longrightarrow>
    conn_read mt st (\<lambda>_. True) reads c s = Some (c', s') \<Longrightarrow>
    life_of mt st c0 s0 c' s' (if c_buffer c' = [] then Sound else Broken) (input @ concat reads) later wire"
| reread: "life_of mt st c0 s0 c s l input later wire \<Longrightarrow> conn_read mt st running reads c s = Some (c', s') \<Longrightarrow>
    life_of mt st c0 s0 c' s' (if l = Broken then Broken else Halting) input
      (later @ drop (length (c_responses c)) (c_responses c')) wire"
| writable: "life_of mt st c0 s0 c s l input later wire \<Longrightarrow> write_fits w c \<Longrightarrow> conn_write mt run w c = Some c' \<Longrightarrow>
    life_of mt st c0 s0 c' s l input later (wire @ written w c)"

lemma with_mu_unlocked: "\<not> c_locked c \<Longrightarrow> with_mu f c = map_option (\<lambda>(c, s). (c\<lparr>c_locked := False\<rparr>, s)) (f (c\<lparr>c_locked := True\<rparr>))"
  by (cases "f (c\<lparr>c_locked := True\<rparr>)") (auto simp: with_mu_def)

lemma queue_locked [simp]:
  "queue_ok (c\<lparr>c_locked := x\<rparr>) = queue_ok c" "to_send (c\<lparr>c_locked := x\<rparr>) = to_send c"
  "write_fits w (c\<lparr>c_locked := x\<rparr>) = write_fits w c" "written w (c\<lparr>c_locked := x\<rparr>) = written w c"
  by (simp_all add: queue_ok_def to_send_def write_fits_def written_def offered_def split: list.split write_result.split)

lemma conn_write_queue:
  assumes "queue_ok c" "\<not> c_locked c" "write_fits w c" "conn_write mt run w c = Some c'"
  shows "to_send c = written w c @ to_send c' \<and> queue_ok c' \<and> c_session c' = c_session c \<and> c_buffer c' = c_buffer c \<and>
    \<not> c_locked c'"
proof (cases mt)
  case True
  let ?l = "c\<lparr>c_locked := True\<rparr>"
  from assms(2,4) True obtain a c1 c2 where w: "write_step {EPOLLONESHOT} run w ?l = Some (a, c1)"
    and c2: "(case a of Nothing \<Rightarrow> Some c1 | CallOnError \<Rightarrow> mt_OnError c1 | CallOnClose \<Rightarrow> mt_OnClose c1) = Some c2"
    and c': "c' = c2\<lparr>c_locked := False\<rparr>"
    by (auto simp: conn_write_def mt_DoWrite_def with_mu_unlocked bind_eq_Some_conv)
  from write_step_queue [OF _ _ w] assms(1,3) have q: "to_send c = written w c @ to_send c1" "queue_ok c1"
    "c_session c1 = c_session c" "c_buffer c1 = c_buffer c" "c_locked c1" by simp_all
  with c2 have "c2 = c1" by (cases a) (auto simp: mt_OnError_def mt_OnClose_def with_mu_def)
  with q c' show ?thesis by simp
next
  case False
  from assms(4) False obtain a c1 where w: "write_step {} run w c = Some (a, c1)"
    and c': "c' = (case a of Nothing \<Rightarrow> c1 | CallOnError \<Rightarrow> OnError c1 | CallOnClose \<Rightarrow> OnClose c1)"
    by (auto simp: conn_write_def DoWrite_def bind_eq_Some_conv)
  from write_step_queue [OF assms(1,3) w] assms(2) c' show ?thesis
    by (cases a) (auto simp: OnError_def OnClose_def)
qed

lemma conn_read_calls:
  assumes "\<not> c_locked c"
  shows "conn_read mt st running reads c s = (if mt
     then map_option (\<lambda>(c, s). (c\<lparr>c_locked := False\<rparr>, s)) (read_calls {EPOLLONESHOT} False st running reads (c\<lparr>c_locked := True\<rparr>) s)
     else read_calls {} True st running reads c s)"
  using assms by (simp add: conn_read_def mt_DoRead_def DoRead_def with_mu_unlocked)

lemma conn_read_appends:
  assumes "\<not> c_locked c" "queue_ok c" "conn_read mt st running reads c s = Some (c', s')"
  shows "\<not> c_locked c' \<and> queue_ok c' \<and>
    to_send c' = to_send c @ concat (drop (length (c_responses c)) (c_responses c'))"
proof -
  obtain extra tidy lk c1 where r: "read_calls extra tidy st running reads (c\<lparr>c_locked := lk\<rparr>) s = Some (c1, s')"
    and c1: "c' = c1\<lparr>c_locked := False\<rparr>"
  proof (cases mt)
    case True
    with assms(3) show ?thesis using that by (auto simp: conn_read_calls [OF assms(1)])
  next
    case False
    have same: "c\<lparr>c_locked := False\<rparr> = c" using assms(1) by (cases c) simp
    from False assms(3) have r: "read_calls {} True st running reads c s = Some (c', s')" by (simp add: conn_read_calls [OF assms(1)])
    with read_calls_responses [OF r] assms(1) have "c'\<lparr>c_locked := False\<rparr> = c'" by (cases c') auto
    with r same show ?thesis using that [of "{}" True False c'] by simp
  qed
  from read_calls_responses [OF r] obtain xs where xs: "c_responses c1 = c_responses c @ xs" "[] \<notin> set xs"
    "c_data_start c1 = c_data_start c" by auto
  with assms(2) c1 show ?thesis
    by (cases "c_responses c"; cases xs) (auto simp: queue_ok_def to_send_def)
qed

lemma conn_read_feeds:
  assumes "session_ok (c_session c)" "c_buffer c = []" "\<not> c_locked c" "reads_fit reads"
    and "conn_read mt st (\<lambda>_. True) reads c s = Some (c', s')"
  shows "\<exists>b xs. feed_bytes st (\<lambda>_. False) True (concat reads) (c_session c) s [] =
      Some (if c_buffer c' = [] then Drained else Threw, b, c_session c', s', xs) \<and>
    c_responses c' = c_responses c @ xs \<and> (c_buffer c' = [] \<longrightarrow> session_ok (c_session c') \<and> b = [])"
proof -
  define F where "F = feed_bytes st (\<lambda>_. False) True (concat reads) (c_session c) s []"
  have pre: "feed_bytes st (\<lambda>_. False) tidy (concat reads) (c_session c) s pre =
      map_option (\<lambda>(e, b, se, s, o'). (e, b, se, s, pre @ o')) F" for pre tidy
    using feed_bytes_prefix [of st True "concat reads" "c_session c" s pre "[]"]
    by (simp add: F_def feed_bytes_tidy [of st tidy _ _ _ _ True])
  obtain extra tidy lk c1 where r: "read_calls extra tidy st (\<lambda>_. True) reads (c\<lparr>c_locked := lk\<rparr>) s = Some (c1, s')"
    and c1: "c_buffer c' = c_buffer c1" "c_session c' = c_session c1" "c_responses c' = c_responses c1"
  proof (cases mt)
    case True
    with assms(5) show ?thesis using that by (auto simp: conn_read_calls [OF assms(3)])
  next
    case False
    have "c\<lparr>c_locked := False\<rparr> = c" using assms(3) by (cases c) simp
    with False assms(5) show ?thesis using that [of "{}" True False c'] by (simp add: conn_read_calls [OF assms(3)])
  qed
  have "session_ok (c_session (c\<lparr>c_locked := lk\<rparr>))" "c_buffer (c\<lparr>c_locked := lk\<rparr>) = []" using assms by simp_all
  note rc = read_calls_feed [OF this assms(4), where st = st and tidy = tidy and s = s and extra = extra]
  obtain e b se1 s1 xs where y: "F = Some (e, b, se1, s1, xs)"
    using rc r by (cases F) (auto simp: pre)
  have e: "e = Drained \<or> e = Threw" using feed_bytes_running y F_def by metis
  show ?thesis
  proof (cases "e = Drained")
    case True
    with rc r have "c1 = (c\<lparr>c_locked := lk, c_session := se1, c_responses := c_responses c @ xs\<rparr>)\<lparr>c_events := armed extra (c\<lparr>c_locked := lk, c_session := se1, c_responses := c_responses c @ xs\<rparr>)\<rparr>" "s1 = s'"
      by (auto simp: pre y Let_def)
    moreover from feed_bytes_ok [OF assms(1), of st "\<lambda>_. False" True "concat reads" s "[]" b se1 s1 xs] y True
    have "session_ok se1 \<and> b = []" by (auto simp: F_def)
    ultimately show ?thesis using y True c1 assms(2) by (simp add: F_def)
  next
    case False
    with rc r obtain left where "left \<noteq> []" "c1 = (c\<lparr>c_locked := lk, c_session := se1, c_responses := c_responses c @ xs\<rparr>)\<lparr>c_buffer := left\<rparr>" "s1 = s'"
      by (auto simp: pre y Let_def)
    with y e False c1 show ?thesis by (simp add: F_def)
  qed
qed

lemma life_inv:
  assumes "life_of mt st c0 s0 c s l input later wire" "c0 = Start extra (new_connection a r neg)"
  shows "\<exists>b se s1 out. feed_bytes st (\<lambda>_. False) True input (new_session r neg) s0 [] =
      Some (if l = Broken then Threw else Drained, b, se, s1, out) \<and>
    wire @ to_send c = concat out @ concat later \<and> queue_ok c \<and> \<not> c_locked c \<and>
    (l = Sound \<longrightarrow> b = [] \<and> se = c_session c \<and> s1 = s \<and> later = [] \<and> session_ok se \<and> c_buffer c = [])"
  using assms
proof (induction rule: life_of.induct)
  case born
  then show ?case by (simp add: Start_def new_connection_def to_send_def queue_ok_def)
next
  case (readable c s input later wire reads c' s')
  from readable.IH [OF readable.prems] obtain out where
    out: "feed_bytes st (\<lambda>_. False) True input (new_session r neg) s0 [] = Some (Drained, [], c_session c, s, out)"
    "wire @ to_send c = concat out" "queue_ok c" "\<not> c_locked c" "later = []" "session_ok (c_session c)" "c_buffer c = []" by auto
  from conn_read_feeds [OF out(6,7,4) readable.hyps(2,3)] obtain b xs where
    f: "feed_bytes st (\<lambda>_. False) True (concat reads) (c_session c) s [] =
      Some (if c_buffer c' = [] then Drained else Threw, b, c_session c', s', xs)" "c_responses c' = c_responses c @ xs"
    "c_buffer c' = [] \<longrightarrow> session_ok (c_session c') \<and> b = []" by blast
  have "feed_bytes st (\<lambda>_. False) True (concat reads) (c_session c) s out =
      Some (if c_buffer c' = [] then Drained else Threw, b, c_session c', s', out @ xs)"
    using feed_bytes_prefix [of st True "concat reads" "c_session c" s out "[]"] f(1) by simp
  then have "feed_bytes st (\<lambda>_. False) True (input @ concat reads) (new_session r neg) s0 [] =
      Some (if c_buffer c' = [] then Drained else Threw, b, c_session c', s', out @ xs)"
    by (simp add: feed_bytes_append out(1))
  with conn_read_appends [OF out(4,3) readable.hyps(3)] f(2,3) out(2,5) show ?case
    by (auto simp flip: append_assoc)
next
  case (reread c s l input later wire running reads c' s')
  from reread.IH [OF reread.prems] obtain b se s1 out where
    out: "feed_bytes st (\<lambda>_. False) True input (new_session r neg) s0 [] = Some (if l = Broken then Threw else Drained, b, se, s1, out)"
    "wire @ to_send c = concat out @ concat later" "queue_ok c" "\<not> c_locked c" by blast
  from conn_read_appends [OF out(4,3) reread.hyps(2)] out(1,2) show ?case
    by (auto simp flip: append_assoc)
next
  case (writable c s l input later wire w run c')
  from writable.IH [OF writable.prems] obtain b se s1 out where
    out: "feed_bytes st (\<lambda>_. False) True input (new_session r neg) s0 [] = Some (if l = Broken then Threw else Drained, b, se, s1, out)"
    "wire @ to_send c = concat out @ concat later" "queue_ok c" "\<not> c_locked c"
    "l = Sound \<longrightarrow> b = [] \<and> se = c_session c \<and> s1 = s \<and> later = [] \<and> session_ok se \<and> c_buffer c = []" by blast
  with conn_write_queue [OF out(3,4) writable.hyps(2,3)] show ?case by auto
qed

text \<open>
  C3. What an epoll connection writes: at every moment of the life of a connection of either epoll
  server, after any mix of short reads, vectored writes that the kernel cut anywhere, and writes
  that would block, the bytes on the wire followed by the bytes still queued are exactly the
  responses produced, in order, with nothing lost, doubled or reordered. While the server runs
  and the parser throws nothing they are the responses of the byte machine to the bytes received,
  and session and storage are the byte machine's; when a \<open>DoRead\<close> throws for the first time the
  byte machine throws on the same input after the same responses. What is read after that, or while
  the server stops, is not compared with the byte machine (a failed connection parses the bytes
  left in its buffer once more): its responses follow the earlier ones.
\<close>

theorem connection_stream:
  assumes "life_of mt st (Start extra (new_connection a r neg)) s0 c s l input later wire"
  shows "\<exists>b se s1 out. feed_bytes st (\<lambda>_. False) True input (new_session r neg) s0 [] =
      Some (if l = Broken then Threw else Drained, b, se, s1, out) \<and>
    wire @ to_send c = concat out @ concat later \<and>
    (l = Sound \<longrightarrow> se = c_session c \<and> s1 = s \<and> later = [])"
  using life_inv [OF assms refl] by blast


definition stats_line :: string where
  "stats_line = [CHR ''s'', CHR ''t'', CHR ''a'', CHR ''t'', CHR ''s'', CR, LF]"

lemma stats_fed:
  "\<exists>se. feed_bytes st (\<lambda>_. False) tidy stats_line (new_session 0 True) s [] =
    Some (Drained, [], se, s, [''END'' @ crlf])"
  by (simp add: stats_line_def feed_byte_def take_byte_def parse_char.simps new_session_def new_parser_def
    SP_def CR_def LF_def insert_names_def retrieve_names_def build_command_def Build_def Let_def
    run_ready_def ready_def Stats_Execute_def)

lemma connection_stream_witness:
  "\<exists>c s se b out. life_of False simple_lru_ops (Start {} (new_connection False 0 True)) (SimpleLRU 64) c s Sound stats_line [] ''EN'' \<and>
    feed_bytes simple_lru_ops (\<lambda>_. False) True stats_line (new_session 0 True) (SimpleLRU 64) [] =
      Some (Drained, b, se, s, out) \<and> ''EN'' @ to_send c = concat out"
proof -
  let ?c0 = "new_connection False 0 True" and ?st = "simple_lru_ops" and ?s = "SimpleLRU 64"
  let ?c1 = "Start {} ?c0"
  obtain se where fed: "feed_bytes ?st (\<lambda>_. False) True stats_line (new_session 0 True) ?s [] =
      Some (Drained, [], se, ?s, [''END'' @ crlf])" using stats_fed [of ?st True ?s] by blast
  let ?c2 = "?c1\<lparr>c_session := se, c_responses := [''END'' @ crlf]\<rparr>"
  let ?c3 = "?c2\<lparr>c_events := armed {} ?c2\<rparr>"
  have c1: "c_session ?c1 = new_session 0 True" "c_buffer ?c1 = []" "c_responses ?c1 = []" "c_data_start ?c1 = 0"
    by (simp_all add: Start_def new_connection_def)
  have fit: "reads_fit [stats_line]" by (simp add: reads_fit_def stats_line_def client_buffer_size_def)
  have "conn_read False ?st (\<lambda>_. True) [stats_line] ?c1 ?s = Some (?c3, ?s)"
    using read_calls_feed [of ?c1 "[stats_line]", OF _ c1(2) fit, where st = ?st and tidy = True and s = ?s and extra = "{}"] fed
    by (simp add: c1 conn_read_def DoRead_def Let_def del: read_calls.simps)
  from life_of.readable [OF life_of.born fit this]
  have l: "life_of False ?st ?c1 ?s ?c3 ?s Sound ([] @ concat [stats_line]) [] []" by (simp add: c1)
  have off: "offered ?c3 = ''END'' @ crlf" by (simp add: offered_def c1 resp_buf_size_def)
  have "conn_write False True (Written 2) ?c3 \<noteq> None"
    by (simp add: conn_write_def DoWrite_def write_step_def c1 crlf_def)
  then obtain c4 where w: "conn_write False True (Written 2) ?c3 = Some c4" by auto
  have "write_fits (Written 2) ?c3" unfolding write_fits_def off by (simp add: crlf_def)
  from life_of.writable [OF l this w] have l4: "life_of False ?st ?c1 ?s c4 ?s Sound stats_line [] ''EN''"
    unfolding written_def write_result.case off by simp
  from connection_stream [OF l4] l4 show ?thesis by auto
qed

section \<open>A connection that met an unknown command\<close>

definition known_names :: "string list" where
  "known_names = insert_names @ retrieve_names @ [''stats'']"

text \<open>
  \<open>w\<close> is an unknown name, which lies whole at the start of the buffer with the blank or the \<open>CR\<close> that
  ends it, and the parser has put it \<open>k\<close> times into \<open>name\<close>. A name split over two reads does not get
  here: what the parser holds then is not a repetition of what the buffer starts with.
\<close>

definition stuck :: "string \<Rightarrow> nat \<Rightarrow> connection \<Rightarrow> bool" where
  "stuck w k c \<longleftrightarrow> w \<notin> set known_names \<and> (\<forall>x\<in>set w. x \<noteq> SP \<and> x \<noteq> CR) \<and>
     (\<exists>sep rest. (sep = SP \<or> sep = CR) \<and> c_buffer c = w @ sep # rest) \<and>
     pending (c_session c) = None \<and> p_state (s_parser (c_session c)) = sName \<and>
     \<not> p_complete (s_parser (c_session c)) \<and> p_name (s_parser (c_session c)) = concat (replicate k w)"

lemma power_unknown:
  assumes "w \<notin> set known_names"
  shows "concat (replicate (Suc k) w) \<notin> set known_names"
proof (cases k)
  case 0
  with assms show ?thesis by simp
next
  case (Suc j)
  let ?n = "w @ w @ concat (replicate j w)"
  have "?n \<notin> set known_names"
  proof (cases w)
    case Nil
    then have "?n = []" by simp
    then show ?thesis by (simp add: known_names_def insert_names_def retrieve_names_def)
  next
    case (Cons a u)
    show ?thesis
    proof (cases u)
      case Nil
      with Cons show ?thesis by (auto simp: known_names_def insert_names_def retrieve_names_def)
    next
      case (Cons b v)
      note u = this
      show ?thesis
      proof (cases v)
        case Nil
        with u \<open>w = a # u\<close> show ?thesis by (auto simp: known_names_def insert_names_def retrieve_names_def)
      next
        case (Cons d x)
        show ?thesis
        proof (cases x)
          case Nil
          with Cons u \<open>w = a # u\<close> show ?thesis by (auto simp: known_names_def insert_names_def retrieve_names_def)
        next
          case (Cons e y)
          with \<open>v = d # x\<close> u \<open>w = a # u\<close> have "8 \<le> length ?n" by simp
          moreover have "\<forall>x\<in>set known_names. length x \<le> 7"
            by (simp add: known_names_def insert_names_def retrieve_names_def)
          ultimately show ?thesis by fastforce
        qed
      qed
    qed
  qed
  then show ?thesis by (simp add: Suc)
qed


text \<open>Parsing the same unknown name once more fails once more.\<close>

lemma parse_loop_name:
  assumes "\<forall>x\<in>set w. x \<noteq> SP \<and> x \<noteq> CR" "p_state p = sName" "\<not> p_complete p"
  shows "parse_loop (w @ ys) n p = parse_loop ys (n + length w) (p\<lparr>p_name := p_name p @ w\<rparr>)"
  using eats_name [OF assms] assms(3) by (simp add: eats_def parse_loop_append)

lemma unknown_set: "w \<notin> set known_names \<Longrightarrow> w \<notin> set insert_names \<and> w \<notin> set retrieve_names \<and> w \<noteq> ''stats''"
  by (simp add: known_names_def)

lemma stuck_parse:
  assumes "stuck w k c"
  shows "iteration (c_buffer c @ r) (c_session c) =
    Some (Inl Threw, (c_session c)\<lparr>s_parser := (s_parser (c_session c))\<lparr>p_name := concat (replicate (Suc k) w)\<rparr>\<rparr>)"
proof -
  let ?p = "s_parser (c_session c)" and ?n = "concat (replicate (Suc k) w)"
  from assms obtain sep rest where buf: "c_buffer c = w @ sep # rest" and sep: "sep = SP \<or> sep = CR"
    and w: "w \<notin> set known_names" "\<forall>x\<in>set w. x \<noteq> SP \<and> x \<noteq> CR"
    and p: "pending (c_session c) = None" "p_state ?p = sName" "\<not> p_complete ?p" "p_name ?p = concat (replicate k w)"
    by (auto simp: stuck_def)
  have n: "p_name ?p @ w = ?n" using p(4) by (simp add: replicate_append_same [symmetric] del: replicate_append_same)
  have "parse_char sep (length w) (?p\<lparr>p_name := ?n\<rparr>) = (Some (UnknownCommand ?n), ?p\<lparr>p_name := ?n\<rparr>)"
    using sep p(2) unknown_set [OF power_unknown [OF w(1), of k]] by (simp add: parse_char.simps del: replicate_Suc)
  then have "Parse (c_buffer c @ r) ?p = (Inl (UnknownCommand ?n), ?p\<lparr>p_name := ?n\<rparr>)"
    using p(3) by (simp add: Parse_def buf parse_loop_name [OF w(2) p(2,3)] n del: replicate_Suc)
  then show ?thesis using p(1) by (simp add: iteration_def parse_phase_def undefined_error_def del: replicate_Suc)
qed

lemma stuck_step:
  assumes "stuck w k c"
  shows "\<exists>k' c'. DoRead st running reads c s = Some (c', s) \<and> stuck w k' c' \<and> c_responses c' = c_responses c \<and>
    c_alive c' = c_alive c"
proof -
  have stop: "stuck w k (c\<lparr>c_events := m\<rparr>)" for m using assms by (simp add: stuck_def)
  show ?thesis
  proof (cases reads)
    case Nil
    then show ?thesis using stop by (simp add: DoRead_def, blast)
  next
    case (Cons r rs)
    show ?thesis
    proof (cases "r = [] \<or> client_buffer_size - length (c_buffer c) < length r")
      case True
      then show ?thesis using stop Cons by (simp add: DoRead_def, blast)
    next
      case False
      let ?se = "(c_session c)\<lparr>s_parser := (s_parser (c_session c))\<lparr>p_name := concat (replicate (Suc k) w)\<rparr>\<rparr>"
      let ?c = "c\<lparr>c_buffer := c_buffer c @ r, c_session := ?se\<rparr>"
      from False have ne: "c_buffer c @ r \<noteq> []" by auto
      have eq: "c\<lparr>c_buffer := b, c_session := se, c_responses := c_responses c\<rparr> = c\<lparr>c_buffer := b, c_session := se\<rparr>" for b se
        by (cases c) simp
      have "DoRead st running reads c s = Some (?c, s)"
        using False Cons session_loop_end [OF ne stuck_parse [OF assms], of st "\<lambda>out. \<not> running out" True s "c_responses c"] eq
        by (simp add: DoRead_def del: replicate_Suc)
      moreover have "stuck w (Suc k) ?c" using assms by (auto simp: stuck_def)
      ultimately show ?thesis by (intro exI [of _ "Suc k"] exI [of _ ?c]) simp
    qed
  qed
qed

text \<open>A connection that is read from again and again.\<close>

fun read_again :: "'s storage_ops \<Rightarrow> ((string list \<Rightarrow> bool) \<times> string list) list \<Rightarrow> connection \<Rightarrow> 's \<Rightarrow> (connection \<times> 's) option" where
  "read_again st [] c s = Some (c, s)"
| "read_again st ((running, reads) # evs) c s = do {
     (c, s) \<leftarrow> DoRead st running reads c s;
     read_again st evs c s }"

text \<open>
  The read \<open>r\<close> begins with the unknown name \<open>w\<close> and the blank or \<open>CR\<close> that ends it; the connection
  is between two commands, with nothing in its buffer.
\<close>

definition begins_unknown :: "string \<Rightarrow> string \<Rightarrow> bool" where
  "begins_unknown w r \<longleftrightarrow> w \<notin> set known_names \<and> (\<forall>x\<in>set w. x \<noteq> SP \<and> x \<noteq> CR) \<and>
     (\<exists>sep rest. (sep = SP \<or> sep = CR) \<and> r = w @ sep # rest)"

definition at_new_name :: "connection \<Rightarrow> bool" where
  "at_new_name c \<longleftrightarrow> c_buffer c = [] \<and> pending (c_session c) = None \<and> p_state (s_parser (c_session c)) = sName \<and>
     \<not> p_complete (s_parser (c_session c)) \<and> p_name (s_parser (c_session c)) = []"

lemma first_unknown:
  assumes "at_new_name c" "begins_unknown w r" "length r \<le> client_buffer_size"
  shows "\<exists>c'. DoRead st running (r # rs) c s = Some (c', s) \<and> stuck w 1 c' \<and> c_responses c' = c_responses c \<and>
    c_alive c' = c_alive c"
proof -
  let ?b = "c\<lparr>c_buffer := r\<rparr>"
  have 0: "stuck w 0 ?b" using assms(1,2) by (auto simp: stuck_def at_new_name_def begins_unknown_def)
  let ?se = "(c_session c)\<lparr>s_parser := (s_parser (c_session c))\<lparr>p_name := w\<rparr>\<rparr>"
  let ?c = "c\<lparr>c_buffer := r, c_session := ?se\<rparr>"
  from stuck_parse [OF 0, of "[]"] have it: "iteration r (c_session c) = Some (Inl Threw, ?se)" by simp
  have ne: "r \<noteq> []" using assms(2) by (auto simp: begins_unknown_def)
  have eq: "c\<lparr>c_buffer := b, c_session := se, c_responses := c_responses c\<rparr> = c\<lparr>c_buffer := b, c_session := se\<rparr>" for b se
    by (cases c) simp
  have "DoRead st running (r # rs) c s = Some (?c, s)"
    using session_loop_end [OF ne it, of st "\<lambda>out. \<not> running out" True s "c_responses c"] eq ne assms(1,3)
    by (simp add: DoRead_def at_new_name_def)
  moreover have "stuck w 1 ?c" using 0 by (auto simp: stuck_def)
  ultimately show ?thesis by (intro exI [of _ ?c]) simp
qed

lemma stuck_forever:
  assumes "stuck w k c"
  shows "\<exists>c'. read_again st evs c s = Some (c', s) \<and> c_responses c' = c_responses c \<and> c_alive c' = c_alive c"
  using assms
proof (induction evs arbitrary: c k)
  case (Cons ev evs)
  obtain running reads where ev: "ev = (running, reads)" by (cases ev)
  from stuck_step [OF Cons.prems, of st running reads s] obtain k' c1 where
    "DoRead st running reads c s = Some (c1, s)" "stuck w k' c1" "c_responses c1 = c_responses c" "c_alive c1 = c_alive c"
    by blast
  with Cons.IH [of k' c1] ev show ?case by simp
qed simp

text \<open>
  C34. An unknown command name, for example \<open>delete\<close>, that a connection between two commands finds
  whole at the start of a read silences the single-threaded epoll connection for good: the
  exception leaves both the name in the parser and the bytes in the buffer, so that every later
  \<open>DoRead\<close> parses the same bytes after the old name and throws again. Whatever the client sends
  then, no command is executed and no response is added, and yet the connection stays alive; the
  responses queued before are still there to be written.
\<close>

theorem unknown_command_stuck:
  assumes "at_new_name c" "begins_unknown w r" "length r \<le> client_buffer_size"
  shows "\<exists>c'. read_again st ((running, r # rs) # evs) c s = Some (c', s) \<and>
    c_responses c' = c_responses c \<and> c_alive c' = c_alive c"
proof -
  from first_unknown [OF assms, of st running rs s] obtain c1 where c1: "DoRead st running (r # rs) c s = Some (c1, s)"
    "stuck w 1 c1" "c_responses c1 = c_responses c" "c_alive c1 = c_alive c" by blast
  from stuck_forever [OF c1(2)] c1(1,3,4) show ?thesis by simp
qed

text \<open>A connection on which a client sent \<open>delete k\<close>.\<close>

definition delete_request :: string where
  "delete_request = ''delete'' @ [SP] @ ''k'' @ crlf"

lemma delete_read: "DoRead st (\<lambda>_. True) [delete_request] (Start {} (new_connection False 0 True)) s =
   Some ((Start {} (new_connection False 0 True))\<lparr>c_buffer := delete_request,
     c_session := (new_session 0 True)\<lparr>s_parser := (new_parser True)\<lparr>p_name := ''delete''\<rparr>\<rparr>\<rparr>, s)"
proof -
  let ?c = "Start {} (new_connection False 0 True)"
  have "Parse delete_request (new_parser True) = (Inl (UnknownCommand ''delete''), (new_parser True)\<lparr>p_name := ''delete''\<rparr>)"
    by (simp add: delete_request_def Parse_def new_parser_def parse_char.simps SP_def CR_def
      insert_names_def retrieve_names_def)
  then have it: "iteration delete_request (new_session 0 True) = Some (Inl Threw, (new_session 0 True)\<lparr>s_parser := (new_parser True)\<lparr>p_name := ''delete''\<rparr>\<rparr>)"
    by (simp add: iteration_def parse_phase_def new_session_def undefined_error_def)
  have ne: "delete_request \<noteq> []" by (simp add: delete_request_def)
  have fit: "length delete_request < client_buffer_size"
    by (simp add: delete_request_def crlf_def client_buffer_size_def)
  show ?thesis using session_loop_end [OF ne it, of st "\<lambda>_. False" True s "[]"] ne fit
    by (simp add: DoRead_def Start_def new_connection_def)
qed

lemma unknown_command_stuck_witness:
  "\<exists>c'. read_again simple_lru_ops [(\<lambda>_. True, [delete_request]), (\<lambda>_. True, [stats_line])]
      (Start {} (new_connection False 0 True)) (SimpleLRU 64) = Some (c', SimpleLRU 64) \<and> c_responses c' = []"
proof -
  let ?c = "Start {} (new_connection False 0 True)"
  have c: "at_new_name ?c" by (simp add: at_new_name_def Start_def new_connection_def new_session_def new_parser_def)
  have r: "begins_unknown ''delete'' delete_request" "length delete_request \<le> client_buffer_size"
    by (auto simp: begins_unknown_def known_names_def insert_names_def retrieve_names_def SP_def CR_def delete_request_def
      crlf_def client_buffer_size_def)
  have "c_responses ?c = []" by (simp add: Start_def new_connection_def)
  with unknown_command_stuck [OF c r, of simple_lru_ops "\<lambda>_. True" "[]" "[(\<lambda>_. True, [stats_line])]" "SimpleLRU 64"]
  show ?thesis by (auto simp del: read_again.simps)
qed

text \<open>
  A name split over two reads is another matter: after \<open>a\<close> and \<open>d k 0 0 1\<close> the exception is about
  \<open>ad\<close>; the next \<open>DoRead\<close> parses the \<open>d\<close> of the buffer once more, has the name \<open>add\<close>, which the client
  never sent, and executes it.
\<close>

definition ghost_add :: string where
  "ghost_add = ''d k 0 0 1'' @ crlf @ ''x'' @ crlf"

declare evict_loop.simps [code] destroy.simps [code]

lemma split_name_throws:
  "map_option (\<lambda>(c, s). (c_responses c, c_buffer c, p_name (s_parser (c_session c))))
     (read_again simple_lru_ops [(\<lambda>_. True, [''a'']), (\<lambda>_. True, [ghost_add])] (Start {} (new_connection False 0 True)) (SimpleLRU 64)) =
   Some ([], ghost_add, ''ad'')"
  by code_simp

lemma split_name_executes:
  "map_option (\<lambda>(c, s). c_responses c)
     (read_again simple_lru_ops [(\<lambda>_. True, [''a'']), (\<lambda>_. True, [ghost_add]), (\<lambda>_. True, [stats_line])]
       (Start {} (new_connection False 0 True)) (SimpleLRU 64)) =
   Some [''STORED'' @ crlf, ''END'' @ crlf]"
  by code_simp

section \<open>The multi-threaded variants\<close>

lemma drop_sent_all: "length (concat rs) \<le> n \<Longrightarrow> fst (drop_sent rs n) = []"
  by (induction rs n rule: drop_sent.induct) auto

lemma write_step_all:
  assumes "c_responses c \<noteq> []"
  shows "\<exists>c'. write_step extra False (Written (length (to_send c))) c = Some (CallOnClose, c') \<and>
    c_alive c' = c_alive c \<and> c_locked c' = c_locked c"
proof -
  have "fst (drop_sent (c_responses c) (c_data_start c + length (to_send c))) = []"
    by (rule drop_sent_all) (simp add: to_send_def)
  then obtain d where "drop_sent (c_responses c) (c_data_start c + length (to_send c)) = ([], d)"
    by (cases "drop_sent (c_responses c) (c_data_start c + length (to_send c))") simp
  with assms show ?thesis by (simp add: write_step_def Let_def)
qed

text \<open>
  C29. In the multi-threaded server a failed write, and the write that sends the last response
  after \<open>Stop\<close>, never return: \<open>DoWrite\<close> holds the mutex of the connection and calls \<open>OnError\<close> or
  \<open>OnClose\<close>, which lock it again. The single-threaded server marks the connection dead in both
  cases.
\<close>

theorem mt_write_deadlocks:
  assumes "c_responses c \<noteq> []"
  shows "mt_DoWrite run WriteError c = None \<and> mt_DoWrite False (Written (length (to_send c))) c = None \<and>
    (\<exists>c1 c2. DoWrite run WriteError c = Some c1 \<and> \<not> c_alive c1 \<and>
      DoWrite False (Written (length (to_send c))) c = Some c2 \<and> \<not> c_alive c2)"
proof -
  let ?l = "c\<lparr>c_locked := True\<rparr>"
  have same: "to_send ?l = to_send c" by (simp add: to_send_def)
  obtain c1 where c1: "write_step {EPOLLONESHOT} False (Written (length (to_send c))) ?l = Some (CallOnClose, c1)" "c_locked c1"
    using write_step_all [of ?l "{EPOLLONESHOT}"] assms same by auto
  obtain c2 where c2: "write_step {} False (Written (length (to_send c))) c = Some (CallOnClose, c2)"
    using write_step_all [OF assms] by blast
  have "mt_DoWrite run WriteError c = None"
    using assms by (simp add: mt_DoWrite_def with_mu_def write_step_def mt_OnError_def)
  moreover have "mt_DoWrite False (Written (length (to_send c))) c = None"
    using c1 by (simp add: mt_DoWrite_def with_mu_def mt_OnClose_def)
  moreover have "\<exists>c1. DoWrite run WriteError c = Some c1 \<and> \<not> c_alive c1"
    using assms by (simp add: DoWrite_def write_step_def OnError_def)
  moreover have "\<exists>c2. DoWrite False (Written (length (to_send c))) c = Some c2 \<and> \<not> c_alive c2"
    using c2 by (simp add: DoWrite_def OnClose_def)
  ultimately show ?thesis by blast
qed

lemma mt_write_deadlocks_witness:
  "mt_DoWrite True WriteError ((new_connection True 0 True)\<lparr>c_responses := [''END'' @ crlf]\<rparr>) = None"
  using mt_write_deadlocks [of "(new_connection True 0 True)\<lparr>c_responses := [''END'' @ crlf]\<rparr>" True] by simp

text \<open>
  While the server runs, the multi-threaded \<open>DoRead\<close> answers like the single-threaded one: it
  returns if and only if the other does, with the lock free, the same storage, the same
  responses and the same session, whatever the reads, and it is undefined where the other is.
\<close>

theorem mt_read_equals_st:
  assumes "session_ok (c_session c)" "c_buffer c = []" "\<not> c_locked c" "reads_fit reads"
  shows "map_option (\<lambda>(c, s). (c_session c, c_responses c, c_alive c, c_locked c, s)) (mt_DoRead st (\<lambda>_. True) reads c s) =
    map_option (\<lambda>(c, s). (c_session c, c_responses c, c_alive c, c_locked c, s)) (DoRead st (\<lambda>_. True) reads c s)"
proof -
  let ?l = "c\<lparr>c_locked := True\<rparr>"
  have l: "session_ok (c_session ?l)" "c_buffer ?l = []" using assms by simp_all
  note mt = read_calls_feed [OF l assms(4), where st = st and tidy = False and s = s and extra = "{EPOLLONESHOT}"]
  note sc = read_calls_feed [OF assms(1,2,4), where st = st and tidy = True and s = s and extra = "{}"]
  have tidy: "feed_bytes st (\<lambda>_. False) False = feed_bytes st (\<lambda>_. False) True"
    by (intro ext feed_bytes_tidy)
  show ?thesis
  proof (cases "feed_bytes st (\<lambda>_. False) True (concat reads) (c_session c) s (c_responses c)")
    case None
    with mt sc show ?thesis by (simp add: tidy mt_DoRead_def DoRead_def with_mu_unlocked [OF assms(3)])
  next
    case (Some y)
    then obtain e b se1 s1 o1 where y: "feed_bytes st (\<lambda>_. False) True (concat reads) (c_session c) s (c_responses c) = Some (e, b, se1, s1, o1)"
      by (cases y) auto
    show ?thesis
    proof (cases "e = Drained")
      case True
      with mt sc y assms(3) show ?thesis
        by (simp add: tidy mt_DoRead_def DoRead_def with_mu_unlocked [OF assms(3)] Let_def)
    next
      case False
      with mt sc y assms(3) show ?thesis
        by (auto simp: tidy mt_DoRead_def DoRead_def with_mu_unlocked [OF assms(3)] Let_def)
    qed
  qed
qed

lemma mt_read_equals_st_witness:
  "map_option (\<lambda>(c, s). (c_session c, c_responses c, c_alive c, c_locked c, s))
     (mt_DoRead simple_lru_ops (\<lambda>_. True) [stats_line] (new_connection True 0 True) (SimpleLRU 64)) =
   map_option (\<lambda>(c, s). (c_session c, c_responses c, c_alive c, c_locked c, s))
     (DoRead simple_lru_ops (\<lambda>_. True) [stats_line] (new_connection True 0 True) (SimpleLRU 64))"
  by (rule mt_read_equals_st)
    (simp_all add: new_connection_def reads_fit_def stats_line_def client_buffer_size_def)

end
