(* ===== verification/Concurrent_Epoll.thy ===== *)
theory Concurrent_Epoll
  imports Concurrent_Connections Nonblocking_Streams
begin

text \<open>
  The connections of the multi-threaded epoll server (\<open>src/network/mt_nonblocking/Connection.cpp\<close>)
  on one \<open>ThreadSafeSimplLRU\<close>, in steps as small as the interleaving of the workers makes them visible: a read, an
  iteration of the loop of \<open>DoRead\<close>, a step of the storage, a response that is queued, a \<open>DoWrite\<close>. What
  the clients get is explained by one sequential order of the commands they sent.
\<close>

section \<open>The connections\<close>

text \<open>
  No worker handles the connection; one is before a \<open>read\<close> of \<open>DoRead\<close>, or in the loop over the
  buffer; or one has locked \<open>mu\<close> a second time in \<open>DoWrite\<close>. In the last three \<open>mu\<close> is locked.
\<close>

datatype handler_at = NotHandled | ReadCall | InLoop | Deadlocked

text \<open>\<open>es_wire\<close> is what the kernel took from \<open>writev\<close>, \<open>es_reads\<close> what it will yield to \<open>read\<close>.\<close>

record epoll_system =
  es_serving :: serving
  es_conn :: "nat \<Rightarrow> connection"
  es_at :: "nat \<Rightarrow> handler_at"
  es_reads :: "nat \<Rightarrow> string list"
  es_wire :: "nat \<Rightarrow> string"
  es_run :: bool

definition epoll_start :: "simple_lru \<Rightarrow> (nat \<Rightarrow> string list) \<Rightarrow> (nat \<Rightarrow> size_t) \<Rightarrow> (nat \<Rightarrow> bool) \<Rightarrow> epoll_system" where
  "epoll_start s0 reads r neg = \<lparr>es_serving = serving_start s0,
     es_conn = (\<lambda>i. Start {EPOLLONESHOT} (new_connection False (r i) (neg i))), es_at = (\<lambda>_. NotHandled),
     es_reads = reads, es_wire = (\<lambda>_. []), es_run = True\<rparr>"

abbreviation at_conn :: "nat \<Rightarrow> connection \<Rightarrow> handler_at \<Rightarrow> epoll_system \<Rightarrow> epoll_system" where
  "at_conn i c a s \<equiv> s\<lparr>es_conn := (es_conn s)(i := c), es_at := (es_at s)(i := a)\<rparr>"

definition answered :: "nat \<Rightarrow> command \<Rightarrow> string \<Rightarrow> string \<Rightarrow> serving \<Rightarrow> serving" where
  "answered i c args out s = s\<lparr>sv_client := (sv_client s)(i := NoCommand), sv_replies := sv_replies s @ [(i, c, args, out)]\<rparr>"

text \<open>
  A worker handles a connection only when it waits for the event, and \<open>mu\<close> keeps two of them
  apart. A response on a stopping server ends \<open>DoRead\<close> with the session as it is. Every acceptor sets
  \<open>run\<close> when it starts and the one that takes the stop event clears it: the model begins when all acceptors have
  started, so that \<open>run\<close> is cleared once and stays so. (An acceptor that starts later sets it again, and a connection whose session
  was left as it is would execute its last command once more.)
\<close>

inductive epoll_step :: "epoll_system \<Rightarrow> epoll_system \<Rightarrow> bool" where
  read_begins: "es_at s i = NotHandled \<Longrightarrow> c_alive (es_conn s i) \<Longrightarrow> EPOLLIN \<in> c_events (es_conn s i) \<Longrightarrow>
    epoll_step s (at_conn i ((es_conn s i)\<lparr>c_locked := True\<rparr>) ReadCall s)"
| read_returns: "es_at s i = ReadCall \<Longrightarrow> es_reads s i = b # bs \<Longrightarrow> b \<noteq> [] \<Longrightarrow>
    length b \<le> client_buffer_size - length (c_buffer (es_conn s i)) \<Longrightarrow>
    epoll_step s ((at_conn i ((es_conn s i)\<lparr>c_buffer := c_buffer (es_conn s i) @ b\<rparr>) InLoop s)\<lparr>es_reads := (es_reads s)(i := bs)\<rparr>)"
| read_ends: "es_at s i = ReadCall \<Longrightarrow>
    epoll_step s (at_conn i ((es_conn s i)\<lparr>c_events := armed {EPOLLONESHOT} (es_conn s i), c_locked := False\<rparr>) NotHandled s)"
| loop_ends: "es_at s i = InLoop \<Longrightarrow> sv_client (es_serving s) i = NoCommand \<Longrightarrow> c_buffer (es_conn s i) = [] \<Longrightarrow>
    epoll_step s (s\<lparr>es_at := (es_at s)(i := ReadCall)\<rparr>)"
| loop_parses: "es_at s i = InLoop \<Longrightarrow> sv_client (es_serving s) i = NoCommand \<Longrightarrow> c_buffer (es_conn s i) \<noteq> [] \<Longrightarrow>
    iteration (c_buffer (es_conn s i)) (c_session (es_conn s i)) = Some (Inr buf, se) \<Longrightarrow> ready se = None \<Longrightarrow>
    epoll_step s (at_conn i ((es_conn s i)\<lparr>c_buffer := buf, c_session := se\<rparr>) InLoop s)"
| loop_runs: "es_at s i = InLoop \<Longrightarrow> sv_client (es_serving s) i = NoCommand \<Longrightarrow> c_buffer (es_conn s i) \<noteq> [] \<Longrightarrow>
    iteration (c_buffer (es_conn s i)) (c_session (es_conn s i)) = Some (Inr buf, se) \<Longrightarrow> ready se = Some cmd \<Longrightarrow>
    epoll_step s ((at_conn i ((es_conn s i)\<lparr>c_buffer := buf, c_session := se\<rparr>) InLoop s)\<lparr>
      es_serving := begun i cmd (argument se) (es_serving s)\<rparr>)"
| loop_throws: "es_at s i = InLoop \<Longrightarrow> sv_client (es_serving s) i = NoCommand \<Longrightarrow> c_buffer (es_conn s i) \<noteq> [] \<Longrightarrow>
    iteration (c_buffer (es_conn s i)) (c_session (es_conn s i)) = Some (Inl e, se) \<Longrightarrow>
    epoll_step s (if e = Threw then at_conn i ((es_conn s i)\<lparr>c_session := se, c_locked := False\<rparr>) NotHandled s
      else at_conn i ((es_conn s i)\<lparr>c_session := se\<rparr>) ReadCall s)"
| storage_step: "serving_step (\<lambda>_. False) (es_serving s) sv \<Longrightarrow> sv_replies sv = sv_replies (es_serving s) \<Longrightarrow>
    epoll_step s (s\<lparr>es_serving := sv\<rparr>)"
| responds: "es_at s i = InLoop \<Longrightarrow> sv_client (es_serving s) i = Executing c args (Reply out) \<Longrightarrow>
    k = (es_conn s i)\<lparr>c_responses := c_responses (es_conn s i) @ [out @ crlf]\<rparr> \<Longrightarrow>
    epoll_step s ((if es_run s then at_conn i (k\<lparr>c_session := finish (c_session k)\<rparr>) InLoop s
      else at_conn i (k\<lparr>c_events := MASK_EPOLLWR {EPOLLONESHOT}, c_locked := False\<rparr>) NotHandled s)\<lparr>
        es_serving := answered i c args out (es_serving s)\<rparr>)"
| writes: "es_at s i = NotHandled \<Longrightarrow> c_alive (es_conn s i) \<Longrightarrow> write_fits w (es_conn s i) \<Longrightarrow>
    write_step {EPOLLONESHOT} (es_run s) w (es_conn s i) = Some (a, k) \<Longrightarrow>
    epoll_step s ((if a = Nothing then at_conn i k NotHandled s else at_conn i (k\<lparr>c_locked := True\<rparr>) Deadlocked s)\<lparr>
      es_wire := (es_wire s)(i := es_wire s i @ written w (es_conn s i))\<rparr>)"
| hangs_up: "es_at s i = NotHandled \<Longrightarrow> epoll_step s (at_conn i (OnClose (es_conn s i)) NotHandled s)"
| server_stops: "epoll_step s (s\<lparr>es_run := False\<rparr>)"

abbreviation epoll_reachable :: "epoll_system \<Rightarrow> epoll_system \<Rightarrow> bool" where
  "epoll_reachable \<equiv> reaches epoll_step"

section \<open>The invariant of a connection\<close>

definition response_bytes :: "answer list \<Rightarrow> string" where
  "response_bytes as = concat (map (\<lambda>a. replied a @ crlf) as)"

text \<open>The session as it will be when the command that executes has been answered on a running server.\<close>

definition session_after :: "client \<Rightarrow> connection \<Rightarrow> session" where
  "session_after cl c = (if in_hand cl = [] then c_session c else finish (c_session c))"

text \<open>
  Either all commands of the client, \<open>rs\<close>, are those answered, the one in hand and those still to come, or the
  server stops and the connection is never read again.
\<close>

definition still_read :: "(command \<times> string) list \<Rightarrow> client \<Rightarrow> answer list \<Rightarrow> connection \<Rightarrow> string list \<Rightarrow> handler_at \<Rightarrow> bool" where
  "still_read rs cl as c bs a \<longleftrightarrow> session_ok (session_after cl c) \<and> (a \<noteq> InLoop \<longrightarrow> c_buffer c = []) \<and>
     (\<exists>later se. requests (c_buffer c @ concat bs) (session_after cl c) = Some (Drained, later, se) \<and>
        rs = map sent as @ in_hand cl @ later)"

definition never_read :: "(command \<times> string) list \<Rightarrow> bool \<Rightarrow> client \<Rightarrow> answer list \<Rightarrow> connection \<Rightarrow> handler_at \<Rightarrow> bool" where
  "never_read rs run cl as c a \<longleftrightarrow> \<not> run \<and> EPOLLIN \<notin> c_events c \<and> (a = NotHandled \<or> a = Deadlocked) \<and>
     in_hand cl = [] \<and> prefix (map sent as) rs"

definition epoll_conn_inv :: "(command \<times> string) list \<Rightarrow> bool \<Rightarrow> client \<Rightarrow> answer list \<Rightarrow> connection \<Rightarrow> string list \<Rightarrow>
    handler_at \<Rightarrow> string \<Rightarrow> bool" where
  "epoll_conn_inv rs run cl as c bs a wire \<longleftrightarrow> queue_ok c \<and> c_locked c = (a \<noteq> NotHandled) \<and>
     (in_hand cl \<noteq> [] \<longrightarrow> a = InLoop) \<and> wire @ to_send c = response_bytes as \<and>
     (still_read rs cl as c bs a \<or> never_read rs run cl as c a)"

definition epoll_inv :: "(command \<Rightarrow> bool) \<Rightarrow> simple_lru \<Rightarrow> (nat \<Rightarrow> (command \<times> string) list) \<Rightarrow> epoll_system \<Rightarrow> bool" where
  "epoll_inv ok s0 all s \<longleftrightarrow> serving_reachable ok s0 (es_serving s) \<and>
     (\<forall>i. epoll_conn_inv (all i) (es_run s) (sv_client (es_serving s) i) (answers_of i (sv_replies (es_serving s)))
        (es_conn s i) (es_reads s i) (es_at s i) (es_wire s i))"


abbreviation conn_inv_of :: "(command \<times> string) list \<Rightarrow> epoll_system \<Rightarrow> nat \<Rightarrow> bool" where
  "conn_inv_of rs s i \<equiv> epoll_conn_inv rs (es_run s) (sv_client (es_serving s) i) (answers_of i (sv_replies (es_serving s)))
     (es_conn s i) (es_reads s i) (es_at s i) (es_wire s i)"

lemma epoll_invD: "epoll_inv ok s0 all s \<Longrightarrow> conn_inv_of (all i) s i"
  by (simp add: epoll_inv_def)

text \<open>A step that changes one connection and what the others see of none.\<close>

lemma epoll_inv_conn:
  assumes "epoll_inv ok s0 all s" "serving_reachable ok s0 (es_serving t)" "conn_inv_of (all i) t i" "es_run t = es_run s"
    "\<And>j. j \<noteq> i \<Longrightarrow> sv_client (es_serving t) j = sv_client (es_serving s) j \<and>
      answers_of j (sv_replies (es_serving t)) = answers_of j (sv_replies (es_serving s)) \<and>
      es_conn t j = es_conn s j \<and> es_reads t j = es_reads s j \<and> es_at t j = es_at s j \<and> es_wire t j = es_wire s j"
  shows "epoll_inv ok s0 all t"
  unfolding epoll_inv_def
proof (intro conjI allI)
  fix j
  show "conn_inv_of (all j) t j"
  proof (cases "j = i")
    case False
    with epoll_invD [OF assms(1), of j] assms(5) [OF False] assms(4) show ?thesis by simp
  qed (use assms(3) in simp)
qed (rule assms(2))

lemma epoll_inv_same_serving:
  assumes "epoll_inv ok s0 all s" "conn_inv_of (all i) t i" "es_run t = es_run s" "es_serving t = es_serving s"
    "\<And>j. j \<noteq> i \<Longrightarrow> es_conn t j = es_conn s j \<and> es_reads t j = es_reads s j \<and> es_at t j = es_at s j \<and> es_wire t j = es_wire s j"
  shows "epoll_inv ok s0 all t"
  using assms by (intro epoll_inv_conn [OF assms(1), of t i]) (simp_all add: epoll_inv_def)

section \<open>The steps of a connection\<close>

lemma queue_keeps [simp]:
  "queue_ok (c\<lparr>c_locked := l\<rparr>) = queue_ok c" "to_send (c\<lparr>c_locked := l\<rparr>) = to_send c"
  "queue_ok (c\<lparr>c_buffer := b\<rparr>) = queue_ok c" "to_send (c\<lparr>c_buffer := b\<rparr>) = to_send c"
  "queue_ok (c\<lparr>c_session := se\<rparr>) = queue_ok c" "to_send (c\<lparr>c_session := se\<rparr>) = to_send c"
  by (simp_all add: queue_ok_def to_send_def split: list.split)

lemma queue_response:
  assumes "queue_ok c"
  shows "queue_ok (c\<lparr>c_responses := c_responses c @ [out @ crlf]\<rparr>)"
    "to_send (c\<lparr>c_responses := c_responses c @ [out @ crlf]\<rparr>) = to_send c @ out @ crlf"
  using assms by (cases "c_responses c"; simp add: queue_ok_def to_send_def crlf_def)+

lemma in_hand_empty [simp]: "in_hand cl = [] \<longleftrightarrow> cl = NoCommand"
  by (cases cl) simp_all

lemma still_read_iterates:
  assumes "still_read rs NoCommand as c bs InLoop" "c_buffer c \<noteq> []" "iteration (c_buffer c) (c_session c) = Some (x, se)"
  shows "x \<noteq> Inl e"
    and "x = Inr buf \<Longrightarrow> ready se = None \<Longrightarrow> still_read rs NoCommand as (c\<lparr>c_buffer := buf, c_session := se\<rparr>) bs InLoop"
    and "x = Inr buf \<Longrightarrow> ready se = Some cmd \<Longrightarrow>
      still_read rs (Executing cmd (argument se) p) as (c\<lparr>c_buffer := buf, c_session := se\<rparr>) bs InLoop \<and> (cmd, argument se) \<in> set rs"
proof -
  from assms(1) obtain later se' where ok: "session_ok (c_session c)" and
    req: "requests (c_buffer c @ concat bs) (c_session c) = Some (Drained, later, se')" "rs = map sent as @ later"
    by (auto simp: still_read_def session_after_def)
  note it = requests_iteration_rest [OF ok assms(2), where rest = "concat bs"]
  show "x \<noteq> Inl e" using it(1) assms(3) req(1) by auto
  show "still_read rs NoCommand as (c\<lparr>c_buffer := buf, c_session := se\<rparr>) bs InLoop" if "x = Inr buf" "ready se = None"
  proof -
    from assms(3) that(1) have i: "iteration (c_buffer c) (c_session c) = Some (Inr buf, se)" by simp
    from it(2) [OF i that(2)] req(1) have "requests (buf @ concat bs) se = Some (Drained, later, se')" by simp
    with req(2) iteration_ok [OF ok assms(2) i that(2)] show ?thesis by (simp add: still_read_def session_after_def)
  qed
  show "still_read rs (Executing cmd (argument se) p) as (c\<lparr>c_buffer := buf, c_session := se\<rparr>) bs InLoop \<and> (cmd, argument se) \<in> set rs"
    if "x = Inr buf" "ready se = Some cmd"
  proof -
    from assms(3) that(1) have i: "iteration (c_buffer c) (c_session c) = Some (Inr buf, se)" by simp
    from req(1) [unfolded it(3) [OF i that(2)]] obtain more where
      "requests (buf @ concat bs) (finish se) = Some (Drained, more, se')" "later = (cmd, argument se) # more"
      by (auto simp: bind_eq_Some_conv)
    with req(2) show ?thesis by (simp add: still_read_def session_after_def)
  qed
qed

lemma never_read_InLoop: "\<not> never_read rs run cl as c InLoop" "\<not> never_read rs run cl as c ReadCall"
  by (simp_all add: never_read_def)

lemma EPOLLIN_masks: "EPOLLIN \<in> MASK_EPOLLRD x" "EPOLLIN \<in> MASK_EPOLLRDWR x" "EPOLLIN \<notin> MASK_EPOLLWR {EPOLLONESHOT}"
  by (simp_all add: MASK_EPOLLRD_def MASK_EPOLLRDWR_def MASK_EPOLLWR_def)

lemma write_step_keeps_out:
  "write_step {EPOLLONESHOT} False w c = Some (a, c') \<Longrightarrow> EPOLLIN \<notin> c_events c \<Longrightarrow> EPOLLIN \<notin> c_events c'"
  by (auto simp: write_step_def Let_def EPOLLIN_masks split: write_result.splits prod.splits if_splits)

lemma epoll_step_inv:
  assumes "epoll_step s t" "epoll_inv ok s0 all s" "\<And>i. \<forall>r \<in> set (all i). ok (fst r)"
  shows "epoll_inv ok s0 all t"
  using assms(1)
proof cases
  case (read_begins i)
  with epoll_invD [OF assms(2), of i] show ?thesis
    by (intro epoll_inv_same_serving [OF assms(2), of i])
      (auto simp: epoll_conn_inv_def still_read_def never_read_def session_after_def)
next
  case (read_returns i b bs)
  with epoll_invD [OF assms(2), of i] show ?thesis
    by (intro epoll_inv_same_serving [OF assms(2), of i])
      (auto simp: epoll_conn_inv_def still_read_def never_read_def session_after_def)
next
  case (read_ends i)
  with epoll_invD [OF assms(2), of i] show ?thesis
    by (intro epoll_inv_same_serving [OF assms(2), of i])
      (auto simp: epoll_conn_inv_def still_read_def never_read_def session_after_def)
next
  case (loop_ends i)
  with epoll_invD [OF assms(2), of i] show ?thesis
    by (intro epoll_inv_same_serving [OF assms(2), of i])
      (auto simp: epoll_conn_inv_def still_read_def never_read_def session_after_def)
next
  case (loop_parses i buf se)
  from epoll_invD [OF assms(2), of i] loop_parses(2,3)
  have "still_read (all i) NoCommand (answers_of i (sv_replies (es_serving s))) (es_conn s i) (es_reads s i) InLoop"
    by (simp add: epoll_conn_inv_def never_read_InLoop)
  from still_read_iterates(2) [OF this loop_parses(4,5) refl loop_parses(6)] epoll_invD [OF assms(2), of i] loop_parses show ?thesis
    by (intro epoll_inv_same_serving [OF assms(2), of i]) (auto simp: epoll_conn_inv_def)
next
  case (loop_runs i buf se cmd)
  let ?sv = "begun i cmd (argument se) (es_serving s)"
  from epoll_invD [OF assms(2), of i] loop_runs(2,3)
  have "still_read (all i) NoCommand (answers_of i (sv_replies (es_serving s))) (es_conn s i) (es_reads s i) InLoop"
    by (simp add: epoll_conn_inv_def never_read_InLoop)
  note read = still_read_iterates(3) [OF this loop_runs(4,5) refl loop_runs(6)]
  with assms(3) [of i] have "ok cmd" by fastforce
  from begin_command [OF loop_runs(3), of ok, OF this] have "serving_step ok (es_serving s) ?sv" by (simp add: begun_def)
  with assms(2) have "serving_reachable ok s0 ?sv" by (auto simp: epoll_inv_def intro: reaches_step)
  with read epoll_invD [OF assms(2), of i] loop_runs show ?thesis
    by (intro epoll_inv_conn [OF assms(2), of _ i]) (auto simp: epoll_conn_inv_def begun_def)
next
  case (loop_throws i e se)
  from epoll_invD [OF assms(2), of i] loop_throws(2,3)
  have "still_read (all i) NoCommand (answers_of i (sv_replies (es_serving s))) (es_conn s i) (es_reads s i) InLoop"
    by (simp add: epoll_conn_inv_def never_read_InLoop)
  from still_read_iterates(1) [OF this loop_throws(4,5)] show ?thesis by blast
next
  case (storage_step sv)
  have hand: "in_hand (sv_client sv i) = in_hand (sv_client (es_serving s) i)" for i
    using asked_serving_step [OF storage_step(2), of i] storage_step(3) by (simp add: asked_def)
  then have "sv_client sv i = NoCommand \<longleftrightarrow> sv_client (es_serving s) i = NoCommand" for i by (metis in_hand_empty)
  with hand have "conn_inv_of (all i) t i" for i
    using epoll_invD [OF assms(2), of i] storage_step(3)
    by (simp add: storage_step(1) epoll_conn_inv_def still_read_def never_read_def session_after_def)
  moreover from serving_step_mono [OF storage_step(2), of ok] assms(2) have "serving_reachable ok s0 sv"
    by (auto simp: epoll_inv_def intro: reaches_step)
  ultimately show ?thesis using storage_step(1) by (simp add: epoll_inv_def)
next
  case (responds i c args out k)
  note inv = epoll_invD [OF assms(2), of i, unfolded responds(2,3)]
  let ?sv = "answered i c args out (es_serving s)" and ?k = "if es_run s then k\<lparr>c_session := finish (c_session k)\<rparr>
      else k\<lparr>c_events := MASK_EPOLLWR {EPOLLONESHOT}, c_locked := False\<rparr>"
  from answer_command [OF responds(3), of ok] assms(2) have reach: "serving_reachable ok s0 ?sv"
    by (auto simp: epoll_inv_def answered_def intro: reaches_step)
  from inv have "still_read (all i) (Executing c args (Reply out)) (answers_of i (sv_replies (es_serving s))) (es_conn s i) (es_reads s i) InLoop"
    by (simp add: epoll_conn_inv_def never_read_InLoop)
  then have "if es_run s then still_read (all i) NoCommand (answers_of i (sv_replies ?sv)) ?k (es_reads s i) InLoop
      else never_read (all i) False NoCommand (answers_of i (sv_replies ?sv)) ?k NotHandled"
    by (auto simp: still_read_def never_read_def session_after_def answered_def answers_of_def sent_def EPOLLIN_masks responds(4))
  moreover from inv have "queue_ok ?k \<and> es_wire s i @ to_send ?k = response_bytes (answers_of i (sv_replies ?sv))"
    using queue_response [of "es_conn s i" out]
    by (auto simp: epoll_conn_inv_def responds(4) answered_def answers_of_def response_bytes_def replied_def)
  ultimately show ?thesis using inv responds(1,4)
    by (intro epoll_inv_conn [OF assms(2), of _ i])
      (auto simp: epoll_conn_inv_def reach, auto simp: answered_def answers_of_def)
next
  case (writes i w a k)
  note inv = epoll_invD [OF assms(2), of i, unfolded writes(2)]
  from inv have "queue_ok (es_conn s i)" by (simp add: epoll_conn_inv_def)
  from write_step_queue [OF this writes(4,5)]
  have k: "to_send (es_conn s i) = written w (es_conn s i) @ to_send k" "queue_ok k" "c_session k = c_session (es_conn s i)"
    "c_buffer k = c_buffer (es_conn s i)" "c_locked k = c_locked (es_conn s i)" by simp_all
  have "never_read rs (es_run s) cl as k NotHandled" if "never_read rs (es_run s) cl as (es_conn s i) NotHandled" for rs cl as
    using that write_step_keeps_out [of w "es_conn s i" a k] writes(5) by (simp add: never_read_def)
  with inv k writes show ?thesis
    by (intro epoll_inv_same_serving [OF assms(2), of i])
      (auto simp: epoll_conn_inv_def still_read_def session_after_def never_read_def)
next
  case (hangs_up i)
  with epoll_invD [OF assms(2), of i] show ?thesis
    by (intro epoll_inv_same_serving [OF assms(2), of i])
      (auto simp: epoll_conn_inv_def still_read_def never_read_def session_after_def OnClose_def)
next
  case server_stops
  with assms(2) show ?thesis by (auto simp: epoll_inv_def epoll_conn_inv_def never_read_def)
qed


interpretation epoll: step_invariant epoll_step "\<lambda>s. epoll_inv ok s0 all s \<and> (\<forall>i. \<forall>r \<in> set (all i). ok (fst r))" for ok s0 all
  by unfold_locales (auto intro: epoll_step_inv)

text \<open>All commands in what a client sends, in a stream that throws nothing.\<close>

definition all_requests :: "string list \<Rightarrow> session \<Rightarrow> (command \<times> string) list option" where
  "all_requests reads se = (case requests (concat reads) se of Some (Drained, rs, se') \<Rightarrow> Some rs | _ \<Rightarrow> None)"

lemma all_requests_iff: "all_requests reads se = Some rs \<longleftrightarrow> (\<exists>se'. requests (concat reads) se = Some (Drained, rs, se'))"
  by (auto simp: all_requests_def split: option.splits loop_end.splits)

lemma epoll_start_inv:
  assumes "\<And>i. all_requests (reads i) (new_session (r i) (neg i)) = Some (all i)"
  shows "epoll_inv ok s0 all (epoll_start s0 reads r neg)"
  using assms
  by (simp add: epoll_inv_def epoll_start_def epoll_conn_inv_def still_read_def session_after_def serving_start_def
    Start_def new_connection_def queue_ok_def to_send_def response_bytes_def answers_of_def reaches_refl all_requests_iff)

section \<open>Property\<close>

text \<open>The reads have been used up by a \<open>DoRead\<close> that is over, and the server still reads.\<close>

definition read_out :: "epoll_system \<Rightarrow> nat \<Rightarrow> bool" where
  "read_out s i \<longleftrightarrow> es_at s i = NotHandled \<and> EPOLLIN \<in> c_events (es_conn s i) \<and> es_reads s i = []"

text \<open>
  C8. The multi-threaded epoll server is linearizable: whatever clients send that contains only commands of one storage
  call, however it is cut into reads, however the workers interleave on the storage and the kernel cuts their writes, and whether
  or not the server stops (all its acceptors having started before), there is one order of commands that explains everything. Executed one after another in
  this order the commands give the object that is stored; restricted to one connection the order is a beginning of the commands in the
  bytes of that client; and what has been written to a client with what is queued for it are the responses, in this order and
  unharmed, of a beginning of its commands, of all of them when the connection has been read to its end.
\<close>

theorem epoll_linearizable:
  assumes "epoll_reachable (epoll_start s0 reads r neg) s"
    "\<And>i. \<exists>rs. all_requests (reads i) (new_session (r i) (neg i)) = Some rs \<and> (\<forall>x \<in> set rs. single_call (fst x))"
  shows "\<exists>order.
    run_commands simple_lru_ops (map sent order) s0 = Some (map replied order, ts_object (sv_storage (es_serving s))) \<and>
    (\<forall>i. \<exists>rs later. all_requests (reads i) (new_session (r i) (neg i)) = Some rs \<and> prefix (map sent (answers_of i order)) rs \<and>
       response_bytes (answers_of i order) = (es_wire s i @ to_send (es_conn s i)) @ later \<and>
       (read_out s i \<longrightarrow> later = [] \<and> map sent (answers_of i order) = rs))"
proof -
  define all where "all i = the (all_requests (reads i) (new_session (r i) (neg i)))" for i
  have all: "all_requests (reads i) (new_session (r i) (neg i)) = Some (all i)" "\<forall>x \<in> set (all i). single_call (fst x)" for i
    using assms(2) [of i] by (auto simp: all_def)
  have "epoll_inv single_call s0 all (epoll_start s0 reads r neg)" by (rule epoll_start_inv) (rule all(1))
  with all(2) have "epoll_inv single_call s0 all (epoll_start s0 reads r neg) \<and> (\<forall>i. \<forall>x \<in> set (all i). single_call (fst x))" by blast
  from epoll.along [OF assms(1) this] have inv: "epoll_inv single_call s0 all s" ..
  let ?sv = "es_serving s"
  from inv have "serving_reachable single_call s0 ?sv" by (simp add: epoll_inv_def)
  note explained = serving_explained [OF this]
  have "\<exists>later. prefix (map sent (answers_of i (sv_order ?sv))) (all i) \<and>
       response_bytes (answers_of i (sv_order ?sv)) = (es_wire s i @ to_send (es_conn s i)) @ later \<and>
       (read_out s i \<longrightarrow> later = [] \<and> map sent (answers_of i (sv_order ?sv)) = all i)" for i
  proof -
    let ?rest = "undelivered i (gone_on (ts_phase (sv_storage ?sv) i) (sv_client ?sv i))"
    note c = epoll_invD [OF inv, of i]
    from c have wire: "es_wire s i @ to_send (es_conn s i) = response_bytes (answers_of i (sv_replies ?sv))"
      by (simp add: epoll_conn_inv_def)
    have asked: "prefix (map sent (answers_of i (sv_replies ?sv)) @ in_hand (sv_client ?sv i)) (all i)"
      using c by (auto simp: epoll_conn_inv_def still_read_def never_read_def)
    have pre: "prefix (map sent (answers_of i (sv_replies ?sv)) @ map sent ?rest) (all i)"
      by (rule prefix_order.trans [OF _ asked]) (simp add: sent_undelivered)
    have out: "map sent (answers_of i (sv_replies ?sv)) = all i \<and> sv_client ?sv i = NoCommand" if "read_out s i"
    proof -
      from that c have at: "es_at s i = NotHandled" "es_reads s i = []" "in_hand (sv_client ?sv i) = []"
        by (auto simp: epoll_conn_inv_def read_out_def)
      from that c have "still_read (all i) (sv_client ?sv i) (answers_of i (sv_replies ?sv)) (es_conn s i) (es_reads s i) (es_at s i)"
        unfolding epoll_conn_inv_def never_read_def read_out_def by blast
      with at show ?thesis by (auto simp: still_read_def)
    qed
    show ?thesis
    proof (intro exI [of _ "response_bytes ?rest"] conjI impI)
      show "prefix (map sent (answers_of i (sv_order ?sv))) (all i)" using pre by (simp add: explained(2))
      show "response_bytes (answers_of i (sv_order ?sv)) = (es_wire s i @ to_send (es_conn s i)) @ response_bytes ?rest"
        unfolding wire by (simp add: explained(2) response_bytes_def)
      assume "read_out s i"
      with out have "map sent (answers_of i (sv_replies ?sv)) = all i" "sv_client ?sv i = NoCommand" by blast+
      then show "response_bytes ?rest = []" "map sent (answers_of i (sv_order ?sv)) = all i"
        by (simp_all add: explained(2) response_bytes_def)
    qed
  qed
  with explained(1) all(1) show ?thesis by (intro exI [of _ "sv_order ?sv"]) blast
qed


text \<open>One client that sends \<open>stats\<close>, until its response is queued.\<close>

lemma stats_queued:
  assumes "iteration (''stats'' @ crlf) (new_session 0 True) = Some (Inr [], se)" "ready se = Some StatsCmd"
  shows "\<exists>s. epoll_reachable (epoll_start s0 (\<lambda>i. if i = 0 then [''stats'' @ crlf] else []) (\<lambda>_. 0) (\<lambda>_. True)) s \<and> read_out s 0"
proof -
  let ?a = "epoll_start s0 (\<lambda>i. if i = 0 then [''stats'' @ crlf] else []) (\<lambda>_. 0) (\<lambda>_. True)"
  let ?b = "at_conn 0 ((es_conn ?a 0)\<lparr>c_locked := True\<rparr>) ReadCall ?a"
  let ?c = "(at_conn 0 ((es_conn ?b 0)\<lparr>c_buffer := c_buffer (es_conn ?b 0) @ ''stats'' @ crlf\<rparr>) InLoop ?b)\<lparr>es_reads := (es_reads ?b)(0 := [])\<rparr>"
  let ?d = "(at_conn 0 ((es_conn ?c 0)\<lparr>c_buffer := [], c_session := se\<rparr>) InLoop ?c)\<lparr>es_serving := begun 0 StatsCmd (argument se) (es_serving ?c)\<rparr>"
  have ab: "epoll_step ?a ?b"
    by (rule read_begins) (simp_all add: epoll_start_def Start_def EPOLLIN_masks)
  have bc: "epoll_step ?b ?c"
    by (rule read_returns) (simp_all add: epoll_start_def Start_def new_connection_def client_buffer_size_def crlf_def)
  have cd: "epoll_step ?c ?d"
    by (rule loop_runs) (use assms in \<open>simp_all add: epoll_start_def Start_def new_connection_def serving_start_def\<close>)
  let ?k = "(es_conn ?d 0)\<lparr>c_responses := [''END'' @ crlf]\<rparr>"
  let ?e = "(at_conn 0 (?k\<lparr>c_session := finish (c_session ?k)\<rparr>) InLoop ?d)\<lparr>es_serving := answered 0 StatsCmd (argument se) ''END'' (es_serving ?d)\<rparr>"
  let ?f = "?e\<lparr>es_at := (es_at ?e)(0 := ReadCall)\<rparr>"
  let ?g = "at_conn 0 ((es_conn ?f 0)\<lparr>c_events := armed {EPOLLONESHOT} (es_conn ?f 0), c_locked := False\<rparr>) NotHandled ?f"
  have de: "epoll_step ?d ?e"
    using responds [of ?d 0 StatsCmd "argument se" "''END''" ?k]
    by (simp add: epoll_start_def Start_def new_connection_def serving_start_def begun_def)
  have ef: "epoll_step ?e ?f"
    by (rule loop_ends) (simp_all add: answered_def)
  have fg: "epoll_step ?f ?g" by (rule read_ends) simp
  note more = reaches_step [where step = epoll_step]
  note c = more [OF more [OF reaches_refl ab] bc]
  note e = more [OF more [OF c cd] de]
  have "read_out ?g 0" by (simp add: read_out_def armed_def EPOLLIN_masks)
  with more [OF more [OF e ef] fg] show ?thesis by blast
qed

lemma epoll_linearizable_witness:
  "\<exists>s order. epoll_reachable (epoll_start (SimpleLRU 64) (\<lambda>i. if i = 0 then [''stats'' @ crlf] else []) (\<lambda>_. 0) (\<lambda>_. True)) s \<and>
    response_bytes (answers_of 0 order) = es_wire s 0 @ to_send (es_conn s 0) \<and> map sent (answers_of 0 order) = [(StatsCmd, [])]"
proof -
  let ?reads = "\<lambda>i :: nat. if i = 0 then [''stats'' @ crlf] else []"
  have "map_option (\<lambda>(x, se). (x, ready se)) (iteration (''stats'' @ crlf) (new_session 0 True)) = Some (Inr [], Some StatsCmd)"
    by code_simp
  then obtain se where "iteration (''stats'' @ crlf) (new_session 0 True) = Some (Inr [], se)" "ready se = Some StatsCmd" by auto
  from stats_queued [OF this] obtain s where
    s: "epoll_reachable (epoll_start (SimpleLRU 64) ?reads (\<lambda>_. 0) (\<lambda>_. True)) s" "read_out s 0" by blast
  have req: "all_requests [''stats'' @ crlf] (new_session 0 True) = Some [(StatsCmd, [])]" by code_simp
  have none: "all_requests [] (new_session 0 True) = Some []" by (simp add: all_requests_def)
  have "\<exists>rs. all_requests (?reads i) (new_session 0 True) = Some rs \<and> (\<forall>x \<in> set rs. single_call (fst x))" for i
    using req none by (cases "i = 0") (simp_all del: append.simps)
  from epoll_linearizable [OF s(1) this] obtain order where
    "\<forall>i. \<exists>rs later. all_requests (?reads i) (new_session 0 True) = Some rs \<and> prefix (map sent (answers_of i order)) rs \<and>
       response_bytes (answers_of i order) = (es_wire s i @ to_send (es_conn s i)) @ later \<and>
       (read_out s i \<longrightarrow> later = [] \<and> map sent (answers_of i order) = rs)" by (elim exE conjE) (rule that)
  then have "\<exists>rs later. all_requests (?reads 0) (new_session 0 True) = Some rs \<and>
       response_bytes (answers_of 0 order) = (es_wire s 0 @ to_send (es_conn s 0)) @ later \<and>
       (read_out s 0 \<longrightarrow> later = [] \<and> map sent (answers_of 0 order) = rs)" by blast
  then obtain rs later where "all_requests (?reads 0) (new_session 0 True) = Some rs"
    "response_bytes (answers_of 0 order) = (es_wire s 0 @ to_send (es_conn s 0)) @ later"
    "later = []" "map sent (answers_of 0 order) = rs" using s(2) by blast
  then have "response_bytes (answers_of 0 order) = es_wire s 0 @ to_send (es_conn s 0)" "map sent (answers_of 0 order) = [(StatsCmd, [])]"
    using req by (simp_all del: append.simps)
  with s(1) show ?thesis by (intro exI [of _ s] exI [of _ order] conjI)
qed

end
