(* ===== verification/Uninterrupted_Reads.thy ===== *)
theory Uninterrupted_Reads
  imports Concurrent_Epoll
begin

text \<open>
  A \<open>DoRead\<close> whose worker is never interrupted: the small steps of \<open>Concurrent_Epoll\<close> then compute what
  \<open>mt_DoRead\<close> does in one, and nothing else. So both are models of the same function, with and without the
  other workers.
\<close>

section \<open>The steps of one worker\<close>

text \<open>The next read of connection \<open>i\<close> yields bytes, and they fit.\<close>

definition yields :: "nat \<Rightarrow> epoll_system \<Rightarrow> bool" where
  "yields i s \<longleftrightarrow> (\<exists>b bs. es_reads s i = b # bs \<and> b \<noteq> [] \<and> length b \<le> client_buffer_size - length (c_buffer (es_conn s i)))"

text \<open>
  The steps of the system that are those of the worker in \<open>DoRead\<close> of connection \<open>i\<close>: nothing else
  moves, neither another connection, nor its client in the storage, nor the flag \<open>run\<close>, and \<open>read\<close> fails
  only when the kernel has nothing to yield that fits.
\<close>

definition reading_step :: "nat \<Rightarrow> epoll_system \<Rightarrow> epoll_system \<Rightarrow> bool" where
  "reading_step i s t \<longleftrightarrow> epoll_step s t \<and> es_at s i \<in> {ReadCall, InLoop} \<and> es_run t = es_run s \<and> es_wire t = es_wire s \<and>
     (\<forall>j. j \<noteq> i \<longrightarrow> es_conn t j = es_conn s j \<and> es_at t j = es_at s j \<and> es_reads t j = es_reads s j \<and>
        sv_client (es_serving t) j = sv_client (es_serving s) j \<and>
        ts_phase (sv_storage (es_serving t)) j = ts_phase (sv_storage (es_serving s)) j) \<and>
     (es_at s i = ReadCall \<and> es_at t i = NotHandled \<longrightarrow> \<not> yields i s)"

lemma reading_is_epoll: "reaches (reading_step i) s t \<Longrightarrow> epoll_reachable s t"
  by (induction rule: reaches.induct) (auto simp: reading_step_def intro: reaches.intros)

text \<open>The worker that reads is alone: nobody else is in the storage, and what it does there belongs to its command.\<close>

definition solo :: "nat \<Rightarrow> epoll_system \<Rightarrow> bool" where
  "solo i s \<longleftrightarrow> (let m = sv_storage (es_serving s) in
     (\<forall>j. j \<noteq> i \<longrightarrow> ts_phase m j = Outside) \<and> ts_owner m = (if ts_phase m i = Outside then None else Some i) \<and>
     (sv_client (es_serving s) i \<noteq> NoCommand \<longrightarrow> es_at s i = InLoop) \<and>
     (\<forall>x. ts_phase m i = Holding x \<longrightarrow> (\<exists>c args f. sv_client (es_serving s) i = Executing c args (Call x f))) \<and>
     (\<forall>x v. ts_phase m i = Working x v \<longrightarrow> (\<exists>c args f. sv_client (es_serving s) i = Executing c args (Call x f))) \<and>
     (\<forall>r. ts_phase m i = Leaving r \<longrightarrow> (\<exists>c args x f. sv_client (es_serving s) i = Executing c args (Call x f))))"

text \<open>What the worker does next in the storage.\<close>

definition advance_storage :: "nat \<Rightarrow> command \<Rightarrow> string \<Rightarrow> lru_op \<Rightarrow> (op_result \<Rightarrow> program) \<Rightarrow> serving \<Rightarrow> serving option" where
  "advance_storage i c args x f sv = (let m = sv_storage sv in case ts_phase m i of
       Outside \<Rightarrow> Some (sv\<lparr>sv_storage := m\<lparr>ts_owner := Some i, ts_phase := (ts_phase m)(i := Holding x)\<rparr>\<rparr>)
     | Holding y \<Rightarrow> Some (sv\<lparr>sv_storage := m\<lparr>ts_phase := (ts_phase m)(i := Working y (ts_object m))\<rparr>\<rparr>)
     | Working y v \<Rightarrow> map_option (\<lambda>(r, v'). sv\<lparr>sv_storage := m\<lparr>ts_object := v', ts_phase := (ts_phase m)(i := Leaving r),
         ts_log := ts_log m @ [(i, y, r)]\<rparr>, sv_order := sv_order sv @ decided i c args (f r)\<rparr>) (run_op y v)
     | Leaving r \<Rightarrow> Some (sv\<lparr>sv_storage := m\<lparr>ts_owner := None, ts_phase := (ts_phase m)(i := Outside)\<rparr>,
         sv_client := (sv_client sv)(i := Executing c args (f r))\<rparr>))"

definition advance :: "nat \<Rightarrow> epoll_system \<Rightarrow> epoll_system option" where
  "advance i s = (let c = es_conn s i in case es_at s i of
       ReadCall \<Rightarrow> Some (if yields i s
         then (at_conn i (c\<lparr>c_buffer := c_buffer c @ hd (es_reads s i)\<rparr>) InLoop s)\<lparr>es_reads := (es_reads s)(i := tl (es_reads s i))\<rparr>
         else at_conn i (c\<lparr>c_events := armed {EPOLLONESHOT} c, c_locked := False\<rparr>) NotHandled s)
     | InLoop \<Rightarrow> (case sv_client (es_serving s) i of
         Executing cmd args (Call x f) \<Rightarrow> map_option (\<lambda>sv. s\<lparr>es_serving := sv\<rparr>) (advance_storage i cmd args x f (es_serving s))
       | Executing cmd args (Reply out) \<Rightarrow>
           (let k = c\<lparr>c_responses := c_responses c @ [out @ crlf]\<rparr> in
            Some ((if es_run s then at_conn i (k\<lparr>c_session := finish (c_session k)\<rparr>) InLoop s
              else at_conn i (k\<lparr>c_events := MASK_EPOLLWR {EPOLLONESHOT}, c_locked := False\<rparr>) NotHandled s)\<lparr>
                es_serving := answered i cmd args out (es_serving s)\<rparr>))
       | NoCommand \<Rightarrow>
           (if c_buffer c = [] then Some (s\<lparr>es_at := (es_at s)(i := ReadCall)\<rparr>)
            else case iteration (c_buffer c) (c_session c) of None \<Rightarrow> None
            | Some (Inl e, se) \<Rightarrow> Some (if e = Threw then at_conn i (c\<lparr>c_session := se, c_locked := False\<rparr>) NotHandled s
                else at_conn i (c\<lparr>c_session := se\<rparr>) ReadCall s)
            | Some (Inr buf, se) \<Rightarrow>
                (let t = at_conn i (c\<lparr>c_buffer := buf, c_session := se\<rparr>) InLoop s in
                 Some (case ready se of None \<Rightarrow> t
                   | Some cmd \<Rightarrow> t\<lparr>es_serving := begun i cmd (argument se) (es_serving s)\<rparr>))))
     | _ \<Rightarrow> None)"

lemma advance_stops: "es_at s i = NotHandled \<Longrightarrow> advance i s = None"
  by (simp add: advance_def)

text \<open>A step in the storage of another client would show.\<close>

lemma storage_deterministic:
  assumes "serving_step (\<lambda>_. False) sv sv'" "sv_replies sv' = sv_replies sv"
    "\<And>j. j \<noteq> i \<Longrightarrow> sv_client sv' j = sv_client sv j \<and> ts_phase (sv_storage sv') j = ts_phase (sv_storage sv) j"
    "solo i (s\<lparr>es_serving := sv\<rparr>)"
  shows "\<exists>c args x f. sv_client sv i = Executing c args (Call x f) \<and> advance_storage i c args x f sv = Some sv'"
  using assms(1)
proof cases
  case (enter_call j c args x f t)
  note t = ts_enter [OF enter_call(4,3,5)]
  have "j = i" using assms(3) [of j] enter_call(1,3,5) by auto
  with enter_call t show ?thesis by (simp add: advance_storage_def Let_def)
next
  case (read_in_call j x t v)
  note t = ts_read [OF read_in_call(3,2,4)]
  have j: "j = i" using assms(3) [of j] read_in_call(1,2,4) by auto
  with assms(4) read_in_call(2) obtain c args f where "sv_client sv i = Executing c args (Call x f)"
    by (auto simp: solo_def Let_def)
  with read_in_call t j show ?thesis by (simp add: advance_storage_def Let_def)
next
  case (write_in_call j c args x f v t r)
  obtain v' where t: "run_op x v = Some (r, v')"
    "t = (sv_storage sv)\<lparr>ts_object := v', ts_phase := (ts_phase (sv_storage sv))(j := Leaving r), ts_log := ts_log (sv_storage sv) @ [(j, x, r)]\<rparr>"
    using ts_write [OF write_in_call(4,3,5)] by blast
  have "j = i" using assms(3) [of j] write_in_call(1,3,5) by auto
  with write_in_call t show ?thesis by (simp add: advance_storage_def Let_def)
next
  case (return_call j c args x f r t)
  note t = ts_return [OF return_call(4,3,5)]
  have "j = i" using assms(3) [of j] return_call(1,3,5) by auto
  with return_call t show ?thesis by (simp add: advance_storage_def Let_def)
next
  case (answer_command j c args out)
  with assms(2) show ?thesis by simp
qed simp

lemma at_conn_same: "at_conn j (es_conn s j) (es_at s j) s = s"
  by simp

text \<open>So the worker has no choice: a step of it changes nothing or is the next one of \<open>advance\<close>.\<close>

lemma reading_deterministic:
  assumes "reading_step i s t" "solo i s"
  shows "t = s \<or> advance i s = Some t"
proof -
  from assms(1) have step: "epoll_step s t" and at: "es_at s i = ReadCall \<or> es_at s i = InLoop"
    and run: "es_run t = es_run s" and wire: "es_wire t = es_wire s"
    and other: "\<And>j. j \<noteq> i \<Longrightarrow> es_conn t j = es_conn s j \<and> es_at t j = es_at s j \<and> es_reads t j = es_reads s j \<and>
        sv_client (es_serving t) j = sv_client (es_serving s) j \<and>
        ts_phase (sv_storage (es_serving t)) j = ts_phase (sv_storage (es_serving s)) j"
    and ends: "es_at s i = ReadCall \<Longrightarrow> es_at t i = NotHandled \<Longrightarrow> \<not> yields i s"
    by (auto simp: reading_step_def)
  show ?thesis using step
  proof cases
    case (read_begins j)
    have "j = i" using other [of j] read_begins(1,2) by auto
    with at read_begins(2) show ?thesis by simp
  next
    case (read_returns j b bs)
    have j: "j = i" using other [of j] read_returns(1,2) by auto
    with read_returns(3-5) have "yields i s" by (auto simp: yields_def)
    with j read_returns(1-3) show ?thesis by (simp add: advance_def Let_def)
  next
    case (read_ends j)
    have j: "j = i" using other [of j] read_ends by auto
    with ends read_ends have "\<not> yields i s" by simp
    with j read_ends show ?thesis by (simp add: advance_def Let_def)
  next
    case (loop_ends j)
    have "j = i" using other [of j] loop_ends(1,2) by auto
    with loop_ends show ?thesis by (simp add: advance_def Let_def)
  next
    case (loop_parses j buf se)
    show ?thesis
    proof (cases "j = i")
      case True
      with loop_parses show ?thesis by (simp add: advance_def Let_def)
    next
      case False
      from other [OF this] have "(es_conn s j)\<lparr>c_buffer := buf, c_session := se\<rparr> = es_conn s j" by (simp add: loop_parses(1))
      then have "t = s" unfolding loop_parses(1) loop_parses(2) [symmetric] by (simp only: at_conn_same)
      then show ?thesis ..
    qed
  next
    case (loop_runs j buf se cmd)
    have "j = i" using other [of j] loop_runs(1,3) by (auto simp: begun_def)
    with loop_runs show ?thesis by (simp add: advance_def Let_def)
  next
    case (loop_throws j e se)
    have "j = i" using other [of j] loop_throws(1,2) by (cases "e = Threw") auto
    with loop_throws show ?thesis by (simp add: advance_def Let_def)
  next
    case (storage_step sv)
    have "solo i (s\<lparr>es_serving := es_serving s\<rparr>)" using assms(2) by simp
    from storage_deterministic [OF storage_step(2,3) _ this] other storage_step(1) obtain c args x f where
      "sv_client (es_serving s) i = Executing c args (Call x f)" "advance_storage i c args x f (es_serving s) = Some sv" by auto
    moreover from this(1) assms(2) have "es_at s i = InLoop" by (simp add: solo_def Let_def)
    ultimately show ?thesis using storage_step(1) by (simp add: advance_def Let_def)
  next
    case (responds j c args out k)
    have "j = i" using other [of j] responds(1,3) by (auto simp: answered_def)
    with responds show ?thesis by (simp add: advance_def Let_def)
  next
    case (writes j w a k)
    have j: "j \<noteq> i" using at writes(2) by auto
    have "a = Nothing" using other [OF j] writes(1,2) by (cases "a = Nothing") simp_all
    with writes(1) have t: "t = (at_conn j k NotHandled s)\<lparr>es_wire := (es_wire s)(j := es_wire s j @ written w (es_conn s j))\<rparr>" by simp
    with other [OF j] have "k = es_conn s j" by simp
    moreover from t wire have "(es_wire s)(j := es_wire s j @ written w (es_conn s j)) = es_wire s" by simp
    ultimately have "t = s" unfolding t by (simp add: writes(2) [symmetric])
    then show ?thesis ..
  next
    case (hangs_up j)
    have j: "j \<noteq> i" using at hangs_up(2) by auto
    from other [OF this] have "OnClose (es_conn s j) = es_conn s j" by (simp add: hangs_up(1))
    then have "t = s" unfolding hangs_up(1) hangs_up(2) [symmetric] by (simp only: at_conn_same)
    then show ?thesis ..
  next
    case server_stops
    with run have "t = s" by (cases s) simp
    then show ?thesis ..
  qed
qed

text \<open>The worker stays alone.\<close>

lemma solo_advance:
  assumes "solo i s" "advance i s = Some t"
  shows "solo i t"
proof (cases "es_at s i = InLoop \<and> (\<exists>c args x f. sv_client (es_serving s) i = Executing c args (Call x f))")
  case True
  then obtain c args x f where c: "sv_client (es_serving s) i = Executing c args (Call x f)" "es_at s i = InLoop" by blast
  with assms(2) obtain sv where sv: "advance_storage i c args x f (es_serving s) = Some sv" "t = s\<lparr>es_serving := sv\<rparr>"
    by (auto simp: advance_def Let_def)
  show ?thesis
    using assms(1) sv c
    by (cases "ts_phase (sv_storage (es_serving s)) i") (auto simp: solo_def advance_storage_def Let_def)
next
  case False
  then have out: "ts_phase (sv_storage (es_serving s)) i = Outside" using assms(1)
    by (cases "ts_phase (sv_storage (es_serving s)) i") (auto simp: solo_def Let_def)
  with False assms show ?thesis
    by (auto simp: solo_def advance_def Let_def begun_def answered_def
        split: handler_at.splits client.splits program.splits if_splits option.splits sum.splits prod.splits)
qed

lemma solo_step: "reading_step i s t \<Longrightarrow> solo i s \<Longrightarrow> solo i t"
  using reading_deterministic solo_advance by blast

interpretation reading: step_invariant "reading_step i" "solo i" for i
  by unfold_locales (rule solo_step)

text \<open>
  So all runs of the worker lie on one: whatever it has done so far, it can still do the rest of any
  run that has reached an end.
\<close>

lemma reaches_rtranclp: "reaches step s t \<longleftrightarrow> step\<^sup>*\<^sup>* s t"
proof
  show "reaches step s t \<Longrightarrow> step\<^sup>*\<^sup>* s t" by (induction rule: reaches.induct) auto
  show "step\<^sup>*\<^sup>* s t \<Longrightarrow> reaches step s t" by (induction rule: rtranclp_induct) (auto intro: reaches.intros)
qed

lemma reading_next:
  assumes "reaches (reading_step i) s t" "advance i t = None" "solo i s" "advance i s = Some u"
  shows "reaches (reading_step i) u t"
  using assms(1) [unfolded reaches_rtranclp] assms(3,4)
proof (induction rule: converse_rtranclp_induct)
  case base
  with assms(2) show ?case by simp
next
  case (step a b)
  from reading_deterministic [OF step.hyps(1) step.prems(1)] show ?case
  proof
    assume "b = a"
    with step.IH step.prems show ?thesis by simp
  next
    assume "advance i a = Some b"
    with step.prems(2) step.hyps(2) show ?thesis by (simp add: reaches_rtranclp)
  qed
qed

lemma reading_confluent:
  assumes "reaches (reading_step i) s t" "advance i t = None" "solo i s" "reaches (reading_step i) s u"
  shows "reaches (reading_step i) u t"
  using assms(4,1,3)
proof (induction rule: reaches.induct)
  case (reaches_step s u v)
  have u: "solo i u" by (rule reading.along [OF reaches_step.hyps(1) reaches_step.prems(2)])
  note rest = reaches_step.IH [OF reaches_step.prems]
  from reading_deterministic [OF reaches_step.hyps(2) u] show ?case
    using rest reading_next [OF rest assms(2) u] by blast
qed

lemma reading_stopped: "reaches (reading_step i) s t \<Longrightarrow> es_at s i = NotHandled \<Longrightarrow> t = s"
  unfolding reaches_rtranclp by (induction rule: converse_rtranclp_induct) (auto simp: reading_step_def)

section \<open>A command\<close>

lemma replies_grow: "serving_step ok s t \<Longrightarrow> \<exists>later. sv_replies t = sv_replies s @ later"
  by (induction rule: serving_step.induct) auto

lemma replies_grow_along: "reaches (serving_step ok) s t \<Longrightarrow> \<exists>later. sv_replies t = sv_replies s @ later"
  by (induction rule: reaches.induct) (auto dest: replies_grow)

lemma storage_run:
  "reaches (client_step (\<lambda>_. False) i) sv sv' \<Longrightarrow> es_serving s = sv \<Longrightarrow> sv_replies sv' = sv_replies sv \<Longrightarrow>
    es_at s i = InLoop \<Longrightarrow> reaches (reading_step i) s (s\<lparr>es_serving := sv'\<rparr>)"
proof (induction rule: reaches.induct)
  case (reaches_refl sv)
  then have "s\<lparr>es_serving := sv\<rparr> = s" by (cases s) simp
  then show ?case by (simp add: reaches.reaches_refl)
next
  case (reaches_step sv t u)
  from replies_grow_along [OF client_steps [OF reaches_step.hyps(1)]] obtain xs where xs: "sv_replies t = sv_replies sv @ xs" ..
  have move: "serving_step (\<lambda>_. False) t u" "\<And>j. j \<noteq> i \<Longrightarrow> sv_client u j = sv_client t j \<and> ts_phase (sv_storage u) j = ts_phase (sv_storage t) j"
    using reaches_step.hyps(2) by (simp_all add: client_step_def)
  from replies_grow [OF move(1)] obtain ys where ys: "sv_replies u = sv_replies t @ ys" ..
  from reaches_step.prems(2) have "xs @ ys = []" by (simp add: xs ys)
  then have same: "sv_replies t = sv_replies sv" "sv_replies u = sv_replies t" by (simp_all add: xs ys)
  have "epoll_step (s\<lparr>es_serving := t\<rparr>) (s\<lparr>es_serving := t\<rparr>\<lparr>es_serving := u\<rparr>)"
    by (rule storage_step) (use move(1) same in simp_all)
  with move(2) reaches_step.prems(3) have "reading_step i (s\<lparr>es_serving := t\<rparr>) (s\<lparr>es_serving := t\<rparr>\<lparr>es_serving := u\<rparr>)"
    by (simp add: reading_step_def)
  from reaches.reaches_step [where step = "reading_step i", OF reaches_step.IH [OF reaches_step.prems(1) same(1) reaches_step.prems(3)] this]
  show ?case by simp
qed

lemma program_run:
  "quiet sv \<Longrightarrow> sv_client sv i = Executing c args p \<Longrightarrow> run_program p (ts_object (sv_storage sv)) = Some (out, v) \<Longrightarrow>
    \<exists>t. reaches (client_step (\<lambda>_. False) i) sv t \<and> quiet t \<and> sv_client t i = Executing c args (Reply out) \<and>
      ts_object (sv_storage t) = v \<and> sv_replies t = sv_replies sv"
proof (induction p arbitrary: sv)
  case (Reply out')
  then show ?case by (auto intro: reaches.reaches_refl)
next
  case (Call x f)
  then obtain r v1 where op: "run_op x (ts_object (sv_storage sv)) = Some (r, v1)" "run_program (f r) v1 = Some (out, v)"
    by (auto simp: bind_eq_Some_conv)
  from locked_call [OF Call.prems(1,2) op(1), of "\<lambda>_. False"] obtain t where
    t: "reaches (client_step (\<lambda>_. False) i) sv t" "quiet t"
      "calls_shown t = (calls_shown sv)\<lparr>calls_object := v1, calls_client := (calls_client (calls_shown sv))(i := Executing c args (f r)),
        calls_order := calls_order (calls_shown sv) @ decided i c args (f r)\<rparr>" by blast
  from arg_cong [OF t(3), of calls_client] quiet_shown [OF t(2)] have "sv_client t i = Executing c args (f r)" by auto
  moreover from arg_cong [OF t(3), of calls_object] arg_cong [OF t(3), of calls_replies]
  have "ts_object (sv_storage t) = v1" "sv_replies t = sv_replies sv" by (simp_all add: calls_shown_def)
  ultimately obtain u where
    "reaches (client_step (\<lambda>_. False) i) t u" "quiet u" "sv_client u i = Executing c args (Reply out)"
    "ts_object (sv_storage u) = v" "sv_replies u = sv_replies sv"
    using Call.IH [of _ t] t(2) op(2) by auto
  with reaches_trans [OF t(1)] show ?case by blast
qed

section \<open>The loop over the buffer\<close>

text \<open>A worker is in the loop of connection \<open>i\<close>, and nobody is in the storage.\<close>

definition alone :: "nat \<Rightarrow> handler_at \<Rightarrow> connection \<Rightarrow> simple_lru \<Rightarrow> epoll_system \<Rightarrow> bool" where
  "alone i a c v s \<longleftrightarrow> quiet (es_serving s) \<and> sv_client (es_serving s) i = NoCommand \<and> es_at s i = a \<and> es_conn s i = c \<and>
     ts_object (sv_storage (es_serving s)) = v"

text \<open>Steps of the worker lead to such a state, with what the kernel has to yield unchanged.\<close>

definition leads_to :: "nat \<Rightarrow> handler_at \<times> connection \<Rightarrow> simple_lru \<Rightarrow> epoll_system \<Rightarrow> bool" where
  "leads_to i ac v s \<longleftrightarrow> (\<exists>t. reaches (reading_step i) s t \<and> es_run t = es_run s \<and> es_reads t = es_reads s \<and> alone i (fst ac) (snd ac) v t)"

lemma leads_to_here: "alone i a c v s \<Longrightarrow> leads_to i (a, c) v s"
  unfolding leads_to_def using reaches_refl [of "reading_step i" s] by (intro exI [of _ s]) simp

lemma leads_to_reach:
  assumes "reaches (reading_step i) s t" "leads_to i ac v t" "es_run t = es_run s" "es_reads t = es_reads s"
  shows "leads_to i ac v s"
proof -
  from assms(2) obtain u where u: "reaches (reading_step i) t u" "es_run u = es_run t" "es_reads u = es_reads t" "alone i (fst ac) (snd ac) v u"
    unfolding leads_to_def by blast
  from reaches_trans [OF assms(1) u(1)] u(2-4) assms(3,4) show ?thesis
    unfolding leads_to_def by (intro exI [of _ u]) simp
qed

lemma reading_stepI:
  assumes "epoll_step s t" "es_at s i = ReadCall \<or> es_at s i = InLoop" "es_run t = es_run s" "es_wire t = es_wire s"
    "\<forall>j. j \<noteq> i \<longrightarrow> es_conn t j = es_conn s j \<and> es_at t j = es_at s j \<and> es_reads t j = es_reads s j \<and>
        sv_client (es_serving t) j = sv_client (es_serving s) j \<and>
        ts_phase (sv_storage (es_serving t)) j = ts_phase (sv_storage (es_serving s)) j"
    "es_at s i = ReadCall \<Longrightarrow> es_at t i = NotHandled \<Longrightarrow> \<not> yields i s"
  shows "reading_step i s t"
  using assms by (auto simp: reading_step_def)

lemma leads_to_step:
  assumes "epoll_step s t" "leads_to i ac v t" "es_at s i = InLoop" "es_run t = es_run s" "es_reads t = es_reads s" "es_wire t = es_wire s"
    "\<forall>j. j \<noteq> i \<longrightarrow> es_conn t j = es_conn s j \<and> es_at t j = es_at s j \<and> es_reads t j = es_reads s j \<and>
        sv_client (es_serving t) j = sv_client (es_serving s) j \<and>
        ts_phase (sv_storage (es_serving t)) j = ts_phase (sv_storage (es_serving s)) j"
  shows "leads_to i ac v s"
proof -
  have "reading_step i s t" by (rule reading_stepI [OF assms(1) _ assms(4,6,7)]) (simp_all add: assms(3))
  from leads_to_reach [OF reaches_one [where step = "reading_step i", OF this] assms(2,4,5)] show ?thesis .
qed

definition after_loop :: "loop_end \<Rightarrow> connection \<Rightarrow> handler_at \<times> connection" where
  "after_loop e c = (case e of Drained \<Rightarrow> (ReadCall, c) | NotConsumed \<Rightarrow> (ReadCall, c)
     | Threw \<Rightarrow> (NotHandled, c\<lparr>c_locked := False\<rparr>)
     | Halted \<Rightarrow> (NotHandled, c\<lparr>c_events := MASK_EPOLLWR {EPOLLONESHOT}, c_locked := False\<rparr>))"

lemma command_alone:
  assumes "alone i InLoop c v s" "c_buffer c \<noteq> []" "iteration (c_buffer c) (c_session c) = Some (Inr buf, se)" "ready se = Some cmd"
    "execute simple_lru_ops cmd (argument se) v = Some (result, v')"
  shows "leads_to i (let k = c\<lparr>c_buffer := buf, c_session := se, c_responses := c_responses c @ [result @ crlf]\<rparr> in
     if es_run s then (InLoop, k\<lparr>c_session := finish se\<rparr>)
     else (NotHandled, k\<lparr>c_events := MASK_EPOLLWR {EPOLLONESHOT}, c_locked := False\<rparr>)) v' s"
proof -
  let ?b = "(at_conn i (c\<lparr>c_buffer := buf, c_session := se\<rparr>) InLoop s)\<lparr>es_serving := begun i cmd (argument se) (es_serving s)\<rparr>"
  from assms loop_runs [of s i buf se cmd] have ab: "epoll_step s ?b" by (simp add: alone_def)
  have "quiet (es_serving ?b)" "sv_client (es_serving ?b) i = Executing cmd (argument se) (command_program cmd (argument se))"
    "run_program (command_program cmd (argument se)) (ts_object (sv_storage (es_serving ?b))) = Some (result, v')"
    using assms(1,5) by (simp_all add: alone_def quiet_def begun_def run_command_program)
  from program_run [OF this] obtain sv where sv: "reaches (client_step (\<lambda>_. False) i) (es_serving ?b) sv" "quiet sv"
    "sv_client sv i = Executing cmd (argument se) (Reply result)" "ts_object (sv_storage sv) = v'" "sv_replies sv = sv_replies (es_serving ?b)" by blast
  let ?c = "?b\<lparr>es_serving := sv\<rparr>"
  let ?k = "(es_conn ?c i)\<lparr>c_responses := c_responses (es_conn ?c i) @ [result @ crlf]\<rparr>"
  let ?d = "(if es_run ?c then at_conn i (?k\<lparr>c_session := finish (c_session ?k)\<rparr>) InLoop ?c
      else at_conn i (?k\<lparr>c_events := MASK_EPOLLWR {EPOLLONESHOT}, c_locked := False\<rparr>) NotHandled ?c)\<lparr>
        es_serving := answered i cmd (argument se) result (es_serving ?c)\<rparr>"
  have bc: "reaches (reading_step i) ?b ?c" by (rule storage_run [OF sv(1) refl sv(5)]) simp
  have cd: "epoll_step ?c ?d" by (rule responds) (use sv(3) in simp_all)
  let ?fin = "let k = c\<lparr>c_buffer := buf, c_session := se, c_responses := c_responses c @ [result @ crlf]\<rparr> in
     if es_run s then (InLoop, k\<lparr>c_session := finish se\<rparr>)
     else (NotHandled, k\<lparr>c_events := MASK_EPOLLWR {EPOLLONESHOT}, c_locked := False\<rparr>)"
  have "alone i (fst ?fin) (snd ?fin) v' ?d"
    using sv(2,4) assms(1) by (simp add: alone_def answered_def quiet_def Let_def)
  from leads_to_here [OF this] have "leads_to i ?fin v' ?d" by simp
  then have "leads_to i ?fin v' ?c" by (rule leads_to_step [OF cd]) (simp_all add: answered_def)
  then have "leads_to i ?fin v' ?b" by (rule leads_to_reach [OF bc]) simp_all
  then show ?thesis by (rule leads_to_step [OF ab]) (use assms(1) in \<open>simp_all add: alone_def begun_def\<close>)
qed

lemma loop_alone:
  "session_loop st stop tidy buf se v out = Some (e, left, se', v', out') \<Longrightarrow> st = simple_lru_ops \<Longrightarrow> stop = (\<lambda>_. \<not> es_run s) \<Longrightarrow>
    tidy = False \<Longrightarrow> session_ok se \<Longrightarrow> alone i InLoop (c\<lparr>c_buffer := buf, c_session := se, c_responses := out\<rparr>) v s \<Longrightarrow>
    leads_to i (after_loop e (c\<lparr>c_buffer := left, c_session := se', c_responses := out'\<rparr>)) v' s"
proof (induction st stop tidy buf se v out arbitrary: s rule: session_loop.induct)
  case (1 st stop tidy buf se v out)
  let ?c = "c\<lparr>c_buffer := buf, c_session := se, c_responses := out\<rparr>"
  note loop = 1(3) [unfolded 1(4-6) session_loop.simps [of simple_lru_ops "\<lambda>_. \<not> es_run s" False buf]]
  note at = 1(8) [unfolded alone_def]
  show ?case
  proof (cases "buf = []")
    case True
    with loop have out: "e = Drained" "left = buf" "se' = se" "v' = v" "out' = out" by auto
    let ?t = "s\<lparr>es_at := (es_at s)(i := ReadCall)\<rparr>"
    have step: "epoll_step s ?t" by (rule loop_ends) (use at True in simp_all)
    have "alone i ReadCall ?c v ?t" using at by (simp add: alone_def)
    then show ?thesis unfolding out after_loop_def loop_end.case
      by (intro leads_to_step [OF step] leads_to_here) (use at in simp_all)
  next
    case buf: False
    with loop obtain x se1 where it: "iteration buf se = Some (x, se1)" by (cases "iteration buf se") auto
    show ?thesis
    proof (cases x)
      case (Inl err)
      with iteration_threw [OF 1(7) buf] it have err: "err = Threw" by simp
      with loop buf it Inl have out: "e = Threw" "left = buf" "se' = se1" "v' = v" "out' = out" by auto
      let ?t = "at_conn i (?c\<lparr>c_session := se1, c_locked := False\<rparr>) NotHandled s"
      have step: "epoll_step s ?t" using loop_throws [of s i Threw se1] at buf it Inl err by simp
      have "alone i NotHandled (c\<lparr>c_buffer := buf, c_session := se1, c_responses := out\<rparr>\<lparr>c_locked := False\<rparr>) v ?t"
        using at by (simp add: alone_def)
      then show ?thesis unfolding out after_loop_def loop_end.case
        by (intro leads_to_step [OF step] leads_to_here) (use at in simp_all)
    next
      case (Inr b)
      show ?thesis
      proof (cases "ready se1")
        case None
        let ?t = "at_conn i (?c\<lparr>c_buffer := b, c_session := se1\<rparr>) InLoop s"
        have step: "epoll_step s ?t" using loop_parses [of s i b se1] at buf it Inr None by simp
        have here: "alone i InLoop (c\<lparr>c_buffer := b, c_session := se1, c_responses := out\<rparr>) v ?t"
          using at by (simp add: alone_def)
        have rest: "session_loop st stop tidy b se1 v out = Some (e, left, se', v', out')"
          using loop buf it Inr None by (simp add: 1(4-6))
        have stop: "stop = (\<lambda>_. \<not> es_run ?t)" by (simp add: 1(5))
        have "leads_to i (after_loop e (c\<lparr>c_buffer := left, c_session := se', c_responses := out'\<rparr>)) v' ?t"
          by (rule 1(1) [OF buf it refl Inr None rest 1(4) stop 1(6) iteration_ok [OF 1(7) buf it [unfolded Inr] None] here])
        then show ?thesis by (rule leads_to_step [OF step]) (use at in simp_all)
      next
        case (Some cmd)
        with loop buf it Inr obtain result v1 where ex: "execute simple_lru_ops cmd (argument se1) v = Some (result, v1)"
          by (cases "execute simple_lru_ops cmd (argument se1) v") auto
        let ?out = "out @ [result @ crlf]"
        have fin: "leads_to i (if es_run s then (InLoop, c\<lparr>c_buffer := b, c_session := finish se1, c_responses := ?out\<rparr>)
            else (NotHandled, c\<lparr>c_buffer := b, c_session := se1, c_responses := ?out\<rparr>\<lparr>c_events := MASK_EPOLLWR {EPOLLONESHOT}, c_locked := False\<rparr>)) v1 s"
          using command_alone [OF 1(8), of b se1 cmd result v1] buf it Inr Some ex by (cases c; cases "es_run s") (simp_all add: Let_def)
        show ?thesis
        proof (cases "es_run s")
          case False
          with loop buf it Inr Some ex have out: "e = Halted" "left = b" "se' = se1" "v' = v1" "out' = ?out" by (simp_all add: Let_def)
          from fin False show ?thesis unfolding out after_loop_def loop_end.case by simp
        next
          case True
          from fin True obtain t where t: "reaches (reading_step i) s t" "es_run t = es_run s" "es_reads t = es_reads s"
            "alone i InLoop (c\<lparr>c_buffer := b, c_session := finish se1, c_responses := ?out\<rparr>) v1 t"
            unfolding leads_to_def by auto
          have rest: "session_loop st stop tidy b (finish se1) v1 ?out = Some (e, left, se', v', out')"
            using loop buf it Inr Some ex True by (simp add: 1(4-6) Let_def)
          have stop: "stop = (\<lambda>_. \<not> es_run t)" by (simp add: 1(5) t(2))
          have go: "\<not> stop ?out" by (simp add: 1(5) True)
          show ?thesis by (rule leads_to_reach [OF t(1) _ t(2,3)]) (rule 1(2) [OF buf it refl Inr Some _ refl refl go rest 1(4) stop 1(6) session_ok_finish t(4)], simp add: 1(4) ex)
        qed
      qed
    qed
  qed
qed


section \<open>The reads\<close>

definition done_reading :: "nat \<Rightarrow> connection \<Rightarrow> simple_lru \<Rightarrow> epoll_system \<Rightarrow> bool" where
  "done_reading i c v s \<longleftrightarrow> (\<exists>t. reaches (reading_step i) s t \<and> alone i NotHandled c v t)"

lemma done_reading_reach: "reaches (reading_step i) s t \<Longrightarrow> done_reading i c v t \<Longrightarrow> done_reading i c v s"
  unfolding done_reading_def using reaches_trans [of "reading_step i" s t] by blast

lemma reads_end_alone:
  assumes "alone i ReadCall c v s" "\<not> yields i s"
  shows "done_reading i (c\<lparr>c_events := armed {EPOLLONESHOT} c, c_locked := False\<rparr>) v s"
proof -
  let ?t = "at_conn i ((es_conn s i)\<lparr>c_events := armed {EPOLLONESHOT} (es_conn s i), c_locked := False\<rparr>) NotHandled s"
  have "epoll_step s ?t" by (rule read_ends) (use assms in \<open>simp add: alone_def\<close>)
  then have "reading_step i s ?t" by (rule reading_stepI) (use assms in \<open>simp_all add: alone_def\<close>)
  from reaches_one [where step = "reading_step i", OF this] show ?thesis
    unfolding done_reading_def using assms by (intro exI [of _ ?t]) (simp add: alone_def)
qed

lemma reads_alone:
  "read_calls {EPOLLONESHOT} False simple_lru_ops (\<lambda>_. es_run s) chunks c v = Some (c', v') \<Longrightarrow> session_ok (c_session c) \<Longrightarrow>
    es_reads s i = chunks \<Longrightarrow> alone i ReadCall c v s \<Longrightarrow> done_reading i (c'\<lparr>c_locked := False\<rparr>) v' s"
proof (induction chunks arbitrary: c v s)
  case Nil
  then have "c' = c\<lparr>c_events := armed {EPOLLONESHOT} c\<rparr>" "v' = v" by (simp_all add: armed_def)
  with reads_end_alone [OF Nil.prems(4)] Nil.prems(3) show ?case by (simp add: yields_def)
next
  case (Cons r rs)
  show ?case
  proof (cases "r = [] \<or> client_buffer_size - length (c_buffer c) < length r")
    case True
    with Cons.prems(1) have "c' = c\<lparr>c_events := armed {EPOLLONESHOT} c\<rparr>" "v' = v" by (auto simp: armed_def)
    moreover have "\<not> yields i s" using True Cons.prems(3,4) by (auto simp: yields_def alone_def)
    ultimately show ?thesis using reads_end_alone [OF Cons.prems(4)] by simp
  next
    case False
    let ?buf = "c_buffer c @ r"
    from False Cons.prems(1) obtain e left se v1 out where
      loop: "session_loop simple_lru_ops (\<lambda>_. \<not> es_run s) False ?buf (c_session c) v (c_responses c) = Some (e, left, se, v1, out)"
      and next_read: "(let c = c\<lparr>c_buffer := left, c_session := se, c_responses := out\<rparr> in
        if e = Threw then Some (c, v1)
        else if e = Halted then Some (c\<lparr>c_events := MASK_EPOLLWR {EPOLLONESHOT}\<rparr>, v1)
        else read_calls {EPOLLONESHOT} False simple_lru_ops (\<lambda>_. es_run s) rs c v1) = Some (c', v')"
      by (auto simp: bind_eq_Some_conv split: if_splits)
    let ?t = "(at_conn i ((es_conn s i)\<lparr>c_buffer := c_buffer (es_conn s i) @ r\<rparr>) InLoop s)\<lparr>es_reads := (es_reads s)(i := rs)\<rparr>"
    have "epoll_step s ?t" by (rule read_returns) (use False Cons.prems(3,4) in \<open>auto simp: alone_def\<close>)
    then have step: "reading_step i s ?t" by (rule reading_stepI) (use Cons.prems(4) in \<open>simp_all add: alone_def\<close>)
    have "alone i InLoop (c\<lparr>c_buffer := ?buf, c_session := c_session c, c_responses := c_responses c\<rparr>) v ?t"
      using Cons.prems(4) by (simp add: alone_def)
    from loop_alone [OF loop refl _ refl Cons.prems(2) this] obtain u where u: "reaches (reading_step i) ?t u" "es_run u = es_run s" "es_reads u i = rs"
      "alone i (fst (after_loop e (c\<lparr>c_buffer := left, c_session := se, c_responses := out\<rparr>)))
        (snd (after_loop e (c\<lparr>c_buffer := left, c_session := se, c_responses := out\<rparr>))) v1 u"
      unfolding leads_to_def by auto
    note reach = reaches_trans [OF reaches_one [where step = "reading_step i", OF step] u(1)]
    note drained = session_loop_drained [OF Cons.prems(2) loop]
    show ?thesis
    proof (cases e)
      case Drained
      let ?c = "c\<lparr>c_buffer := left, c_session := se, c_responses := out\<rparr>"
      have "done_reading i (c'\<lparr>c_locked := False\<rparr>) v' u"
        by (rule Cons.IH [of u ?c v1]) (use next_read u(2-4) drained(3) Drained in \<open>simp_all add: after_loop_def\<close>)
      then show ?thesis by (rule done_reading_reach [OF reach])
    next
      case NotConsumed
      with drained(2) show ?thesis by simp
    next
      case Threw
      with next_read u(4) have "alone i NotHandled (c'\<lparr>c_locked := False\<rparr>) v' u" by (simp add: after_loop_def Let_def)
      with reach show ?thesis unfolding done_reading_def by (intro exI [of _ u] conjI)
    next
      case Halted
      with next_read u(4) have "alone i NotHandled (c'\<lparr>c_locked := False\<rparr>) v' u" by (auto simp: after_loop_def Let_def)
      with reach show ?thesis unfolding done_reading_def by (intro exI [of _ u] conjI)
    qed
  qed
qed

section \<open>Property\<close>

text \<open>
  C15. The steps of the workers implement \<open>DoRead\<close> exactly. Nobody is in the storage, the connection waits for
  its event, and the kernel yields these reads and no more; a worker takes the event. Then whatever
  sequence of its own steps the worker makes, with no step of any other thread in between, it can go on to
  the state of the connection and the object in the storage that \<open>mt_DoRead\<close> computes in one go, and where it has
  finished it has come to exactly these, on a running and on a stopping server.
\<close>

theorem uninterrupted_read:
  assumes "mt_DoRead simple_lru_ops (\<lambda>_. es_run s) chunks c v = Some (c', v')" "alone i NotHandled c v s" "session_ok (c_session c)"
    "c_alive c" "EPOLLIN \<in> c_events c" "es_reads s i = chunks"
  shows "\<exists>s1. s1 = at_conn i (c\<lparr>c_locked := True\<rparr>) ReadCall s \<and> epoll_step s s1 \<and>
    (\<exists>t. reaches (reading_step i) s1 t \<and> alone i NotHandled c' v' t) \<and>
    (\<forall>u. reaches (reading_step i) s1 u \<longrightarrow>
       (es_at u i = NotHandled \<longrightarrow> alone i NotHandled c' v' u) \<and>
       (\<exists>t. reaches (reading_step i) u t \<and> alone i NotHandled c' v' t))"
proof -
  from assms(1) have unlocked: "\<not> c_locked c" by (auto simp: mt_DoRead_def with_mu_def)
  with assms(1) obtain k where k: "read_calls {EPOLLONESHOT} False simple_lru_ops (\<lambda>_. es_run s) chunks (c\<lparr>c_locked := True\<rparr>) v = Some (k, v')"
    "c' = k\<lparr>c_locked := False\<rparr>"
    by (auto simp: mt_DoRead_def with_mu_unlocked)
  let ?s1 = "at_conn i (c\<lparr>c_locked := True\<rparr>) ReadCall s"
  have step: "epoll_step s ?s1" using read_begins [of s i] assms(2,4,5) by (simp add: alone_def)
  have "done_reading i (k\<lparr>c_locked := False\<rparr>) v' ?s1"
    by (rule reads_alone [where c = "c\<lparr>c_locked := True\<rparr>" and v = v and chunks = chunks])
      (use k(1) assms(2,3,6) in \<open>simp_all add: alone_def\<close>)
  then obtain t where t: "reaches (reading_step i) ?s1 t" "alone i NotHandled c' v' t"
    unfolding done_reading_def k(2) by blast
  have stops: "advance i t = None" by (rule advance_stops) (use t(2) in \<open>simp add: alone_def\<close>)
  have solo: "solo i ?s1" using assms(2) by (simp add: solo_def alone_def quiet_def Let_def)
  have exact: "(es_at u i = NotHandled \<longrightarrow> alone i NotHandled c' v' u) \<and> (\<exists>t. reaches (reading_step i) u t \<and> alone i NotHandled c' v' t)"
    if "reaches (reading_step i) ?s1 u" for u
  proof -
    note rest = reading_confluent [OF t(1) stops solo that]
    have "alone i NotHandled c' v' u" if "es_at u i = NotHandled"
      using reading_stopped [OF rest that] t(2) by simp
    then show ?thesis using rest t(2) by (intro conjI impI exI [of _ t])
  qed
  have ex: "\<exists>t. reaches (reading_step i) ?s1 t \<and> alone i NotHandled c' v' t"
    by (intro exI [of _ t] conjI t)
  show ?thesis
  proof (rule exI [of _ ?s1], intro conjI allI impI)
    fix u assume u: "reaches (reading_step i) ?s1 u"
    show "es_at u i = NotHandled \<Longrightarrow> alone i NotHandled c' v' u" using exact [OF u] by simp
    show "\<exists>t. reaches (reading_step i) u t \<and> alone i NotHandled c' v' t" using exact [OF u] by simp
  qed (rule refl step ex)+
qed

lemma uninterrupted_read_witness:
  "\<exists>s1 t c v. epoll_step (epoll_start (SimpleLRU 64) (\<lambda>_. [''sta'', ''ts'' @ crlf]) (\<lambda>_. 0) (\<lambda>_. True)) s1 \<and>
    reaches (reading_step 0) s1 t \<and> alone 0 NotHandled c v t \<and> c_responses c = [''END'' @ crlf]"
proof -
  let ?s = "epoll_start (SimpleLRU 64) (\<lambda>_. [''sta'', ''ts'' @ crlf]) (\<lambda>_. 0) (\<lambda>_. True)"
  let ?c = "Start {EPOLLONESHOT} (new_connection False 0 True)"
  have "map_option (\<lambda>(c, v). c_responses c) (mt_DoRead simple_lru_ops (\<lambda>_. True) [''sta'', ''ts'' @ crlf] ?c (SimpleLRU 64)) = Some [''END'' @ crlf]"
    by code_simp
  then obtain c' v' where read: "mt_DoRead simple_lru_ops (\<lambda>_. es_run ?s) [''sta'', ''ts'' @ crlf] ?c (SimpleLRU 64) = Some (c', v')"
    and c': "c_responses c' = [''END'' @ crlf]" by (auto simp: epoll_start_def)
  have "alone 0 NotHandled ?c (SimpleLRU 64) ?s"
    by (simp add: alone_def epoll_start_def serving_start_def quiet_def ts_start_def)
  moreover have "session_ok (c_session ?c)" "c_alive ?c" "EPOLLIN \<in> c_events ?c"
    by (simp_all add: Start_def new_connection_def EPOLLIN_masks)
  moreover have "es_reads ?s 0 = [''sta'', ''ts'' @ crlf]" by (simp add: epoll_start_def)
  ultimately obtain s1 t where "epoll_step ?s s1" "reaches (reading_step 0) s1 t" "alone 0 NotHandled c' v' t"
    using uninterrupted_read [OF read, of 0] by blast
  with c' show ?thesis by (intro exI [of _ s1] exI [of _ t] exI [of _ c'] exI [of _ v'] conjI)
qed

end
