(* ===== verification/Coroutine.thy ===== *)
theory Coroutine
  imports Afina_Prelude
begin

text \<open>
  The coroutine engine (\<open>include/afina/coroutine/Engine.h\<close>, \<open>src/coroutine/Engine.cpp\<close>): the
  contexts on a heap with their list pointers, the memory of the stack, the copies between the stack
  and the saved stacks, and \<open>run\<close>, \<open>yield\<close>, \<open>sched\<close>, \<open>Enter\<close>, \<open>start\<close> and the end of a routine over
  both. \<open>setjmp\<close> and \<open>longjmp\<close> appear as the routine that gets control.
\<close>

section \<open>State\<close>

type_synonym ctx = nat

text \<open>\<open>Stack\<close> is the copy buffer and its size; \<open>None\<close> is the null pointer.\<close>

record coro_context =
  Low :: nat
  Hight :: nat
  Stack :: "8 word list option"
  Stack_size :: u32
  prev :: "ctx option"
  next_ctx :: "ctx option"

record engine =
  StackBottom :: nat
  cur_routine :: "ctx option"
  alive :: "ctx option"
  idle_ctx :: "ctx option"
  contexts :: "ctx \<Rightarrow> coro_context option"

definition new_context :: coro_context where
  "new_context = \<lparr>Low = 0, Hight = 0, Stack = None, Stack_size = 0, prev = None, next_ctx = None\<rparr>"

definition new_engine :: engine where
  "new_engine = \<lparr>StackBottom = 0, cur_routine = None, alive = None, idle_ctx = None, contexts = Map.empty\<rparr>"

section \<open>The list of routines\<close>

text \<open>Writing a member through a pointer; a dangling pointer is undefined.\<close>

definition upd_ctx :: "ctx \<Rightarrow> (coro_context \<Rightarrow> coro_context) \<Rightarrow> engine \<Rightarrow> engine option" where
  "upd_ctx a f e = (case contexts e a of None \<Rightarrow> None
     | Some c \<Rightarrow> Some (e\<lparr>contexts := (contexts e)(a \<mapsto> f c)\<rparr>))"

definition upd_opt :: "ctx option \<Rightarrow> (coro_context \<Rightarrow> coro_context) \<Rightarrow> engine \<Rightarrow> engine option" where
  "upd_opt p f e = (case p of None \<Rightarrow> Some e | Some a \<Rightarrow> upd_ctx a f e)"

section \<open>Saved stacks\<close>

type_synonym memory = "nat \<Rightarrow> 8 word"

text \<open>\<open>memcpy(dst, src, n)\<close> from a buffer into memory; reading past the buffer is undefined.\<close>

definition copy_in :: "nat \<Rightarrow> 8 word list \<Rightarrow> nat \<Rightarrow> memory \<Rightarrow> memory option" where
  "copy_in dst src n m =
     (if length src < n then None
      else Some (\<lambda>a. if dst \<le> a \<and> a < dst + n then src ! (a - dst) else m a))"

text \<open>
  \<open>Store\<close>: \<open>here\<close> is the address of its local variable, \<open>garbage n\<close> the content of a new buffer of
  \<open>n\<close> bytes. The bounds are recorded, the buffer is replaced when it is too small, and then
  \<open>memcpy(ctx.Low, stack_buffer, new_size)\<close>.
\<close>

definition Store :: "nat \<Rightarrow> (nat \<Rightarrow> 8 word list) \<Rightarrow> nat \<Rightarrow> coro_context \<Rightarrow> memory \<Rightarrow> (coro_context \<times> memory) option" where
  "Store here garbage bottom c m =
     (let c = (if here > bottom then c\<lparr>Hight := here, Low := bottom\<rparr> else c\<lparr>Low := here, Hight := bottom\<rparr>);
          new_size = (of_nat (Hight c - Low c) :: u32);
          c = (if new_size > Stack_size c
               then c\<lparr>Stack := Some (garbage (unat new_size)), Stack_size := new_size\<rparr> else c)
      in if new_size = 0 then Some (c, m)
         else do {
           buf \<leftarrow> Stack c;
           m \<leftarrow> copy_in (Low c) buf (unat new_size) m;
           Some (c, m) })"

text \<open>
  \<open>Restore\<close> first calls itself until its own frame is outside the region it will overwrite;
  \<open>frame\<close> is the distance between the frames of two calls on a stack that grows downwards. The
  result is the address of the last local variable.
\<close>

function restore_descend :: "nat \<Rightarrow> coro_context \<Rightarrow> nat \<Rightarrow> nat" where
  "restore_descend frame c here =
     (if Low c \<le> here \<and> here \<le> Hight c \<and> 0 < frame \<and> frame \<le> here then restore_descend frame c (here - frame) else here)"
  by pat_completeness auto
termination by (relation "measure (\<lambda>(frame, c, here). here)") auto

declare restore_descend.simps [simp del]

definition Restore :: "coro_context \<Rightarrow> memory \<Rightarrow> memory option" where
  "Restore c m =
     (if Stack_size c = 0 then Some m
      else do {
        buf \<leftarrow> Stack c;
        copy_in (Low c) buf (unat (Stack_size c)) m })"

section \<open>Operations\<close>

text \<open>
  The state of the engine and of the stack. Every call comes with the address \<open>here\<close> that the local
  variable of \<open>Store\<close> gets in it, and with \<open>garbage\<close>, the content of new buffers.
\<close>

type_synonym coro_state = "engine \<times> memory"

definition store_ctx :: "nat \<Rightarrow> (nat \<Rightarrow> 8 word list) \<Rightarrow> ctx \<Rightarrow> coro_state \<Rightarrow> coro_state option" where
  "store_ctx here garbage a st = (case st of (e, m) \<Rightarrow> do {
     c \<leftarrow> contexts e a;
     (c, m) \<leftarrow> Store here garbage (StackBottom e) c m;
     Some (e\<lparr>contexts := (contexts e)(a \<mapsto> c)\<rparr>, m) })"

definition restore_ctx :: "ctx \<Rightarrow> coro_state \<Rightarrow> coro_state option" where
  "restore_ctx a st = (case st of (e, m) \<Rightarrow> do {
     c \<leftarrow> contexts e a;
     m \<leftarrow> Restore c m;
     Some (e, m) })"

text \<open>
  \<open>run\<close>: nothing before \<open>start\<close>; otherwise a new context, which the allocator places at an address \<open>a\<close>
  not in use, the saving of the stack, and the insertion at the head of the list. The local variable
  \<open>pc\<close> lives in a register or in the frame of \<open>run\<close>, which \<open>Store\<close> has just written to: \<open>reload\<close> gives
  the value that is read back from memory after the call, and is the compiler's choice.
\<close>

definition add_alive :: "ctx \<Rightarrow> engine \<Rightarrow> engine option" where
  "add_alive pc e = do {
     e \<leftarrow> upd_ctx pc (\<lambda>c. c\<lparr>next_ctx := alive e\<rparr>) e;
     let e = e\<lparr>alive := Some pc\<rparr>;
     c \<leftarrow> contexts e pc;
     upd_opt (next_ctx c) (\<lambda>c. c\<lparr>prev := Some pc\<rparr>) e }"

definition run_routine :: "nat \<Rightarrow> (nat \<Rightarrow> 8 word list) \<Rightarrow> (memory \<Rightarrow> ctx \<Rightarrow> ctx) \<Rightarrow> ctx \<Rightarrow> coro_state \<Rightarrow>
    (ctx option \<times> coro_state) option" where
  "run_routine here garbage reload a st = (case st of (e, m) \<Rightarrow>
     if StackBottom e = 0 then Some (None, e, m)
     else if contexts e a \<noteq> None then None
     else do {
       (e, m) \<leftarrow> store_ctx here garbage a (e\<lparr>contexts := (contexts e)(a \<mapsto> new_context)\<rparr>, m);
       let pc = reload m a;
       e \<leftarrow> add_alive pc e;
       Some (Some pc, e, m) })"

text \<open>The end of the routine \<open>pc\<close>: it is unlinked and deleted.\<close>

definition finish_routine :: "ctx \<Rightarrow> engine \<Rightarrow> engine option" where
  "finish_routine pc e = do {
     c \<leftarrow> contexts e pc;
     e \<leftarrow> upd_opt (prev c) (\<lambda>p. p\<lparr>next_ctx := next_ctx c\<rparr>) e;
     e \<leftarrow> upd_opt (next_ctx c) (\<lambda>n. n\<lparr>prev := prev c\<rparr>) e;
     e \<leftarrow> (if alive e = cur_routine e
           then (case alive e of None \<Rightarrow> None
                 | Some a \<Rightarrow> (case contexts e a of None \<Rightarrow> None | Some h \<Rightarrow> Some (e\<lparr>alive := next_ctx h\<rparr>)))
           else Some e);
     Some (e\<lparr>cur_routine := None, contexts := (contexts e)(pc := None)\<rparr>) }"

section \<open>Scheduling\<close>

text \<open>
  Who gets control: the caller keeps it, or the routine whose saved environment is jumped to.
  \<open>Enter\<close> saves the environment and the stack of the current routine, unless there is none or it is
  the idle context, and restores those of the routine it enters.
\<close>

datatype control = Keeps | Jumps ctx

definition Enter :: "nat \<Rightarrow> (nat \<Rightarrow> 8 word list) \<Rightarrow> ctx \<Rightarrow> coro_state \<Rightarrow> (control \<times> coro_state) option" where
  "Enter here garbage a st = do {
     (e, m) \<leftarrow> (case cur_routine (fst st) of
         Some c \<Rightarrow> if idle_ctx (fst st) \<noteq> Some c then store_ctx here garbage c st else Some st
       | None \<Rightarrow> Some st);
     (e, m) \<leftarrow> restore_ctx a (e\<lparr>cur_routine := Some a\<rparr>, m);
     Some (Jumps a, e, m) }"

definition yield :: "nat \<Rightarrow> (nat \<Rightarrow> 8 word list) \<Rightarrow> coro_state \<Rightarrow> (control \<times> coro_state) option" where
  "yield here garbage st = (case st of (e, m) \<Rightarrow>
     if cur_routine e = alive e then
        (case alive e of None \<Rightarrow> None
         | Some a \<Rightarrow> (case contexts e a of None \<Rightarrow> None
            | Some c \<Rightarrow> (case next_ctx c of Some n \<Rightarrow> Enter here garbage n st | None \<Rightarrow> Some (Keeps, st))))
      else (case alive e of Some a \<Rightarrow> Enter here garbage a st | None \<Rightarrow> Some (Keeps, st)))"

definition sched :: "nat \<Rightarrow> (nat \<Rightarrow> 8 word list) \<Rightarrow> ctx option \<Rightarrow> coro_state \<Rightarrow> (control \<times> coro_state) option" where
  "sched here garbage routine st =
     (if cur_routine (fst st) = routine then Some (Keeps, st)
      else case routine of Some a \<Rightarrow> Enter here garbage a st | None \<Rightarrow> yield here garbage st)"

text \<open>
  \<open>start\<close>: the main routine and the idle context are created, at the addresses \<open>a\<close> and \<open>i\<close>, the stack
  is saved for the idle context and the main routine is scheduled.
\<close>

definition start :: "nat \<Rightarrow> nat \<Rightarrow> (nat \<Rightarrow> 8 word list) \<Rightarrow> (memory \<Rightarrow> ctx \<Rightarrow> ctx) \<Rightarrow> ctx \<Rightarrow> ctx \<Rightarrow> coro_state \<Rightarrow>
    (control \<times> coro_state) option" where
  "start bottom here garbage reload a i st = do {
     (pc, e, m) \<leftarrow> run_routine here garbage reload a ((fst st)\<lparr>StackBottom := bottom\<rparr>, snd st);
     _ \<leftarrow> (if contexts e i = None then Some () else None);
     let e = e\<lparr>idle_ctx := Some i, contexts := (contexts e)(i \<mapsto> new_context)\<rparr>;
     case pc of None \<Rightarrow> Some (Keeps, e, m)
     | Some p \<Rightarrow> do {
         st \<leftarrow> store_ctx here garbage i (e, m);
         sched here garbage (Some p) st } }"

definition shutdown_engine :: "engine \<Rightarrow> engine" where
  "shutdown_engine e = e\<lparr>contexts := (case idle_ctx e of None \<Rightarrow> contexts e | Some i \<Rightarrow> (contexts e)(i := None)),
     StackBottom := 0\<rparr>"

text \<open>
  The idle environment is where control arrives whenever a routine ended: there \<open>yield\<close> is called,
  and if it returns the engine is shut down.
\<close>

definition idle_resumed :: "nat \<Rightarrow> (nat \<Rightarrow> 8 word list) \<Rightarrow> coro_state \<Rightarrow> (control \<times> coro_state) option" where
  "idle_resumed here garbage st = do {
     (k, e, m) \<leftarrow> yield here garbage st;
     Some (k, case k of Keeps \<Rightarrow> shutdown_engine e | Jumps _ \<Rightarrow> e, m) }"

text \<open>A routine runs to its end: it is removed and the idle context is restored and resumed.\<close>

definition routine_ends :: "nat \<Rightarrow> (nat \<Rightarrow> 8 word list) \<Rightarrow> ctx \<Rightarrow> coro_state \<Rightarrow> (control \<times> coro_state) option" where
  "routine_ends here garbage pc st = do {
     e \<leftarrow> finish_routine pc (fst st);
     i \<leftarrow> idle_ctx e;
     st \<leftarrow> restore_ctx i (e, snd st);
     idle_resumed here garbage st }"

text \<open>
  What the routine that has control may do, each with the address of the local variable of \<open>Store\<close>
  in it, and the results of a sequence of these: who has control after each.
\<close>

datatype coro_op = Run ctx | Yield | Sched "ctx option" | Ends

definition coro_exec :: "(nat \<Rightarrow> 8 word list) \<Rightarrow> (memory \<Rightarrow> ctx \<Rightarrow> ctx) \<Rightarrow> coro_op \<times> nat \<Rightarrow> coro_state \<Rightarrow>
    (control \<times> coro_state) option" where
  "coro_exec garbage reload oh st = (case oh of (opn, here) \<Rightarrow> (case opn of
       Run a \<Rightarrow> map_option (\<lambda>(_, st). (Keeps, st)) (run_routine here garbage reload a st)
     | Yield \<Rightarrow> yield here garbage st
     | Sched r \<Rightarrow> sched here garbage r st
     | Ends \<Rightarrow> (case cur_routine (fst st) of None \<Rightarrow> None | Some pc \<Rightarrow> routine_ends here garbage pc st)))"

fun coro_run :: "(nat \<Rightarrow> 8 word list) \<Rightarrow> (memory \<Rightarrow> ctx \<Rightarrow> ctx) \<Rightarrow> (coro_op \<times> nat) list \<Rightarrow> coro_state \<Rightarrow>
    (control list \<times> coro_state) option" where
  "coro_run garbage reload [] st = Some ([], st)"
| "coro_run garbage reload (oh # ohs) st = do {
     (k, st) \<leftarrow> coro_exec garbage reload oh st;
     (ks, st) \<leftarrow> coro_run garbage reload ohs st;
     Some (k # ks, st) }"

end
