(* ===== verification/Coroutine_Facts.thy ===== *)
theory Coroutine_Facts
  imports Coroutine
begin

text \<open>
  The engine refines a scheduler on a plain list of routines; what \<open>yield\<close> schedules, and whom it
  starves; the end of the last routine; and what the copies of stacks do.
\<close>

section \<open>The doubly linked list\<close>

definition first_ctx :: "ctx list \<Rightarrow> ctx option \<Rightarrow> ctx option" where
  "first_ctx xs q = (case xs of [] \<Rightarrow> q | x # _ \<Rightarrow> Some x)"

definition last_ctx :: "ctx option \<Rightarrow> ctx list \<Rightarrow> ctx option" where
  "last_ctx p xs = (if xs = [] then p else Some (last xs))"

lemma first_last_simps [simp]:
  "first_ctx [] q = q" "first_ctx (x # xs) q = Some x" "first_ctx (xs @ ys) q = first_ctx xs (first_ctx ys q)"
  "last_ctx p [] = p" "last_ctx p (x # xs) = last_ctx (Some x) xs" "last_ctx p (xs @ [x]) = Some x"
  by (cases xs; simp add: first_ctx_def last_ctx_def)+

fun lseg :: "(ctx \<Rightarrow> coro_context option) \<Rightarrow> ctx option \<Rightarrow> ctx list \<Rightarrow> ctx option \<Rightarrow> bool" where
  "lseg h p [] q \<longleftrightarrow> True"
| "lseg h p (x # xs) q \<longleftrightarrow>
     (\<exists>c. h x = Some c \<and> prev c = p \<and> next_ctx c = first_ctx xs q) \<and> lseg h (Some x) xs q"

lemma lseg_append: "lseg h p (xs @ ys) q \<longleftrightarrow> lseg h p xs (first_ctx ys q) \<and> lseg h (last_ctx p xs) ys q"
  by (induction xs arbitrary: p) auto

lemma lseg_frame [simp]: "a \<notin> set xs \<Longrightarrow> lseg (h(a := v)) p xs q = lseg h p xs q"
  by (induction xs arbitrary: p) auto

definition routines_ok :: "engine \<Rightarrow> ctx list \<Rightarrow> bool" where
  "routines_ok e xs \<longleftrightarrow> distinct xs \<and> alive e = first_ctx xs None \<and> lseg (contexts e) None xs None"

text \<open>Storing a stack changes no link.\<close>

lemma lseg_same_links:
  "h a = Some c \<Longrightarrow> prev c' = prev c \<Longrightarrow> next_ctx c' = next_ctx c \<Longrightarrow> lseg (h(a \<mapsto> c')) p xs q = lseg h p xs q"
  by (induction xs arbitrary: p) auto

lemma lseg_dom: "lseg h p xs q \<Longrightarrow> set xs \<subseteq> dom h"
  by (induction xs arbitrary: p) auto

text \<open>A saved stack is as long as its recorded size.\<close>

definition buffer_ok :: "coro_context \<Rightarrow> bool" where
  "buffer_ok c \<longleftrightarrow> (case Stack c of None \<Rightarrow> Stack_size c = 0 | Some b \<Rightarrow> length b = unat (Stack_size c))"

definition buffers_ok :: "engine \<Rightarrow> bool" where
  "buffers_ok e \<longleftrightarrow> (\<forall>a c. contexts e a = Some c \<longrightarrow> buffer_ok c)"

lemma buffer_ok_links [simp]: "buffer_ok (c\<lparr>next_ctx := n\<rparr>) = buffer_ok c" "buffer_ok (c\<lparr>prev := p\<rparr>) = buffer_ok c"
  by (cases "Stack c"; simp add: buffer_ok_def)+

lemma Store_total:
  assumes "\<And>n. length (garbage n) = n" "buffer_ok c"
  shows "\<exists>c' m'. Store here garbage bottom c m = Some (c', m') \<and> buffer_ok c' \<and> prev c' = prev c \<and> next_ctx c' = next_ctx c"
proof -
  let ?c = "if here > bottom then c\<lparr>Hight := here, Low := bottom\<rparr> else c\<lparr>Low := here, Hight := bottom\<rparr>"
  define n :: u32 where "n = of_nat (Hight ?c - Low ?c)"
  let ?d = "if n > Stack_size ?c then ?c\<lparr>Stack := Some (garbage (unat n)), Stack_size := n\<rparr> else ?c"
  have d: "buffer_ok ?d" "prev ?d = prev c" "next_ctx ?d = next_ctx c" "\<not> Stack_size ?d < n"
    using assms by (auto simp: buffer_ok_def split: option.splits)
  have s: "Store here garbage bottom c m = (if n = 0 then Some (?d, m)
      else do { buf \<leftarrow> Stack ?d; m \<leftarrow> copy_in (Low ?d) buf (unat n) m; Some (?d, m) })"
    by (simp only: Store_def Let_def n_def)
  show ?thesis
  proof (cases "n = 0")
    case True
    with s d show ?thesis by auto
  next
    case False
    then have "0 < unat n" by (simp add: unat_gt_0)
    with d(4) have "unat (Stack_size ?d) \<ge> unat n" "Stack_size ?d \<noteq> 0" by (auto simp: word_less_nat_alt simp del: unat_gt_0)
    with d(1) obtain buf where "Stack ?d = Some buf" "unat n \<le> length buf" by (auto simp: buffer_ok_def split: option.splits)
    with s False d show ?thesis by (simp add: copy_in_def)
  qed
qed

lemma Restore_total: "buffer_ok c \<Longrightarrow> \<exists>m'. Restore c m = Some m'"
  by (auto simp: Restore_def buffer_ok_def copy_in_def split: option.splits)

lemma Store_down:
  assumes "here < bottom" "bottom - here < 2 ^ 32" "\<And>n. length (garbage n) = n" "Stack_size c < of_nat (bottom - here)"
  shows "\<exists>c' m'. Store here garbage bottom c m = Some (c', m') \<and> Low c' = here \<and> Hight c' = bottom \<and>
    Stack c' = Some (garbage (bottom - here)) \<and> Stack_size c' = of_nat (bottom - here) \<and>
    (\<forall>a. m' a = (if here \<le> a \<and> a < bottom then garbage (bottom - here) ! (a - here) else m a))"
proof -
  have u: "unat (of_nat (bottom - here) :: u32) = bottom - here" by (rule u32_of_nat [OF assms(2)])
  have nz: "(of_nat (bottom - here) :: u32) \<noteq> 0" using u assms(1) by (metis unat_0 zero_less_diff less_irrefl)
  have eq: "here + (bottom - here) = bottom" using assms(1) by simp
  from assms(1,4) nz show ?thesis
    by (simp add: Store_def Let_def copy_in_def assms(3) u eq del: of_nat_diff)
qed

text \<open>Splicing a routine out of the list.\<close>

lemma lseg_splice:
  assumes "lseg h None (us @ pc # vs) None" "distinct (us @ pc # vs)" "h pc = Some c"
  shows "\<exists>h1 h2. (case prev c of None \<Rightarrow> h1 = h | Some u \<Rightarrow> (\<exists>d. h u = Some d \<and> h1 = h(u \<mapsto> d\<lparr>next_ctx := next_ctx c\<rparr>))) \<and>
    (case next_ctx c of None \<Rightarrow> h2 = h1 | Some v \<Rightarrow> (\<exists>d. h1 v = Some d \<and> h2 = h1(v \<mapsto> d\<lparr>prev := prev c\<rparr>))) \<and>
    lseg h2 None (us @ vs) None \<and> h2 pc = h pc \<and> (\<forall>x. x \<notin> set (us @ vs) \<longrightarrow> h2 x = h x)"
proof -
  from assms(1,3) have c: "prev c = last_ctx None us" "next_ctx c = first_ctx vs None"
    and us: "lseg h None us (Some pc)" and vs: "lseg h (Some pc) vs None"
    by (auto simp: lseg_append)
  define h1 where "h1 = (case prev c of None \<Rightarrow> h | Some u \<Rightarrow> h(u \<mapsto> (the (h u))\<lparr>next_ctx := next_ctx c\<rparr>))"
  define h2 where "h2 = (case next_ctx c of None \<Rightarrow> h1 | Some v \<Rightarrow> h1(v \<mapsto> (the (h1 v))\<lparr>prev := prev c\<rparr>))"
  have 1: "lseg h1 None us (first_ctx vs None) \<and> lseg h1 (Some pc) vs None \<and> h1 pc = h pc \<and>
      (\<forall>x. x \<notin> set us \<longrightarrow> h1 x = h x) \<and>
      (case prev c of None \<Rightarrow> h1 = h | Some u \<Rightarrow> (\<exists>d. h u = Some d \<and> h1 = h(u \<mapsto> d\<lparr>next_ctx := next_ctx c\<rparr>)))"
  proof (cases us rule: rev_cases)
    case Nil
    with us vs c show ?thesis by (simp add: h1_def)
  next
    case (snoc us' u)
    with us obtain d where "h u = Some d" "prev d = last_ctx None us'" by (auto simp: lseg_append)
    with us vs c assms(2) snoc show ?thesis by (auto simp: h1_def lseg_append)
  qed
  have 2: "lseg h2 None us (first_ctx vs None) \<and> lseg h2 (prev c) vs None \<and> h2 pc = h pc \<and>
      (\<forall>x. x \<notin> set (us @ vs) \<longrightarrow> h2 x = h x) \<and>
      (case next_ctx c of None \<Rightarrow> h2 = h1 | Some v \<Rightarrow> (\<exists>d. h1 v = Some d \<and> h2 = h1(v \<mapsto> d\<lparr>prev := prev c\<rparr>)))"
  proof (cases vs)
    case Nil
    with 1 c show ?thesis by (simp add: h2_def)
  next
    case (Cons v vs')
    with 1 obtain d where "h1 v = Some d" "next_ctx d = first_ctx vs' None" by auto
    with 1 c assms(2) Cons show ?thesis by (auto simp: h2_def)
  qed
  from 1 2 c(1) have "lseg h2 None (us @ vs) None" by (simp add: lseg_append)
  with 1 2 show ?thesis by (intro exI [of _ h1] exI [of _ h2]) simp
qed


lemma finish_routine_ok:
  assumes "routines_ok e xs" "cur_routine e = Some pc" "pc \<in> set xs"
  shows "\<exists>e'. finish_routine pc e = Some e' \<and> routines_ok e' (remove1 pc xs) \<and> contexts e' pc = None \<and>
    cur_routine e' = None \<and> StackBottom e' = StackBottom e \<and> idle_ctx e' = idle_ctx e \<and>
    dom (contexts e') = dom (contexts e) - {pc} \<and> (buffers_ok e \<longrightarrow> buffers_ok e')"
proof -
  from assms(3) obtain us vs where xs: "xs = us @ pc # vs" by (meson split_list)
  from assms(1) xs have d: "distinct (us @ pc # vs)" and l: "lseg (contexts e) None (us @ pc # vs) None"
    and al: "alive e = first_ctx us (Some pc)" by (auto simp: routines_ok_def)
  from l obtain c where c: "contexts e pc = Some c" "prev c = last_ctx None us" "next_ctx c = first_ctx vs None"
    by (auto simp: lseg_append)
  from lseg_splice [OF l d c(1)] obtain h1 h2 where
    h1: "case prev c of None \<Rightarrow> h1 = contexts e | Some u \<Rightarrow> (\<exists>d. contexts e u = Some d \<and> h1 = (contexts e)(u \<mapsto> d\<lparr>next_ctx := next_ctx c\<rparr>))"
    and h2: "case next_ctx c of None \<Rightarrow> h2 = h1 | Some v \<Rightarrow> (\<exists>d. h1 v = Some d \<and> h2 = h1(v \<mapsto> d\<lparr>prev := prev c\<rparr>))"
    and l2: "lseg h2 None (us @ vs) None" and pc: "h2 pc = Some c" using c(1) by auto
  have s1: "upd_opt (prev c) (\<lambda>p. p\<lparr>next_ctx := next_ctx c\<rparr>) e = Some (e\<lparr>contexts := h1\<rparr>)"
    using h1 by (auto simp: upd_opt_def upd_ctx_def split: option.splits)
  have s2: "upd_opt (next_ctx c) (\<lambda>n. n\<lparr>prev := prev c\<rparr>) (e\<lparr>contexts := h1\<rparr>) = Some (e\<lparr>contexts := h2\<rparr>)"
    using h2 by (auto simp: upd_opt_def upd_ctx_def split: option.splits)
  have head: "alive e = cur_routine e \<longleftrightarrow> us = []" using al assms(2) d by (cases us) auto
  let ?e = "e\<lparr>contexts := h2(pc := None), cur_routine := None, alive := first_ctx (us @ vs) None\<rparr>"
  have "finish_routine pc e = Some ?e"
  proof (cases "us = []")
    case True
    with head assms(2) pc c(3) show ?thesis
      unfolding finish_routine_def c(1) Option.bind.simps s1 s2 by simp
  next
    case False
    with al have "alive e = first_ctx (us @ vs) None" by (cases us) auto
    with False head show ?thesis
      unfolding finish_routine_def c(1) Option.bind.simps s1 s2 by simp
  qed
  moreover have "remove1 pc xs = us @ vs" using xs d by (simp add: remove1_append)
  moreover have "routines_ok ?e (us @ vs)" using l2 d by (auto simp: routines_ok_def)
  moreover have "dom h1 = dom (contexts e)" using h1 by (cases "prev c") (auto split: if_splits)
  moreover have "dom h2 = dom h1" using h2 by (cases "next_ctx c") (auto split: if_splits)
  moreover have "\<forall>x d. h1 x = Some d \<longrightarrow> buffer_ok d" if "buffers_ok e"
    using h1 that by (auto simp: buffers_ok_def split: option.splits if_splits)
  then have "\<forall>x d. h2 x = Some d \<longrightarrow> buffer_ok d" if "buffers_ok e"
    using h2 that by (auto split: option.splits if_splits)
  then have "buffers_ok e \<longrightarrow> buffers_ok ?e" by (auto simp: buffers_ok_def)
  ultimately show ?thesis by (intro exI [of _ ?e]) auto
qed

section \<open>The engine as a scheduler on a list\<close>

text \<open>
  The abstract scheduler: the routines in their order and the one that has control. Creating a
  routine puts it in front; \<open>yield\<close> passes control to the second routine when the first has it and to
  the first otherwise, and is undefined without any routine; a routine that ends is removed and
  leaves control to whom \<open>yield\<close> picks. An address in use is never allocated again before it is
  freed, and a handle that is not in the list is dangling.
\<close>

definition spec_yield :: "ctx list \<Rightarrow> ctx option \<Rightarrow> (control \<times> ctx list \<times> ctx option) option" where
  "spec_yield xs cur =
     (if cur = first_ctx xs None
      then (case xs of [] \<Rightarrow> None | [_] \<Rightarrow> Some (Keeps, xs, cur) | _ # b # _ \<Rightarrow> Some (Jumps b, xs, Some b))
      else (case xs of [] \<Rightarrow> Some (Keeps, xs, cur) | a # _ \<Rightarrow> Some (Jumps a, xs, Some a)))"

fun spec_exec :: "ctx \<Rightarrow> coro_op \<Rightarrow> ctx list \<times> ctx option \<Rightarrow> (control \<times> ctx list \<times> ctx option) option" where
  "spec_exec idle (Run a) (xs, cur) = (if a \<in> insert idle (set xs) then None else Some (Keeps, a # xs, cur))"
| "spec_exec idle Yield (xs, cur) = spec_yield xs cur"
| "spec_exec idle (Sched r) (xs, cur) =
     (if cur = r then Some (Keeps, xs, cur)
      else case r of None \<Rightarrow> spec_yield xs cur
      | Some a \<Rightarrow> if a \<in> set xs then Some (Jumps a, xs, Some a) else None)"
| "spec_exec idle Ends (xs, cur) = (case cur of None \<Rightarrow> None | Some pc \<Rightarrow> spec_yield (remove1 pc xs) None)"

fun spec_run :: "ctx \<Rightarrow> coro_op list \<Rightarrow> ctx list \<times> ctx option \<Rightarrow> (control list \<times> ctx list \<times> ctx option) option" where
  "spec_run idle [] st = Some ([], st)"
| "spec_run idle (opn # ops) st = do {
     (k, st) \<leftarrow> spec_exec idle opn st;
     (ks, st) \<leftarrow> spec_run idle ops st;
     Some (k # ks, st) }"

text \<open>The relation between the engine and the list.\<close>

definition engine_is :: "ctx \<Rightarrow> coro_state \<Rightarrow> ctx list \<times> ctx option \<Rightarrow> bool" where
  "engine_is idle st a \<longleftrightarrow> (case st of (e, m) \<Rightarrow> case a of (xs, cur) \<Rightarrow>
     routines_ok e xs \<and> buffers_ok e \<and> idle_ctx e = Some idle \<and> idle \<notin> set xs \<and> dom (contexts e) = insert idle (set xs) \<and>
     cur_routine e = cur \<and> set_option cur \<subseteq> set xs \<and> StackBottom e \<noteq> 0)"

lemma store_ctx_is:
  assumes "\<And>n. length (garbage n) = n" "routines_ok e xs" "buffers_ok e" "a \<in> dom (contexts e)"
  shows "\<exists>h m'. store_ctx here garbage a (e, m) = Some (e\<lparr>contexts := h\<rparr>, m') \<and>
    routines_ok (e\<lparr>contexts := h\<rparr>) xs \<and> buffers_ok (e\<lparr>contexts := h\<rparr>) \<and> dom h = dom (contexts e)"
proof -
  from assms(4) obtain c where c: "contexts e a = Some c" by auto
  with assms(3) have "buffer_ok c" by (simp add: buffers_ok_def)
  from Store_total [where garbage = garbage, OF assms(1) this, of here "StackBottom e" m] obtain c' m' where
    s: "Store here garbage (StackBottom e) c m = Some (c', m')" "buffer_ok c'" "prev c' = prev c" "next_ctx c' = next_ctx c"
    by blast
  let ?h = "(contexts e)(a \<mapsto> c')"
  have "store_ctx here garbage a (e, m) = Some (e\<lparr>contexts := ?h\<rparr>, m')" by (simp add: store_ctx_def c s(1))
  moreover have "routines_ok (e\<lparr>contexts := ?h\<rparr>) xs"
    using assms(2) lseg_same_links [of "contexts e" a c c', OF c s(3,4)] by (simp add: routines_ok_def)
  moreover have "buffers_ok (e\<lparr>contexts := ?h\<rparr>)" using assms(3) s(2) by (simp add: buffers_ok_def)
  moreover have "dom ?h = dom (contexts e)" using c by auto
  ultimately show ?thesis by (intro exI [of _ ?h] exI [of _ m'] conjI)
qed

lemma restore_ctx_is:
  assumes "buffers_ok e"
  shows "if a \<in> dom (contexts e) then \<exists>m'. restore_ctx a (e, m) = Some (e, m') else restore_ctx a (e, m) = None"
proof (cases "contexts e a")
  case (Some c)
  with assms have "buffer_ok c" by (simp add: buffers_ok_def)
  from Restore_total [OF this, of m] Some show ?thesis by (auto simp: restore_ctx_def)
qed (auto simp: restore_ctx_def)

lemma Enter_is:
  assumes "\<And>n. length (garbage n) = n" "engine_is idle (e, m) (xs, cur)" "a \<noteq> idle"
  shows "if a \<in> set xs then \<exists>st. Enter here garbage a (e, m) = Some (Jumps a, st) \<and> engine_is idle st (xs, Some a)
    else Enter here garbage a (e, m) = None"
proof -
  from assms(2) have e: "routines_ok e xs" "buffers_ok e" "idle_ctx e = Some idle" "idle \<notin> set xs"
    "dom (contexts e) = insert idle (set xs)" "cur_routine e = cur" "set_option cur \<subseteq> set xs" "StackBottom e \<noteq> 0"
    by (simp_all add: engine_is_def)
  have "\<exists>h m'. (case cur_routine e of Some c \<Rightarrow> if idle_ctx e \<noteq> Some c then store_ctx here garbage c (e, m) else Some (e, m)
       | None \<Rightarrow> Some (e, m)) = Some (e\<lparr>contexts := h\<rparr>, m') \<and>
     routines_ok (e\<lparr>contexts := h\<rparr>) xs \<and> buffers_ok (e\<lparr>contexts := h\<rparr>) \<and> dom h = dom (contexts e)"
  proof (cases cur)
    case None
    have "e\<lparr>contexts := contexts e\<rparr> = e" by simp
    with None e show ?thesis by (intro exI [of _ "contexts e"] exI [of _ m]) simp
  next
    case (Some c)
    with e(4,7) have "c \<in> dom (contexts e)" "c \<noteq> idle" using e(5) by auto
    with store_ctx_is [where garbage = garbage, OF assms(1) e(1,2) this(1), of here m] Some e(3,6) show ?thesis by simp
  qed
  then obtain h m' where h: "(case cur_routine e of Some c \<Rightarrow> if idle_ctx e \<noteq> Some c then store_ctx here garbage c (e, m) else Some (e, m)
       | None \<Rightarrow> Some (e, m)) = Some (e\<lparr>contexts := h\<rparr>, m')"
     "routines_ok (e\<lparr>contexts := h\<rparr>) xs" "buffers_ok (e\<lparr>contexts := h\<rparr>)" "dom h = dom (contexts e)" by blast
  let ?e = "e\<lparr>contexts := h, cur_routine := Some a\<rparr>"
  have ok: "routines_ok ?e xs" "buffers_ok ?e" "dom (contexts ?e) = insert idle (set xs)"
    using h e(5) by (simp_all add: routines_ok_def buffers_ok_def)
  have en: "Enter here garbage a (e, m) = do { (e, m) \<leftarrow> restore_ctx a (?e, m'); Some (Jumps a, e, m) }"
    by (simp add: Enter_def h(1) cong: option.case_cong)
  show ?thesis
  proof (cases "a \<in> set xs")
    case True
    with restore_ctx_is [OF ok(2), of a m'] ok(3) obtain m2 where "restore_ctx a (?e, m') = Some (?e, m2)" by auto
    with True en ok e show ?thesis by (auto simp: engine_is_def)
  next
    case False
    with restore_ctx_is [OF ok(2), of a m'] ok(3) assms(3) en show ?thesis by simp
  qed
qed

text \<open>
  How a step of the engine answers a step of the list: undefined where it is undefined, otherwise
  with the same routine in control and related states.
\<close>

definition answers :: "ctx \<Rightarrow> (control \<times> coro_state) option \<Rightarrow> (control \<times> ctx list \<times> ctx option) option \<Rightarrow> bool" where
  "answers idle r a \<longleftrightarrow> (case a of None \<Rightarrow> r = None
     | Some (k, sp) \<Rightarrow> \<exists>st. r = Some (k, st) \<and> engine_is idle st sp)"

lemma yield_is:
  assumes "\<And>n. length (garbage n) = n" "engine_is idle st (xs, cur)"
  shows "answers idle (yield here garbage st) (spec_yield xs cur)"
proof -
  obtain e m where st: "st = (e, m)" by fastforce
  with assms(2) have ok: "routines_ok e xs" "idle \<notin> set xs" "cur_routine e = cur" by (simp_all add: engine_is_def)
  note enter = Enter_is [where garbage = garbage, OF assms(1) assms(2) [unfolded st]]
  show ?thesis
  proof (cases xs)
    case Nil
    with ok assms(2) show ?thesis by (auto simp: answers_def spec_yield_def yield_def st routines_ok_def)
  next
    case (Cons a ys)
    with ok(1) obtain c where c: "alive e = Some a" "contexts e a = Some c" "next_ctx c = first_ctx ys None"
      by (auto simp: routines_ok_def)
    show ?thesis
    proof (cases "cur = Some a")
      case False
      with c ok enter [of a here] Cons show ?thesis by (auto simp: answers_def spec_yield_def yield_def st)
    next
      case True
      show ?thesis
      proof (cases ys)
        case Nil
        with True c ok Cons assms(2) show ?thesis by (simp add: answers_def spec_yield_def yield_def st)
      next
        case (Cons b zs)
        with True c ok enter [of b here] \<open>xs = a # ys\<close> show ?thesis by (auto simp: answers_def spec_yield_def yield_def st)
      qed
    qed
  qed
qed

lemma sched_is:
  assumes "\<And>n. length (garbage n) = n" "engine_is idle st (xs, cur)" "r \<noteq> Some idle"
  shows "answers idle (sched here garbage r st) (spec_exec idle (Sched r) (xs, cur))"
proof -
  obtain e m where st: "st = (e, m)" by fastforce
  with assms(2) have cur: "cur_routine e = cur" by (simp add: engine_is_def)
  show ?thesis
  proof (cases "cur = r")
    case True
    with assms(2) cur show ?thesis by (simp add: answers_def sched_def st)
  next
    case False
    show ?thesis
    proof (cases r)
      case None
      with False cur yield_is [where garbage = garbage, OF assms(1,2), of here] show ?thesis
        by (cases cur) (simp_all add: sched_def st)
    next
      case (Some a)
      with assms(3) Enter_is [where garbage = garbage, OF assms(1) assms(2) [unfolded st], of a here] False cur show ?thesis
        by (auto simp: answers_def sched_def st)
    qed
  qed
qed

lemma add_alive_ok:
  assumes "routines_ok e xs" "a \<notin> set xs" "contexts e a = Some c" "prev c = None" "buffers_ok e"
  shows "\<exists>h. add_alive a e = Some (e\<lparr>contexts := h, alive := Some a\<rparr>) \<and>
    routines_ok (e\<lparr>contexts := h, alive := Some a\<rparr>) (a # xs) \<and> dom h = dom (contexts e) \<and>
    buffers_ok (e\<lparr>contexts := h, alive := Some a\<rparr>)"
proof (cases xs)
  case Nil
  let ?h = "(contexts e)(a \<mapsto> c\<lparr>next_ctx := alive e\<rparr>)"
  have "dom ?h = dom (contexts e)" using assms(3) by auto
  with Nil assms show ?thesis
    by (intro exI [of _ ?h]) (auto simp: add_alive_def upd_ctx_def upd_opt_def routines_ok_def buffers_ok_def)
next
  case (Cons b ys)
  with assms(1) obtain d where d: "contexts e b = Some d" "next_ctx d = first_ctx ys None" "alive e = Some b" "b \<notin> set ys"
    by (auto simp: routines_ok_def)
  from Cons assms(2) have ne: "b \<noteq> a" by auto
  let ?h = "(contexts e)(a \<mapsto> c\<lparr>next_ctx := Some b\<rparr>, b \<mapsto> d\<lparr>prev := Some a\<rparr>)"
  have "dom ?h = dom (contexts e)" using assms(3) d by auto
  moreover have "add_alive a e = Some (e\<lparr>contexts := ?h, alive := Some a\<rparr>)"
    using assms(3) d ne by (simp add: add_alive_def upd_ctx_def upd_opt_def)
  moreover have "routines_ok (e\<lparr>contexts := ?h, alive := Some a\<rparr>) (a # xs)"
    using assms d ne Cons by (auto simp: routines_ok_def)
  moreover have "buffers_ok (e\<lparr>contexts := ?h, alive := Some a\<rparr>)"
    using assms(3,5) d by (simp add: buffers_ok_def)
  ultimately show ?thesis by (intro exI [of _ ?h] conjI)
qed

text \<open>\<open>run\<close> needs neither an idle context nor a current routine: \<open>start\<close> calls it before there are any.\<close>

lemma run_routine_ok:
  assumes g: "\<And>n. length (garbage n) = n" and r: "\<And>m a. reload m a = a"
    and e: "routines_ok e xs" "buffers_ok e" "a \<notin> dom (contexts e)" "StackBottom e \<noteq> 0"
  shows "\<exists>h m'. run_routine here garbage reload a (e, m) = Some (Some a, e\<lparr>contexts := h, alive := Some a\<rparr>, m') \<and>
    routines_ok (e\<lparr>contexts := h, alive := Some a\<rparr>) (a # xs) \<and> dom h = insert a (dom (contexts e)) \<and>
    buffers_ok (e\<lparr>contexts := h, alive := Some a\<rparr>)"
proof -
  let ?e = "e\<lparr>contexts := (contexts e)(a \<mapsto> new_context)\<rparr>"
  have a: "a \<notin> set xs" using e(1,3) lseg_dom [of "contexts e" None xs None] by (auto simp: routines_ok_def)
  have new: "buffer_ok new_context" "prev new_context = None" by (simp_all add: buffer_ok_def new_context_def)
  from Store_total [where garbage = garbage, OF g new(1), of here "StackBottom e" m] obtain c m' where
    s: "Store here garbage (StackBottom e) new_context m = Some (c, m')" "buffer_ok c" "prev c = None"
    using new(2) by metis
  let ?e1 = "e\<lparr>contexts := (contexts e)(a \<mapsto> c)\<rparr>"
  have st: "store_ctx here garbage a (?e, m) = Some (?e1, m')" by (simp add: store_ctx_def s(1))
  have "routines_ok ?e1 xs" "buffers_ok ?e1" "contexts ?e1 a = Some c"
    using a e(1,2) s(2) by (auto simp: routines_ok_def buffers_ok_def)
  from add_alive_ok [OF this(1) a this(3) s(3) this(2)] obtain h where
    h: "add_alive a ?e1 = Some (e\<lparr>contexts := h, alive := Some a\<rparr>)" "routines_ok (e\<lparr>contexts := h, alive := Some a\<rparr>) (a # xs)"
      "dom h = insert a (dom (contexts e))" "buffers_ok (e\<lparr>contexts := h, alive := Some a\<rparr>)" by auto
  have "run_routine here garbage reload a (e, m) = Some (Some a, e\<lparr>contexts := h, alive := Some a\<rparr>, m')"
    using e(3,4) by (simp add: run_routine_def domIff st r h(1) Let_def)
  with h(2,3,4) show ?thesis by blast
qed

lemma exec_is:
  assumes g: "\<And>n. length (garbage n) = n" and r: "\<And>m a. reload m a = a"
    and rel: "engine_is idle st sp" and opn: "opn \<noteq> Sched (Some idle)"
  shows "answers idle (coro_exec garbage reload (opn, here) st) (spec_exec idle opn sp)"
proof -
  obtain e m where st: "st = (e, m)" by fastforce
  obtain xs cur where sp: "sp = (xs, cur)" by fastforce
  from rel have e: "routines_ok e xs" "buffers_ok e" "idle_ctx e = Some idle" "idle \<notin> set xs"
    "dom (contexts e) = insert idle (set xs)" "cur_routine e = cur" "set_option cur \<subseteq> set xs" "StackBottom e \<noteq> 0"
    by (simp_all add: engine_is_def st sp)
  show ?thesis
  proof (cases opn)
    case (Run a)
    show ?thesis
    proof (cases "a \<in> dom (contexts e)")
      case True
      with Run e show ?thesis by (auto simp: answers_def coro_exec_def st sp run_routine_def)
    next
      case False
      from run_routine_ok [where garbage = garbage and reload = reload, OF g r e(1,2) False e(8), of here m]
      show ?thesis using Run e False by (fastforce simp: answers_def coro_exec_def st sp engine_is_def)
    qed
  next
    case Yield
    with yield_is [where garbage = garbage, OF g rel [unfolded sp], of here] show ?thesis by (simp add: coro_exec_def sp)
  next
    case (Sched r)
    with opn sched_is [where garbage = garbage, OF g rel [unfolded sp], of r here] show ?thesis by (simp add: coro_exec_def sp)
  next
    case Ends
    show ?thesis
    proof (cases cur)
      case None
      with Ends e show ?thesis by (simp add: answers_def coro_exec_def st sp)
    next
      case (Some pc)
      with e(7) have pc: "pc \<in> set xs" by simp
      from finish_routine_ok [OF e(1) _ pc] e(6) Some obtain e' where
        f: "finish_routine pc e = Some e'" "routines_ok e' (remove1 pc xs)" "cur_routine e' = None"
          "StackBottom e' = StackBottom e" "idle_ctx e' = Some idle" "dom (contexts e') = dom (contexts e) - {pc}" "buffers_ok e'"
        using e(2,3) by auto
      have ne: "pc \<noteq> idle" using pc e(4) by auto
      from restore_ctx_is [OF f(7), of idle m] f(6) e(5) ne obtain m' where m': "restore_ctx idle (e', m) = Some (e', m')"
        by auto
      have "distinct xs" using e(1) by (simp add: routines_ok_def)
      then have "engine_is idle (e', m') (remove1 pc xs, None)"
        using f e ne by (auto simp: engine_is_def)
      from yield_is [where garbage = garbage, OF g this, of here]
      have y: "answers idle (yield here garbage (e', m')) (spec_yield (remove1 pc xs) None)" .
      have rt: "coro_exec garbage reload (opn, here) st = idle_resumed here garbage (e', m')"
        using Ends Some e(6) f(1,5) m' by (simp add: coro_exec_def st routine_ends_def)
      show ?thesis
      proof (cases "remove1 pc xs")
        case Nil
        with y rt Ends Some show ?thesis by (simp add: answers_def sp spec_yield_def idle_resumed_def)
      next
        case (Cons b ys)
        with y rt Ends Some show ?thesis by (auto simp: answers_def sp spec_yield_def idle_resumed_def)
      qed
    qed
  qed
qed

lemma coro_run_is:
  assumes "\<And>n. length (garbage n) = n" "\<And>m a. reload m a = a"
    "engine_is idle st sp" "Sched (Some idle) \<notin> fst ` set ohs"
  shows "case spec_run idle (map fst ohs) sp of None \<Rightarrow> coro_run garbage reload ohs st = None
    | Some (ks, sp') \<Rightarrow> \<exists>st'. coro_run garbage reload ohs st = Some (ks, st') \<and> engine_is idle st' sp'"
  using assms(3,4)
proof (induction ohs arbitrary: st sp)
  case (Cons oh ohs)
  obtain opn here where oh: "oh = (opn, here)" by fastforce
  with Cons.prems have "opn \<noteq> Sched (Some idle)" by auto
  from exec_is [where garbage = garbage and reload = reload, OF assms(1,2) Cons.prems(1) this, of here]
  have a: "answers idle (coro_exec garbage reload oh st) (spec_exec idle opn sp)" by (simp add: oh)
  show ?case
  proof (cases "spec_exec idle opn sp")
    case None
    with a show ?thesis by (simp add: answers_def oh)
  next
    case (Some y)
    then obtain k sp1 where y: "spec_exec idle opn sp = Some (k, sp1)" by (cases y) auto
    with a obtain st1 where st1: "coro_exec garbage reload oh st = Some (k, st1)" "engine_is idle st1 sp1"
      by (auto simp: answers_def)
    from Cons.prems(2) have "Sched (Some idle) \<notin> fst ` set ohs" by auto
    from Cons.IH [OF st1(2) this] y st1(1) show ?thesis
      by (cases "spec_run idle (map fst ohs) sp1") (auto simp: oh)
  qed
qed simp

lemma start_is:
  assumes "\<And>n. length (garbage n) = n" "\<And>m a. reload m a = a" "bottom \<noteq> 0" "idle \<noteq> a"
  shows "\<exists>st. start bottom here garbage reload a idle (new_engine, m) = Some (Jumps a, st) \<and> engine_is idle st ([a], Some a)"
proof -
  let ?e = "new_engine\<lparr>StackBottom := bottom\<rparr>"
  have e: "routines_ok ?e []" "buffers_ok ?e" "a \<notin> dom (contexts ?e)" "StackBottom ?e \<noteq> 0"
    using assms(3) by (simp_all add: routines_ok_def buffers_ok_def new_engine_def)
  from run_routine_ok [where garbage = garbage and reload = reload, OF assms(1,2) e, of here m] obtain h m1 where
    r: "run_routine here garbage reload a (?e, m) = Some (Some a, ?e\<lparr>contexts := h, alive := Some a\<rparr>, m1)"
      "routines_ok (?e\<lparr>contexts := h, alive := Some a\<rparr>) [a]" "dom h = {a}" "buffers_ok (?e\<lparr>contexts := h, alive := Some a\<rparr>)"
    by (auto simp: new_engine_def)
  let ?e1 = "?e\<lparr>alive := Some a, idle_ctx := Some idle, contexts := h(idle \<mapsto> new_context)\<rparr>"
  have "routines_ok ?e1 [a]" using r(2) assms(4) by (auto simp: routines_ok_def)
  moreover have "buffers_ok ?e1" using r(4) by (auto simp: buffers_ok_def buffer_ok_def new_context_def)
  moreover have "idle \<in> dom (contexts ?e1)" by simp
  ultimately obtain h2 m2 where s: "store_ctx here garbage idle (?e1, m1) = Some (?e1\<lparr>contexts := h2\<rparr>, m2)"
      "routines_ok (?e1\<lparr>contexts := h2\<rparr>) [a]" "buffers_ok (?e1\<lparr>contexts := h2\<rparr>)" "dom h2 = dom (contexts ?e1)"
    using store_ctx_is [where garbage = garbage, OF assms(1), of ?e1 "[a]" idle here m1] by blast
  let ?e2 = "?e1\<lparr>contexts := h2\<rparr>"
  have rel: "engine_is idle (?e2, m2) ([a], None)"
    using s r(3) assms(3,4) by (simp add: engine_is_def new_engine_def insert_commute)
  have "idle \<notin> dom h" using r(3) assms(4) by simp
  then have st: "start bottom here garbage reload a idle (new_engine, m) = sched here garbage (Some a) (?e2, m2)"
    using s(1) by (simp add: start_def r(1) domIff Let_def)
  have "Some a \<noteq> Some idle" using assms(4) by simp
  from sched_is [where garbage = garbage, OF assms(1) rel this, of here] st show ?thesis
    by (simp add: answers_def)
qed



section \<open>Locals in the frame\<close>

text \<open>
  When \<open>pc\<close> lives in the frame of \<open>run\<close>, between the local variable of \<open>Store\<close> and the bottom of
  the stack, \<open>Store\<close> overwrites it: what is read back is the content of the new buffer. Unless that
  happens to be the address of a context, \<open>run\<close> is undefined. The return addresses of \<open>Store\<close> and
  \<open>run\<close> are in the same region.
\<close>

theorem run_loses_pc:
  assumes "\<And>n. length (garbage n) = n" "here \<le> p" "p + 8 \<le> bottom" "bottom - here < 2 ^ 32"
    and "\<And>m a. reload m a = decode (map m [p..<p + 8])"
    and "StackBottom e = bottom" "contexts e a = None"
    and "decode (map (\<lambda>q. garbage (bottom - here) ! (q - here)) [p..<p + 8]) \<notin> insert a (dom (contexts e))"
  shows "run_routine here garbage reload a (e, m) = None"
proof -
  have h: "here < bottom" using assms(2,3) by simp
  have "Stack_size new_context < of_nat (bottom - here)"
    using h u32_of_nat [OF assms(4)] by (simp add: new_context_def word_less_nat_alt)
  from Store_down [where garbage = garbage, OF h assms(4,1) this, of m] obtain c m' where
    s: "Store here garbage bottom new_context m = Some (c, m')"
      "\<forall>q. m' q = (if here \<le> q \<and> q < bottom then garbage (bottom - here) ! (q - here) else m q)" by blast
  have "map m' [p..<p + 8] = map (\<lambda>q. garbage (bottom - here) ! (q - here)) [p..<p + 8]"
    using assms(2,3) s(2) by simp
  with assms(8) have "reload m' a \<notin> insert a (dom (contexts e))" by (simp only: assms(5) not_False_eq_True)
  then show ?thesis
    using h assms(6,7) s(1) by (simp add: run_routine_def store_ctx_def Let_def add_alive_def upd_ctx_def domIff)
qed

lemma run_loses_pc_witness:
  "run_routine 60 (\<lambda>n. replicate n 205) (\<lambda>m _. unat (m 70)) 1 (new_engine\<lparr>StackBottom := 100\<rparr>, \<lambda>_. 0) = None"
proof -
  have "decode = (\<lambda>bs. unat (hd bs)) \<Longrightarrow> decode (map (\<lambda>q. replicate (100 - 60) (205 :: 8 word) ! (q - 60)) [70..<70 + 8]) = 205" for decode
    by (simp add: upt_rec)
  then show ?thesis
    by (intro run_loses_pc [where p = 70 and bottom = 100 and decode = "\<lambda>bs. unat (hd bs)"])
      (simp_all add: new_engine_def upt_rec)
qed

section \<open>Scheduling\<close>

text \<open>
  \<open>yield\<close> starves: as long as routines only yield, control alternates between the first two
  routines of the list and no other routine ever runs, however many there are, although the
  comment on \<open>yield\<close> allows the caller to hope for any routine that is ready to run.
\<close>

lemma spec_yields:
  assumes "a \<noteq> b" "cur = Some a \<or> cur = Some b"
  shows "\<exists>cur'. spec_run idle (replicate n Yield) (a # b # xs, cur) =
    Some (map (\<lambda>i. Jumps (if even i = (cur = Some a) then b else a)) [0..<n], a # b # xs, cur')"
  using assms(2)
proof (induction n arbitrary: cur)
  case (Suc n)
  let ?x = "if cur = Some a then b else a"
  have step: "spec_exec idle Yield (a # b # xs, cur) = Some (Jumps ?x, a # b # xs, Some ?x)"
    by (simp add: spec_yield_def)
  have "Some ?x = Some a \<or> Some ?x = Some b" by simp
  from Suc.IH [OF this] obtain cur' where
    ih: "spec_run idle (replicate n Yield) (a # b # xs, Some ?x) =
      Some (map (\<lambda>i. Jumps (if even i = (Some ?x = Some a) then b else a)) [0..<n], a # b # xs, cur')" by blast
  have "map (\<lambda>i. Jumps (if even i = (cur = Some a) then b else a)) [0..<Suc n] =
    Jumps ?x # map (\<lambda>i. Jumps (if even i = (Some ?x = Some a) then b else a)) [0..<n]"
    using assms(1) by (auto simp: upt_rec [of 0 "Suc n"] map_Suc_upt [symmetric] simp del: upt_Suc)
  with step ih show ?case by simp
qed simp

theorem yield_alternates:
  assumes "\<And>n. length (garbage n) = n" "\<And>m a. reload m a = a" "engine_is idle st (a # b # xs, Some a)"
  shows "\<exists>st'. coro_run garbage reload (map (\<lambda>here. (Yield, here)) heres) st =
    Some (map (\<lambda>i. Jumps (if even i then b else a)) [0..<length heres], st')"
proof -
  have "a \<noteq> b" using assms(3) by (auto simp: engine_is_def routines_ok_def)
  from spec_yields [OF this, of "Some a" idle "length heres" xs] obtain cur' where
    "spec_run idle (replicate (length heres) Yield) (a # b # xs, Some a) =
      Some (map (\<lambda>i. Jumps (if even i then b else a)) [0..<length heres], a # b # xs, cur')" by auto
  moreover have "map fst (map (\<lambda>here. (Yield, here)) heres) = replicate (length heres) Yield"
    by (induction heres) simp_all
  moreover have "Sched (Some idle) \<notin> fst ` set (map (\<lambda>here. (Yield, here)) heres)" by auto
  ultimately show ?thesis
    using coro_run_is [where garbage = garbage and reload = reload, OF assms] by fastforce
qed

text \<open>
  The engine crashes when its work is done: the end of the last routine resumes the idle
  context, whose \<open>yield\<close> finds \<open>cur_routine\<close> and \<open>alive\<close> both null, takes them for the current
  head of the list and reads \<open>next\<close> through the null pointer. With other routines left the end of
  a routine passes control to the head of the remaining list.
\<close>

theorem last_routine_undefined:
  assumes "\<And>n. length (garbage n) = n" "\<And>m a. reload m a = a" "engine_is idle st (xs, Some pc)"
  shows "if xs = [pc] then coro_exec garbage reload (Ends, here) st = None
    else \<exists>st'. coro_exec garbage reload (Ends, here) st = Some (Jumps (hd (remove1 pc xs)), st')"
proof -
  have pc: "pc \<in> set xs" using assms(3) by (auto simp: engine_is_def)
  have a: "answers idle (coro_exec garbage reload (Ends, here) st) (spec_yield (remove1 pc xs) None)"
    using exec_is [where garbage = garbage and reload = reload, OF assms, of Ends here] by simp
  show ?thesis
  proof (cases "remove1 pc xs")
    case Nil
    with pc have "xs = [pc]" by (cases xs) (auto split: if_splits)
    with a Nil show ?thesis by (simp add: answers_def spec_yield_def)
  next
    case (Cons b ys)
    with a show ?thesis by (auto simp: answers_def spec_yield_def)
  qed
qed

lemma last_routine_undefined_witness:
  "\<exists>st. start 100 60 (\<lambda>n. replicate n 205) (\<lambda>_ a. a) 1 0 (new_engine, \<lambda>_. 0) = Some (Jumps 1, st) \<and>
    coro_exec (\<lambda>n. replicate n 205) (\<lambda>_ a. a) (Ends, 60) st = None"
proof -
  have g: "length (replicate n (205 :: 8 word)) = n" for n by simp
  have r: "(\<lambda>_ a. a) m a = a" for m :: memory and a :: ctx by simp
  have "(100 :: nat) \<noteq> 0" "(0 :: ctx) \<noteq> 1" by simp_all
  from start_is [where garbage = "\<lambda>n. replicate n 205" and reload = "\<lambda>_ a. a", OF g r this, of 60 "\<lambda>_. 0"] obtain st where
    st: "start 100 60 (\<lambda>n. replicate n 205) (\<lambda>_ a. a) 1 0 (new_engine, \<lambda>_. 0) = Some (Jumps 1, st)" "engine_is 0 st ([1], Some 1)"
    by auto
  from last_routine_undefined [where garbage = "\<lambda>n. replicate n 205" and reload = "\<lambda>_ a. a", OF g r st(2), of 60] st(1)
  show ?thesis by simp
qed

section \<open>Saved stacks\<close>

text \<open>
  \<open>Store\<close> does not save the stack but destroys it: its \<open>memcpy\<close> has source and destination
  exchanged. The saved buffer is the unspecified content of the new allocation, whatever the
  stack holds, and the live stack between the two recorded bounds is overwritten with it.
\<close>

theorem store_destroys_stack:
  assumes "here < bottom" "bottom - here < 2 ^ 32" "\<And>n. length (garbage n) = n"
  shows "\<exists>c' m'. Store here garbage bottom new_context m = Some (c', m') \<and>
    Stack c' = Some (garbage (bottom - here)) \<and>
    (\<forall>a. here \<le> a \<and> a < bottom \<longrightarrow> m' a = garbage (bottom - here) ! (a - here))"
proof -
  have "Stack_size new_context < of_nat (bottom - here)"
    using assms(1) u32_of_nat [OF assms(2)] by (simp add: new_context_def word_less_nat_alt)
  from Store_down [where garbage = garbage, OF assms this, of m] show ?thesis by fastforce
qed

lemma store_destroys_stack_witness:
  "\<exists>c' m'. Store 96 (\<lambda>n. replicate n 205) 100 new_context (\<lambda>_. 7) = Some (c', m') \<and>
    Stack c' = Some [205, 205, 205, 205] \<and> m' 98 = 205"
proof -
  from store_destroys_stack [of 96 100 "\<lambda>n. replicate n 205" "\<lambda>_. 7"] obtain c' m' where
    "Store 96 (\<lambda>n. replicate n 205) 100 new_context (\<lambda>_. 7) = Some (c', m')"
    "Stack c' = Some (replicate (100 - 96) 205)"
    "\<forall>a. 96 \<le> a \<and> a < 100 \<longrightarrow> m' a = replicate (100 - 96) 205 ! (a - 96)" by auto
  then show ?thesis by (intro exI [of _ c'] exI [of _ m']) (simp add: numeral_eq_Suc)
qed

text \<open>
  Even with \<open>Store\<close> copying the right way \<open>Restore\<close> would write past the stack: a routine that
  was once suspended with a deeper stack keeps the larger buffer size, and \<open>Restore\<close> copies that
  many bytes to the new, higher \<open>Low\<close>, so that it overwrites as many bytes beyond \<open>StackBottom\<close>, the
  frames of the caller of \<open>start\<close>, as the stack has shrunk.
\<close>

theorem restore_overruns:
  assumes "here1 < here2" "here2 < bottom" "bottom - here1 < 2 ^ 32" "\<And>n. length (garbage n) = n"
    "Store here1 garbage bottom new_context m = Some (c1, m1)" "Store here2 garbage bottom c1 m1 = Some (c2, m2)"
  shows "Hight c2 = bottom \<and> (\<exists>m3. Restore c2 m3' = Some m3 \<and>
    (\<forall>a. bottom \<le> a \<and> a < bottom + (here2 - here1) \<longrightarrow> m3 a = garbage (bottom - here1) ! (a - here2)))"
proof -
  have h1: "here1 < bottom" using assms(1,2) by simp
  note u1 = u32_of_nat [OF assms(3)]
  have small2: "bottom - here2 < 2 ^ 32" using assms(1,3) by simp
  note u2 = u32_of_nat [OF small2]
  have "Stack_size new_context < of_nat (bottom - here1)"
    using h1 u1 by (simp add: new_context_def word_less_nat_alt)
  from Store_down [where garbage = garbage, OF h1 assms(3,4) this, of m] assms(5)
  have c1: "Stack c1 = Some (garbage (bottom - here1))" "Stack_size c1 = of_nat (bottom - here1)" by auto
  have "\<not> Stack_size c1 < of_nat (bottom - here2)"
    using assms(1) by (simp add: c1 word_less_nat_alt u1 u2)
  then have c2: "Low c2 = here2" "Hight c2 = bottom" "Stack c2 = Some (garbage (bottom - here1))"
    "Stack_size c2 = of_nat (bottom - here1)"
    using assms(2,6) c1 by (auto simp: Store_def Let_def bind_eq_Some_conv split: if_splits)
  have "Restore c2 m3' = copy_in here2 (garbage (bottom - here1)) (bottom - here1) m3'"
  proof -
    have "(of_nat (bottom - here1) :: u32) \<noteq> 0" using u1 h1 by (metis unat_0 zero_less_diff less_irrefl)
    then show ?thesis by (simp add: Restore_def c2 u1)
  qed
  moreover have "here2 + (bottom - here1) = bottom + (here2 - here1)" using assms(1,2) by simp
  ultimately show ?thesis using c2(2) assms(1,2) by (simp add: copy_in_def assms(4))
qed

lemma restore_overruns_witness:
  "\<exists>c1 m1 c2 m2 m3. Store 92 (\<lambda>n. replicate n 205) 100 new_context (\<lambda>_. 7) = Some (c1, m1) \<and>
    Store 96 (\<lambda>n. replicate n 205) 100 c1 m1 = Some (c2, m2) \<and> Restore c2 (\<lambda>_. 7) = Some m3 \<and> m3 103 = 205"
proof -
  let ?g = "\<lambda>n. replicate n (205 :: 8 word)"
  have "Stack_size new_context < of_nat (100 - 92)" by (simp add: new_context_def)
  from Store_down [of 92 100 ?g, OF _ _ _ this, of "\<lambda>_. 7"] obtain c1 m1 where
    1: "Store 92 ?g 100 new_context (\<lambda>_. 7) = Some (c1, m1)" "Stack c1 = Some (?g 8)" "Stack_size c1 = 8"
    by auto
  have "Store 96 ?g 100 c1 m1 \<noteq> None" using 1(2,3) by (simp add: Store_def Let_def copy_in_def)
  then obtain c2 m2 where 2: "Store 96 ?g 100 c1 m1 = Some (c2, m2)" by auto
  from restore_overruns [of 92 96 100 ?g "\<lambda>_. 7" c1 m1 c2 m2 "\<lambda>_. 7"] 1(1) 2 obtain m3 where
    "Restore c2 (\<lambda>_. 7) = Some m3" "\<forall>a. 100 \<le> a \<and> a < 104 \<longrightarrow> m3 a = ?g 8 ! (a - 96)" by auto
  with 1(1) 2 show ?thesis by fastforce
qed

text \<open>
  \<open>Restore\<close> gets out of its own way: on a stack that grows downwards its self-calls end, and
  the last of them runs outside the region it is about to overwrite, unless the stack itself is
  exhausted first.
\<close>

theorem restore_leaves_region:
  assumes "0 < frame"
  shows "restore_descend frame c here \<le> here \<and>
    (restore_descend frame c here < Low c \<or> Hight c < restore_descend frame c here \<or> restore_descend frame c here < frame)"
  using assms
proof (induction frame c here rule: restore_descend.induct)
  case (1 frame c here)
  show ?case
  proof (cases "Low c \<le> here \<and> here \<le> Hight c \<and> frame \<le> here")
    case True
    with 1 have "restore_descend frame c here = restore_descend frame c (here - frame)"
      by (subst restore_descend.simps) simp
    with 1 True show ?thesis by fastforce
  next
    case False
    with 1(2) have "restore_descend frame c here = here" by (subst restore_descend.simps) auto
    with False show ?thesis by auto
  qed
qed

lemma restore_leaves_region_witness:
  "restore_descend 16 (new_context\<lparr>Low := 960, Hight := 1000\<rparr>) 980 < 960"
proof -
  have "restore_descend 16 (new_context\<lparr>Low := 960, Hight := 1000\<rparr>) 980 = 948"
    by (simp add: restore_descend.simps)
  with restore_leaves_region [of 16 "new_context\<lparr>Low := 960, Hight := 1000\<rparr>" 980] show ?thesis by simp
qed

end
