(* ===== verification/Logging.thy ===== *)
theory Logging
  imports Afina_Prelude
begin

text \<open>
  The logging service (\<open>include/afina/logging/Config.h\<close>, \<open>src/logging/ServiceImpl.cpp\<close>): building
  sinks and loggers out of the configuration, the lookup of a logger by a dotted name, the
  compilation of a pattern with context variables, and the reopening of files. Of \<open>spdlog\<close> only
  what these functions use appears: the registry of loggers by name, and sinks as objects on a
  heap; whether the constructor of a sink succeeds and whether a file can be reopened are
  parameters.
\<close>

section \<open>Configuration\<close>

text \<open>\<open>UnknownType\<close> is any other value of the uninitialised member \<open>type\<close>.\<close>

datatype appender_type = STDOUT | STDERR | FILE | DAILY | SIZED | SYSLOG | UnknownType

record appender =
  type_of :: appender_type
  color :: bool
  file_name :: string
  suffix_of :: string
  rotate_at_hours :: i32
  rotate_at_mins :: i32
  rotate_at_size :: size_t
  history_to_keep :: i32
  ident :: string
  option_of :: i32
  facility :: i32

datatype logger_level = CRITICAL | ERROR | WARNING | INFO | DEBUG | TRACE

record logger_config =
  level :: logger_level
  format :: string
  appenders :: "string list"

text \<open>The two maps in the order of their keys, which is the order of iteration.\<close>

record log_config =
  cfg_appenders :: "(string \<times> appender) list"
  cfg_loggers :: "(string \<times> logger_config) list"

section \<open>Sinks and loggers\<close>

text \<open>A \<open>sink_ptr\<close> is an index into the heap of sinks; \<open>None\<close> is the null pointer.\<close>

type_synonym sink_ptr = "nat option"

datatype sink = StdoutSink | StderrSink | ColorSink sink_ptr | ReopenableFile string
  | DailyFile string i32 i32 | RotatingFile string size_t i32 | SyslogSink string i32 i32
  | DistSink "sink_ptr list"

datatype spd_level = spd_trace | spd_debug | spd_info | spd_warn | spd_err | spd_critical

record spd_logger =
  lg_name :: string
  lg_sinks :: "sink_ptr list"
  lg_level :: spd_level
  lg_pattern :: string
  lg_flush_on :: spd_level

text \<open>
  The heap of sinks, whose first two cells are the static instances of the console sinks, the
  registry, and the member \<open>_root\<close>.
\<close>

record log_state =
  sinks :: "sink list"
  registry :: "(string \<times> spd_logger) list"
  root :: "spd_logger option"

definition new_service :: log_state where
  "new_service = \<lparr>sinks = [StdoutSink, StderrSink], registry = [], root = None\<rparr>"

datatype log_error = InvalidAppender | SinkFailed | LoggerExists | NoRoot

text \<open>\<open>std::make_shared\<close> of a sink: the constructor may throw.\<close>

definition make_sink :: "(sink \<Rightarrow> bool) \<Rightarrow> sink \<Rightarrow> sink list \<Rightarrow> log_error + (nat \<times> sink list)" where
  "make_sink can_make k h = (if can_make k then Inr (length h, h @ [k]) else Inl SinkFailed)"

section \<open>Start\<close>

definition console_sink :: "(sink \<Rightarrow> bool) \<Rightarrow> bool \<Rightarrow> nat \<Rightarrow> sink list \<Rightarrow> log_error + (nat \<times> sink list)" where
  "console_sink can_make col instance_ptr h =
     (if col then make_sink can_make (ColorSink (Some instance_ptr)) h else Inr (instance_ptr, h))"

definition build_appender :: "(sink \<Rightarrow> bool) \<Rightarrow> appender \<Rightarrow> sink list \<Rightarrow> log_error + (nat \<times> sink list)" where
  "build_appender can_make a h = (case type_of a of
      STDOUT \<Rightarrow> console_sink can_make (color a) 0 h
    | STDERR \<Rightarrow> console_sink can_make (color a) 1 h
    | FILE \<Rightarrow> make_sink can_make (ReopenableFile (file_name a)) h
    | DAILY \<Rightarrow> make_sink can_make (DailyFile (file_name a) (rotate_at_hours a) (rotate_at_mins a)) h
    | SIZED \<Rightarrow> make_sink can_make (RotatingFile (file_name a) (rotate_at_size a) (history_to_keep a)) h
    | SYSLOG \<Rightarrow> make_sink can_make (SyslogSink (ident a) (option_of a) (facility a)) h
    | UnknownType \<Rightarrow> Inl InvalidAppender)"

fun build_appenders :: "(sink \<Rightarrow> bool) \<Rightarrow> (string \<times> appender) list \<Rightarrow> (string \<rightharpoonup> nat) \<Rightarrow> sink list \<Rightarrow>
    log_error + ((string \<rightharpoonup> nat) \<times> sink list)" where
  "build_appenders can_make [] results h = Inr (results, h)"
| "build_appenders can_make ((name, a) # as) results h =
     (case build_appender can_make a h of Inl e \<Rightarrow> Inl e
      | Inr (ptr, h) \<Rightarrow> build_appenders can_make as (results(name \<mapsto> ptr)) h)"

text \<open>
  The sink of a logger: \<open>results[name]\<close> of an unknown appender is a null pointer, no appender at
  all leaves \<open>ptr\<close> null.
\<close>

definition build_sink :: "(string \<rightharpoonup> nat) \<Rightarrow> string list \<Rightarrow> sink list \<Rightarrow> sink_ptr \<times> sink list" where
  "build_sink results names h = (case names of
      [] \<Rightarrow> (None, h)
    | [n] \<Rightarrow> (results n, h)
    | _ \<Rightarrow> (Some (length h), h @ [DistSink (map results names)]))"

definition spd_level_of :: "logger_level \<Rightarrow> spd_level" where
  "spd_level_of l = (case l of TRACE \<Rightarrow> spd_trace | DEBUG \<Rightarrow> spd_debug | INFO \<Rightarrow> spd_info
     | WARNING \<Rightarrow> spd_warn | ERROR \<Rightarrow> spd_err | CRITICAL \<Rightarrow> spd_critical)"

fun build_loggers :: "(string \<rightharpoonup> nat) \<Rightarrow> (string \<times> logger_config) list \<Rightarrow> log_state \<Rightarrow> log_error option \<times> log_state" where
  "build_loggers results [] st = (None, st)"
| "build_loggers results ((name, l) # ls) st =
     (let (ptr, h) = build_sink results (appenders l) (sinks st);
          lg = \<lparr>lg_name = name, lg_sinks = [ptr], lg_level = spd_level_of (level l),
                lg_pattern = format l, lg_flush_on = spd_err\<rparr>;
          st = st\<lparr>sinks := h\<rparr>
      in if map_of (registry st) name \<noteq> None then (Some LoggerExists, st)
         else build_loggers results ls (st\<lparr>registry := registry st @ [(name, lg)]\<rparr>))"

text \<open>\<open>Start\<close>: the exception that leaves it, if any, and the state.\<close>

definition Start_service :: "(sink \<Rightarrow> bool) \<Rightarrow> log_config \<Rightarrow> log_state \<Rightarrow> log_error option \<times> log_state" where
  "Start_service can_make cfg st =
     (case build_appenders can_make (cfg_appenders cfg) Map.empty (sinks st) of
        Inl e \<Rightarrow> (Some e, st)
      | Inr (results, h) \<Rightarrow>
          (case build_loggers results (cfg_loggers cfg) (st\<lparr>sinks := h\<rparr>) of
             (Some e, st) \<Rightarrow> (Some e, st)
           | (None, st) \<Rightarrow>
               (let st = st\<lparr>root := map_of (registry st) ''root''\<rparr>
                in (if root st = None then Some NoRoot else None, st))))"

section \<open>Lookup\<close>

text \<open>\<open>find_last_of('.')\<close>; -1 becomes 0.\<close>

definition cut_at_last_dot :: "string \<Rightarrow> string" where
  "cut_at_last_dot s =
     (let idx = (if CHR ''.'' \<in> set s then length s - 1 - length (takeWhile (\<lambda>c. c \<noteq> CHR ''.'') (rev s)) else 0)
      in take idx s)"

lemma cut_at_last_dot_shorter: "cut_at_last_dot s \<noteq> [] \<Longrightarrow> length (cut_at_last_dot s) < length s"
  by (cases s) (auto simp: cut_at_last_dot_def Let_def split: if_splits)

function select_loop :: "(string \<rightharpoonup> spd_logger) \<Rightarrow> spd_logger option \<Rightarrow> string \<Rightarrow> spd_logger option" where
  "select_loop reg r tmp_name =
     (case reg tmp_name of Some l \<Rightarrow> Some l
      | None \<Rightarrow> (if cut_at_last_dot tmp_name = [] then r else select_loop reg r (cut_at_last_dot tmp_name)))"
  by pat_completeness auto
termination by (relation "measure (\<lambda>(reg, r, s). length s)") (auto simp: cut_at_last_dot_shorter)

declare select_loop.simps [simp del]

definition select_logger :: "string \<Rightarrow> log_state \<Rightarrow> spd_logger option" where
  "select_logger name st = select_loop (map_of (registry st)) (root st) name"

section \<open>Loggers with context variables\<close>

text \<open>
  The loop over the pattern; \<open>None\<close> when the iterator is dereferenced at or moved past the end.
\<close>

function compile_pattern :: "(string \<rightharpoonup> string) \<Rightarrow> string \<Rightarrow> string option" where
  "compile_pattern mdc [] = Some []"
| "compile_pattern mdc (c # p) =
     (if c \<noteq> CHR ''%'' then map_option ((#) c) (compile_pattern mdc p)
      else case p of
        [] \<Rightarrow> None
      | x # p \<Rightarrow>
        (if x \<noteq> CHR ''X'' then map_option (\<lambda>s. CHR ''%'' # x # s) (compile_pattern mdc p)
         else case p of
           [] \<Rightarrow> None
         | b # p \<Rightarrow>
           (if b \<noteq> CHR ''{'' then map_option (\<lambda>s. ''%X'' @ b # s) (compile_pattern mdc p)
            else if CHR ''}'' \<notin> set p then map_option (\<lambda>s. ''%X{'' @ b # s) (compile_pattern mdc p)
            else case mdc (takeWhile (\<lambda>c. c \<noteq> CHR ''}'') p) of
              None \<Rightarrow> map_option (\<lambda>s. ''%X{'' @ b # s) (compile_pattern mdc p)
            | Some _ \<Rightarrow> map_option (\<lambda>s. takeWhile (\<lambda>c. c \<noteq> CHR ''}'') p @ s)
                 (compile_pattern mdc (tl (dropWhile (\<lambda>c. c \<noteq> CHR ''}'') p))))))"
  by pat_completeness auto
termination
  by (relation "measure (\<lambda>(mdc, p). length p)") (auto simp: less_Suc_eq_le intro: le_SucI length_dropWhile_le order_trans [OF diff_le_self])

text \<open>\<open>create\<close>: \<open>None\<close> also when \<open>select\<close> returned a null pointer.\<close>

definition create_logger :: "string \<Rightarrow> (string \<rightharpoonup> string) \<Rightarrow> log_state \<Rightarrow> spd_logger option" where
  "create_logger name mdc st = do {
     base \<leftarrow> select_logger name st;
     p \<leftarrow> compile_pattern mdc (lg_pattern base);
     Some \<lparr>lg_name = lg_name base, lg_sinks = lg_sinks base, lg_level = lg_level base,
           lg_pattern = p, lg_flush_on = spd_err\<rparr> }"

section \<open>Reopening of files\<close>

definition sink_at :: "sink list \<Rightarrow> sink_ptr \<Rightarrow> sink option" where
  "sink_at h p = (case p of None \<Rightarrow> None | Some a \<Rightarrow> if a < length h then Some (h ! a) else None)"

definition sink_children :: "sink option \<Rightarrow> sink_ptr list" where
  "sink_children k = (case k of Some (DistSink ps) \<Rightarrow> ps | _ \<Rightarrow> [])"

definition reopenable :: "sink option \<Rightarrow> string option" where
  "reopenable k = (case k of Some (ReopenableFile f) \<Rightarrow> Some f | _ \<Rightarrow> None)"

lemma sink_at_Some: "sink_children (sink_at h p) \<noteq> [] \<Longrightarrow> p \<in> Some ` {..<length h}"
  by (auto simp: sink_at_def sink_children_def split: option.splits if_splits)

text \<open>
  The worklist loop: the files reopened in order, and whether an exception of \<open>reopen\<close> ended it.
\<close>

function reopen_loop :: "(string \<Rightarrow> bool) \<Rightarrow> sink list \<Rightarrow> sink_ptr set \<Rightarrow> sink_ptr list \<Rightarrow> sink_ptr list \<times> bool" where
  "reopen_loop can_open h seen [] = ([], False)"
| "reopen_loop can_open h seen (psink # queue) =
     (if psink \<in> seen then reopen_loop can_open h seen queue
      else if sink_children (sink_at h psink) \<noteq> [] then
        reopen_loop can_open h (insert psink seen) (queue @ sink_children (sink_at h psink))
      else case reopenable (sink_at h psink) of
        None \<Rightarrow> reopen_loop can_open h (insert psink seen) queue
      | Some f \<Rightarrow>
          (if can_open f then
             (let (done_sinks, threw) = reopen_loop can_open h (insert psink seen) queue in (psink # done_sinks, threw))
           else ([], True)))"
  by pat_completeness auto

termination
proof (relation "measures [\<lambda>(can_open, h, seen, queue). card (Some ` {..<length h} - seen), \<lambda>(can_open, h, seen, queue). length queue]",
    goal_cases)
  case (3 can_open h seen psink queue)
  then have "psink \<in> Some ` {..<length h} - seen" using sink_at_Some by auto
  then have "card (Some ` {..<length h} - insert psink seen) < card (Some ` {..<length h} - seen)"
    by (intro psubset_card_mono) auto
  then show ?case by simp
next
  case (4 can_open h seen psink queue)
  have "card (Some ` {..<length h} - insert psink seen) \<le> card (Some ` {..<length h} - seen)"
    by (intro card_mono) auto
  then show ?case by (auto simp: le_less)
next
  case (5 can_open h seen psink queue f)
  have "card (Some ` {..<length h} - insert psink seen) \<le> card (Some ` {..<length h} - seen)"
    by (intro card_mono) auto
  then show ?case by (auto simp: le_less)
qed auto

definition reopen_all :: "(string \<Rightarrow> bool) \<Rightarrow> log_state \<Rightarrow> sink_ptr list \<times> bool" where
  "reopen_all can_open st =
     reopen_loop can_open (sinks st) {} (concat (map (lg_sinks \<circ> snd) (registry st)))"

end
