(* ===== verification/Logging_Facts.thy ===== *)
theory Logging_Facts
  imports Logging
begin

text \<open>
  What the logging service guarantees: \<open>Start\<close> registers every configured logger with its level,
  pattern and sinks; \<open>select\<close> finds the logger of the longest dotted prefix; \<open>reopen_all\<close> reopens
  every reachable file once; the compilation of patterns puts the name of a variable where its
  value belongs.
\<close>

section \<open>select\<close>

text \<open>The names tried: the name itself and its non-empty prefixes in front of a dot.\<close>

definition candidate :: "string \<Rightarrow> string \<Rightarrow> bool" where
  "candidate name p \<longleftrightarrow> p = name \<or> (p \<noteq> [] \<and> (\<exists>rest. name = p @ CHR ''.'' # rest))"

lemma cut_no_dot: "CHR ''.'' \<notin> set s \<Longrightarrow> cut_at_last_dot s = []"
  by (simp add: cut_at_last_dot_def)

lemma cut_append: "CHR ''.'' \<notin> set t \<Longrightarrow> cut_at_last_dot (s @ CHR ''.'' # t) = s"
proof -
  assume "CHR ''.'' \<notin> set t"
  then have "takeWhile (\<lambda>c. c \<noteq> CHR ''.'') (rev (s @ CHR ''.'' # t)) = rev t"
    by (auto simp: takeWhile_append)
  then show ?thesis by (simp add: cut_at_last_dot_def)
qed

lemma last_dot_cases:
  obtains "CHR ''.'' \<notin> set s" | t u where "s = t @ CHR ''.'' # u" "CHR ''.'' \<notin> set u"
  by (meson split_list_last)

lemma candidate_cut:
  "candidate s p \<longleftrightarrow> p = s \<or> (cut_at_last_dot s \<noteq> [] \<and> candidate (cut_at_last_dot s) p)"
proof (cases rule: last_dot_cases [of s])
  case 1
  then show ?thesis by (auto simp: candidate_def cut_no_dot)
next
  case (2 t u)
  have "t @ CHR ''.'' # u = p @ CHR ''.'' # rest \<Longrightarrow> p = t \<or> (\<exists>r. t = p @ CHR ''.'' # r)" for rest
    using 2(2) by (auto simp: append_eq_append_conv2 Cons_eq_append_conv append_eq_Cons_conv)
  moreover have "t = p @ CHR ''.'' # r \<Longrightarrow> \<exists>rest. t @ CHR ''.'' # u = p @ CHR ''.'' # rest" for r by simp
  ultimately show ?thesis using 2 by (auto simp: candidate_def cut_append)
qed

lemma candidate_length: "candidate s p \<Longrightarrow> length p \<le> length s"
  by (auto simp: candidate_def)

lemma select_loop_None:
  "(\<And>p. candidate s p \<Longrightarrow> reg p = None) \<Longrightarrow> select_loop reg r s = r"
proof (induction reg r s rule: select_loop.induct)
  case (1 reg r s)
  have "reg s = None" using 1(2) by (simp add: candidate_def)
  with 1 candidate_cut [of s] show ?case by (subst select_loop.simps) auto
qed

lemma select_loop_Some:
  "candidate s p \<Longrightarrow> reg p = Some l \<Longrightarrow> (\<And>q. candidate s q \<Longrightarrow> length p < length q \<Longrightarrow> reg q = None) \<Longrightarrow>
   select_loop reg r s = Some l"
proof (induction reg r s rule: select_loop.induct)
  case (1 reg r s)
  show ?case
  proof (cases "p = s")
    case True
    with 1(3) show ?thesis by (subst select_loop.simps) simp
  next
    case False
    with 1(2) have c: "cut_at_last_dot s \<noteq> []" "candidate (cut_at_last_dot s) p" using candidate_cut [of s p] by auto
    have "length p < length s"
      using candidate_length [OF c(2)] cut_at_last_dot_shorter [OF c(1)] by simp
    then have "reg s = None" using 1(4) [of s] by (simp add: candidate_def)
    with 1 c candidate_cut [of s] show ?thesis by (subst select_loop.simps) auto
  qed
qed

text \<open>
  The logger a name selects is the one registered under the longest of the name and its
  prefixes in front of a dot; the root logger when none of them is registered.
\<close>

theorem select_longest:
  "(\<exists>p l. candidate name p \<and> map_of (registry st) p = Some l \<and> select_logger name st = Some l \<and>
      (\<forall>q. candidate name q \<and> length p < length q \<longrightarrow> map_of (registry st) q = None)) \<or>
   ((\<forall>p. candidate name p \<longrightarrow> map_of (registry st) p = None) \<and> select_logger name st = root st)"
proof (cases "\<exists>p. candidate name p \<and> map_of (registry st) p \<noteq> None")
  case True
  let ?P = "\<lambda>n. \<exists>p. candidate name p \<and> map_of (registry st) p \<noteq> None \<and> length p = n"
  have bound: "\<forall>n. ?P n \<longrightarrow> n \<le> length name" by (auto dest: candidate_length)
  from True have "Ex ?P" by blast
  with bound obtain p where p: "candidate name p" "map_of (registry st) p \<noteq> None" "length p = Greatest ?P"
    using GreatestI_ex_nat [of ?P "length name"] by blast
  have longest: "map_of (registry st) q = None" if "candidate name q" "length p < length q" for q
  proof (rule ccontr)
    assume "map_of (registry st) q \<noteq> None"
    with that(1) have "?P (length q)" by blast
    with bound have "length q \<le> Greatest ?P" using Greatest_le_nat [of ?P "length q" "length name"] by blast
    with that(2) p(3) show False by simp
  qed
  from p(2) obtain l where l: "map_of (registry st) p = Some l" by auto
  from select_loop_Some [where reg = "map_of (registry st)" and r = "root st", OF p(1) l longest] p(1) l longest
  show ?thesis unfolding select_logger_def by blast
next
  case False
  then show ?thesis
    using select_loop_None [of name "map_of (registry st)" "root st"] by (auto simp: select_logger_def)
qed

lemma select_longest_witness:
  "\<forall>l r. select_logger ''network.worker.7''
     (new_service\<lparr>registry := [(''network'', l), (''root'', r)], root := Some r\<rparr>) = Some l"
proof (intro allI)
  fix l r
  define st where "st = new_service\<lparr>registry := [(''network'', l), (''root'', r)], root := Some r\<rparr>"
  have reg: "map_of (registry st) = [''root'' \<mapsto> r, ''network'' \<mapsto> l]" by (simp add: st_def)
  have cand: "candidate ''network.worker.7'' ''network''" by (simp add: candidate_def)
  have no: "\<not> candidate ''network.worker.7'' ''root''" by (simp add: candidate_def)
  from select_longest [of "''network.worker.7''" st] have "select_logger ''network.worker.7'' st = Some l"
  proof (elim disjE exE conjE)
    fix p l' assume p: "candidate ''network.worker.7'' p" "map_of (registry st) p = Some l'"
      "select_logger ''network.worker.7'' st = Some l'"
    with no have "p = ''network''" by (auto simp: reg split: if_splits)
    with p show ?thesis by (simp add: reg)
  next
    assume "\<forall>p. candidate ''network.worker.7'' p \<longrightarrow> map_of (registry st) p = None"
    with cand have "map_of (registry st) ''network'' = None" by blast
    then show ?thesis by (simp add: reg)
  qed
  then show "select_logger ''network.worker.7''
     (new_service\<lparr>registry := [(''network'', l), (''root'', r)], root := Some r\<rparr>) = Some l" by (simp add: st_def)
qed

section \<open>create\<close>

text \<open>A pattern as a sequence of characters, escapes and context variables.\<close>

datatype pattern_item = Literal char | Escape char | Variable string

fun item_ok :: "pattern_item \<Rightarrow> bool" where
  "item_ok (Literal c) \<longleftrightarrow> c \<noteq> CHR ''%''"
| "item_ok (Escape c) \<longleftrightarrow> c \<noteq> CHR ''X''"
| "item_ok (Variable k) \<longleftrightarrow> CHR ''%'' \<notin> set k \<and> CHR ''}'' \<notin> set k"

fun render :: "pattern_item \<Rightarrow> string" where
  "render (Literal c) = [c]"
| "render (Escape c) = [CHR ''%'', c]"
| "render (Variable k) = ''%X{'' @ k @ ''}''"

fun expand :: "(string \<rightharpoonup> string) \<Rightarrow> pattern_item \<Rightarrow> string" where
  "expand mdc (Variable k) = (if mdc k = None then ''%X{{'' @ k @ ''}'' else k)"
| "expand mdc i = render i"

lemma compile_plain: "CHR ''%'' \<notin> set k \<Longrightarrow> compile_pattern mdc (k @ p) = map_option ((@) k) (compile_pattern mdc p)"
  by (cases "compile_pattern mdc p") (induction k, auto)+

lemma variable_split: "CHR ''}'' \<notin> set k \<Longrightarrow>
  takeWhile (\<lambda>c. c \<noteq> CHR ''}'') (k @ CHR ''}'' # p) = k \<and> dropWhile (\<lambda>c. c \<noteq> CHR ''}'') (k @ CHR ''}'' # p) = CHR ''}'' # p"
  by (induction k) auto

lemma compile_item:
  "item_ok i \<Longrightarrow> compile_pattern mdc (render i @ p) = map_option ((@) (expand mdc i)) (compile_pattern mdc p)"
proof (cases i)
  case (Variable k)
  assume "item_ok i"
  then have k: "CHR ''%'' \<notin> set k" "CHR ''}'' \<notin> set k" by (simp_all add: Variable)
  have "compile_pattern mdc (k @ CHR ''}'' # p) = map_option (\<lambda>s. k @ CHR ''}'' # s) (compile_pattern mdc p)"
    using compile_plain [OF k(1)] by (simp add: option.map_comp comp_def)
  then show ?thesis
    by (cases "mdc k"; cases "compile_pattern mdc p") (simp_all add: Variable variable_split [OF k(2)])
qed (cases "compile_pattern mdc p"; auto)+

lemma compile_items:
  "list_all item_ok is \<Longrightarrow>
   compile_pattern mdc (concat (map render is) @ p) = map_option ((@) (concat (map (expand mdc) is))) (compile_pattern mdc p)"
  by (cases "compile_pattern mdc p") (induction "is", auto simp: compile_item)+

text \<open>
  The compilation of a pattern keeps characters and escapes, but replaces a context variable
  by its name instead of its value; an unknown variable gets a second brace. A pattern that ends
  with a single \<open>%\<close> or with \<open>%X\<close> makes the iterator pass the end of the string.
\<close>

theorem compile_pattern_items:
  assumes "list_all item_ok is"
  shows "compile_pattern mdc (concat (map render is)) = Some (concat (map (expand mdc) is)) \<and>
    compile_pattern mdc (concat (map render is) @ ''%'') = None \<and>
    compile_pattern mdc (concat (map render is) @ ''%X'') = None"
  using compile_items [OF assms, of mdc "[]"] compile_items [OF assms, of mdc "''%''"] compile_items [OF assms, of mdc "''%X''"]
  by simp

lemma compile_pattern_items_witness:
  "compile_pattern [''user'' \<mapsto> ''alice''] ''[%l] %X{user}%X{id}: %v'' = Some ''[%l] user%X{{id}: %v''"
proof -
  let ?is = "[Literal CHR ''['', Escape CHR ''l'', Literal CHR '']'', Literal CHR '' '', Variable ''user'', Variable ''id'',
    Literal CHR '':'', Literal CHR '' '', Escape CHR ''v'']"
  have "list_all item_ok ?is" by simp
  from compile_pattern_items [OF this, of "[''user'' \<mapsto> ''alice'']"] show ?thesis by simp
qed

section \<open>reopen_all\<close>

text \<open>The sinks reachable from a list of sinks through distribution sinks.\<close>

inductive_set reachable_sinks :: "sink list \<Rightarrow> sink_ptr list \<Rightarrow> sink_ptr set" for h ps where
  reachable_base: "p \<in> set ps \<Longrightarrow> p \<in> reachable_sinks h ps"
| reachable_child: "p \<in> reachable_sinks h ps \<Longrightarrow> c \<in> set (sink_children (sink_at h p)) \<Longrightarrow> c \<in> reachable_sinks h ps"

lemma reachable_closed:
  assumes "set ps \<subseteq> S" "\<And>p. p \<in> S \<Longrightarrow> set (sink_children (sink_at h p)) \<subseteq> S"
  shows "reachable_sinks h ps \<subseteq> S"
proof
  fix p assume "p \<in> reachable_sinks h ps"
  then show "p \<in> S" by induction (use assms in auto)
qed

lemma reopenable_no_children: "reopenable k = Some f \<Longrightarrow> sink_children k = []"
  by (auto simp: reopenable_def sink_children_def split: option.splits sink.splits)

text \<open>The files the loop is to reopen, as pointers.\<close>

definition files_of :: "sink list \<Rightarrow> sink_ptr set \<Rightarrow> sink_ptr set" where
  "files_of h S = {p \<in> S. reopenable (sink_at h p) \<noteq> None}"

lemma reopen_loop_sound:
  assumes "set queue \<union> seen \<subseteq> R" "\<And>p. p \<in> R \<Longrightarrow> set (sink_children (sink_at h p)) \<subseteq> R"
    "reopen_loop can_open h seen queue = (fs, threw)"
  shows "set fs \<subseteq> files_of h R - seen \<and> distinct fs \<and>
    (threw \<longrightarrow> (\<exists>p\<in>R. \<exists>f. reopenable (sink_at h p) = Some f \<and> \<not> can_open f))"
  using assms
proof (induction can_open h seen queue arbitrary: fs rule: reopen_loop.induct)
  case (2 can_open h seen psink queue)
  note IH = 2(1-4) and sub = 2(5) and closed = 2(6) and run = 2(7)
  consider (seen) "psink \<in> seen" | (dist) "psink \<notin> seen" "sink_children (sink_at h psink) \<noteq> []"
    | (other) "psink \<notin> seen" "\<not> sink_children (sink_at h psink) \<noteq> []" "reopenable (sink_at h psink) = None"
    | (logfile) f where "psink \<notin> seen" "\<not> sink_children (sink_at h psink) \<noteq> []" "reopenable (sink_at h psink) = Some f"
    by fastforce
  then show ?case
  proof cases
    case seen
    have "set queue \<union> seen \<subseteq> R" using sub by auto
    from IH(1) [OF seen this closed] run seen show ?thesis by simp
  next
    case dist
    have "psink \<in> R" using sub by simp
    with closed sub have "set (queue @ sink_children (sink_at h psink)) \<union> insert psink seen \<subseteq> R" by auto
    from IH(2) [OF dist this closed] run dist show ?thesis by auto
  next
    case other
    have "set queue \<union> insert psink seen \<subseteq> R" using sub by auto
    from IH(3) [OF other this closed] run other show ?thesis by auto
  next
    case logfile
    have sub': "set queue \<union> insert psink seen \<subseteq> R" using sub by auto
    show ?thesis
    proof (cases "can_open f")
      case True
      from run logfile True obtain gs where gs: "reopen_loop can_open h (insert psink seen) queue = (gs, threw)" "fs = psink # gs"
        by (auto split: prod.splits)
      from IH(4) [OF logfile True sub' closed gs(1)] sub' logfile show ?thesis
        by (auto simp: gs(2) files_of_def)
    next
      case False
      with run logfile have "fs = []" by simp
      moreover have "psink \<in> R" using sub by simp
      ultimately show ?thesis using False logfile(3) by auto
    qed
  qed
qed simp

lemma reopen_loop_complete:
  assumes "\<And>p. p \<in> seen \<Longrightarrow> set (sink_children (sink_at h p)) \<subseteq> seen \<union> set queue"
    "reopen_loop can_open h seen queue = (fs, False)"
  shows "\<exists>S. seen \<union> set queue \<subseteq> S \<and> (\<forall>p\<in>S. set (sink_children (sink_at h p)) \<subseteq> S) \<and> files_of h S - seen \<subseteq> set fs"
  using assms
proof (induction can_open h seen queue arbitrary: fs rule: reopen_loop.induct)
  case (1 can_open h seen)
  then show ?case by (intro exI [of _ seen]) (auto simp: files_of_def)
next
  case (2 can_open h seen psink queue)
  note IH = 2(1-4) and closed = 2(5) and run = 2(6)
  consider (seen) "psink \<in> seen" | (dist) "psink \<notin> seen" "sink_children (sink_at h psink) \<noteq> []"
    | (other) "psink \<notin> seen" "\<not> sink_children (sink_at h psink) \<noteq> []" "reopenable (sink_at h psink) = None"
    | (logfile) f where "psink \<notin> seen" "\<not> sink_children (sink_at h psink) \<noteq> []" "reopenable (sink_at h psink) = Some f"
    by fastforce
  then show ?case
  proof cases
    case seen
    have "set (sink_children (sink_at h p)) \<subseteq> seen \<union> set queue" if "p \<in> seen" for p
      using closed [OF that] seen by auto
    from IH(1) [OF seen this, of fs] run seen show ?thesis by (simp add: insert_absorb)
  next
    case dist
    have cl: "set (sink_children (sink_at h p)) \<subseteq> insert psink seen \<union> set (queue @ sink_children (sink_at h psink))"
      if "p \<in> insert psink seen" for p using that closed [of p] by auto
    from IH(2) [OF dist cl, of fs] run dist obtain S where S:
      "insert psink seen \<union> set (queue @ sink_children (sink_at h psink)) \<subseteq> S"
      "\<forall>p\<in>S. set (sink_children (sink_at h p)) \<subseteq> S" "files_of h S - insert psink seen \<subseteq> set fs" by auto
    have "reopenable (sink_at h psink) = None" using dist(2) reopenable_no_children by (cases "reopenable (sink_at h psink)") auto
    then have "files_of h S - seen \<subseteq> files_of h S - insert psink seen" by (auto simp: files_of_def)
    with S show ?thesis by (intro exI [of _ S]) auto
  next
    case other
    have cl: "set (sink_children (sink_at h p)) \<subseteq> insert psink seen \<union> set queue"
      if "p \<in> insert psink seen" for p using that closed [of p] other(2) by auto
    from IH(3) [OF other cl, of fs] run other obtain S where S:
      "insert psink seen \<union> set queue \<subseteq> S"
      "\<forall>p\<in>S. set (sink_children (sink_at h p)) \<subseteq> S" "files_of h S - insert psink seen \<subseteq> set fs" by auto
    have "files_of h S - seen \<subseteq> files_of h S - insert psink seen" using other(3) by (auto simp: files_of_def)
    with S show ?thesis by (intro exI [of _ S]) auto
  next
    case logfile
    have cl: "set (sink_children (sink_at h p)) \<subseteq> insert psink seen \<union> set queue"
      if "p \<in> insert psink seen" for p using that closed [of p] logfile(2) by auto
    from run logfile obtain gs where gs: "can_open f" "reopen_loop can_open h (insert psink seen) queue = (gs, False)" "fs = psink # gs"
      by (auto split: prod.splits if_splits)
    from IH(4) [OF logfile gs(1) cl gs(2)] obtain S where S:
      "insert psink seen \<union> set queue \<subseteq> S"
      "\<forall>p\<in>S. set (sink_children (sink_at h p)) \<subseteq> S" "files_of h S - insert psink seen \<subseteq> set gs" by auto
    then show ?thesis by (intro exI [of _ S]) (auto simp: gs(3))
  qed
qed

text \<open>
  C31. \<open>reopen_all\<close> always ends, even when distribution sinks contain each other. Unless a file
  cannot be opened it reopens every file sink that is reachable from a registered logger, each
  exactly once; an exception that leaves it comes from such a file, and what was reopened before
  it was reopened once.
\<close>

theorem reopen_all_once:
  "let R = reachable_sinks (sinks st) (concat (map (lg_sinks \<circ> snd) (registry st)))
   in distinct (fst (reopen_all can_open st)) \<and>
    set (fst (reopen_all can_open st)) \<subseteq> files_of (sinks st) R \<and>
    (if snd (reopen_all can_open st)
     then \<exists>p\<in>R. \<exists>f. reopenable (sink_at (sinks st) p) = Some f \<and> \<not> can_open f
     else set (fst (reopen_all can_open st)) = files_of (sinks st) R)"
proof -
  define R where "R = reachable_sinks (sinks st) (concat (map (lg_sinks \<circ> snd) (registry st)))"
  let ?q = "concat (map (lg_sinks \<circ> snd) (registry st))"
  have q: "set ?q \<union> {} \<subseteq> R" unfolding R_def by (auto simp del: set_concat intro: reachable_base)
  have cl: "\<And>p. p \<in> R \<Longrightarrow> set (sink_children (sink_at (sinks st) p)) \<subseteq> R"
    unfolding R_def by (auto intro: reachable_child)
  obtain fs threw where run: "reopen_all can_open st = (fs, threw)" by fastforce
  note sound = reopen_loop_sound [OF q cl run [unfolded reopen_all_def]]
  have "files_of (sinks st) R \<subseteq> set fs" if "\<not> threw"
  proof -
    have "\<exists>S. {} \<union> set ?q \<subseteq> S \<and> (\<forall>p\<in>S. set (sink_children (sink_at (sinks st) p)) \<subseteq> S) \<and>
        files_of (sinks st) S - {} \<subseteq> set fs"
      using run that by (intro reopen_loop_complete) (simp_all add: reopen_all_def)
    then obtain S where S: "set ?q \<subseteq> S" "\<forall>p\<in>S. set (sink_children (sink_at (sinks st) p)) \<subseteq> S"
      "files_of (sinks st) S \<subseteq> set fs" by auto
    from reachable_closed [of ?q S "sinks st"] S(1,2) have "R \<subseteq> S" unfolding R_def by blast
    with S(3) show ?thesis by (auto simp: files_of_def)
  qed
  with sound run show ?thesis unfolding Let_def R_def [symmetric] by auto
qed

section \<open>Start\<close>

text \<open>The sink an appender asks for, and whether it can be built.\<close>

definition configured_sink :: "appender \<Rightarrow> sink option" where
  "configured_sink a = (case type_of a of
      STDOUT \<Rightarrow> Some (if color a then ColorSink (Some 0) else StdoutSink)
    | STDERR \<Rightarrow> Some (if color a then ColorSink (Some 1) else StderrSink)
    | FILE \<Rightarrow> Some (ReopenableFile (file_name a))
    | DAILY \<Rightarrow> Some (DailyFile (file_name a) (rotate_at_hours a) (rotate_at_mins a))
    | SIZED \<Rightarrow> Some (RotatingFile (file_name a) (rotate_at_size a) (history_to_keep a))
    | SYSLOG \<Rightarrow> Some (SyslogSink (ident a) (option_of a) (facility a))
    | UnknownType \<Rightarrow> None)"

definition appender_ok :: "(sink \<Rightarrow> bool) \<Rightarrow> appender \<Rightarrow> bool" where
  "appender_ok can_make a = (case configured_sink a of None \<Rightarrow> False
     | Some k \<Rightarrow> k = StdoutSink \<or> k = StderrSink \<or> can_make k)"

definition console_cells :: "sink list \<Rightarrow> bool" where
  "console_cells h \<longleftrightarrow> (\<exists>t. h = StdoutSink # StderrSink # t)"

lemma console_cells_append: "console_cells h \<Longrightarrow> console_cells (h @ x)"
  by (auto simp: console_cells_def)

lemma build_appender_ok:
  assumes "console_cells h"
  shows "(case build_appender can_make a h of
      Inl e \<Rightarrow> \<not> appender_ok can_make a
    | Inr (p, h') \<Rightarrow> appender_ok can_make a \<and> (\<exists>ext. h' = h @ ext) \<and> sink_at h' (Some p) = configured_sink a)"
proof -
  from assms obtain t where "h = StdoutSink # StderrSink # t" by (auto simp: console_cells_def)
  then show ?thesis
    by (cases "type_of a")
      (auto simp: build_appender_def console_sink_def make_sink_def appender_ok_def configured_sink_def sink_at_def nth_append)
qed

lemma sink_at_append: "sink_at h p = Some k \<Longrightarrow> sink_at (h @ x) p = Some k"
  by (auto simp: sink_at_def nth_append split: option.splits if_splits)

lemma appender_ok_sink: "appender_ok can_make a \<Longrightarrow> \<exists>k. configured_sink a = Some k"
  by (auto simp: appender_ok_def split: option.splits)

lemma build_appenders_ok:
  assumes "console_cells h" "distinct (map fst as)"
  shows "(case build_appenders can_make as results h of
      Inl e \<Rightarrow> \<not> (\<forall>(n, a) \<in> set as. appender_ok can_make a)
    | Inr (results', h') \<Rightarrow> (\<forall>(n, a) \<in> set as. appender_ok can_make a \<and>
          (\<exists>p. results' n = Some p \<and> sink_at h' (Some p) = configured_sink a)) \<and>
        (\<forall>n. n \<notin> fst ` set as \<longrightarrow> results' n = results n) \<and> (\<exists>ext. h' = h @ ext))"
  using assms
proof (induction as arbitrary: results h)
  case (Cons x as)
  obtain name a where x: "x = (name, a)" by (cases x)
  show ?case
  proof (cases "build_appender can_make a h")
    case (Inl e)
    with build_appender_ok [OF Cons.prems(1), of can_make a] show ?thesis by (simp add: x)
  next
    case (Inr y)
    then obtain p h1 where y: "build_appender can_make a h = Inr (p, h1)" by (cases y) auto
    with build_appender_ok [OF Cons.prems(1), of can_make a] obtain ext k where
      1: "appender_ok can_make a" "h1 = h @ ext" "sink_at h1 (Some p) = configured_sink a" "configured_sink a = Some k"
      using appender_ok_sink by fastforce
    have h1: "console_cells h1" unfolding 1(2) by (rule console_cells_append [OF Cons.prems(1)])
    have d: "distinct (map fst as)" "name \<notin> fst ` set as" using Cons.prems(2) by (auto simp: x)
    note IH = Cons.IH [OF h1 d(1), of "results(name \<mapsto> p)"]
    show ?thesis
    proof (cases "build_appenders can_make as (results(name \<mapsto> p)) h1")
      case (Inl e)
      with IH [unfolded Inl] y show ?thesis by (auto simp: x)
    next
      case (Inr z)
      then obtain r2 h2 where z: "build_appenders can_make as (results(name \<mapsto> p)) h1 = Inr (r2, h2)" by (cases z) auto
      from IH [unfolded z] d(2) have 2: "\<forall>(n, a) \<in> set as. appender_ok can_make a \<and> (\<exists>p. r2 n = Some p \<and> sink_at h2 (Some p) = configured_sink a)"
        "\<forall>n. n \<notin> fst ` set as \<longrightarrow> r2 n = (results(name \<mapsto> p)) n" "r2 name = Some p" "\<exists>ext. h2 = h1 @ ext" by simp_all
      from 2(4) 1(3,4) have "sink_at h2 (Some p) = configured_sink a" by (auto simp: sink_at_append)
      moreover have "build_appenders can_make (x # as) results h = Inr (r2, h2)"
        by (simp only: x build_appenders.simps y z sum.case prod.case)
      ultimately show ?thesis using 1(1,2) 2 by (auto simp: x)
    qed
  qed
qed auto

lemma configured_sink_not_dist: "configured_sink a \<noteq> Some (DistSink ps)"
  by (cases "type_of a") (simp_all add: configured_sink_def)

definition logger_ok :: "(string \<rightharpoonup> nat) \<Rightarrow> sink list \<Rightarrow> string \<Rightarrow> logger_config \<Rightarrow> spd_logger \<Rightarrow> bool" where
  "logger_ok results h n l lg \<longleftrightarrow> lg_name lg = n \<and> lg_level lg = spd_level_of (level l) \<and> lg_pattern lg = format l \<and>
     (\<exists>p. lg_sinks lg = [p] \<and> (case appenders l of [] \<Rightarrow> p = None | [a] \<Rightarrow> p = results a
        | as \<Rightarrow> sink_at h p = Some (DistSink (map results as))))"

lemma logger_ok_append: "logger_ok results h n l lg \<Longrightarrow> logger_ok results (h @ x) n l lg"
  by (auto simp: logger_ok_def sink_at_append split: list.splits)

lemma build_loggers_ok:
  assumes "distinct (map fst ls)" "fst ` set ls \<inter> fst ` set (registry st) = {}"
  shows "\<exists>st'. build_loggers results ls st = (None, st') \<and> (\<exists>ext. sinks st' = sinks st @ ext) \<and>
    (\<forall>n. n \<notin> fst ` set ls \<longrightarrow> map_of (registry st') n = map_of (registry st) n) \<and>
    (\<forall>(n, l) \<in> set ls. \<exists>lg. map_of (registry st') n = Some lg \<and> logger_ok results (sinks st') n l lg)"
  using assms
proof (induction ls arbitrary: st)
  case (Cons x ls)
  obtain name l where x: "x = (name, l)" by (cases x)
  obtain p h where b: "build_sink results (appenders l) (sinks st) = (p, h)" by fastforce
  let ?lg = "\<lparr>lg_name = name, lg_sinks = [p], lg_level = spd_level_of (level l), lg_pattern = format l, lg_flush_on = spd_err\<rparr>"
  let ?st = "st\<lparr>sinks := h, registry := registry st @ [(name, ?lg)]\<rparr>"
  have fresh: "map_of (registry st) name = None" using Cons.prems(2) by (auto simp: x map_of_eq_None_iff)
  have step: "build_loggers results (x # ls) st = build_loggers results ls ?st" using fresh by (simp add: x b)
  have lg: "logger_ok results h name l ?lg" and ext: "\<exists>ext. h = sinks st @ ext"
    using b by (auto simp: logger_ok_def build_sink_def sink_at_def split: list.splits)
  have new: "map_of (registry ?st) name = Some ?lg" using fresh by (simp add: map_add_def)
  have "fst ` set ls \<inter> fst ` set (registry ?st) = {}" "distinct (map fst ls)" "name \<notin> fst ` set ls"
    using Cons.prems by (auto simp: x)
  from Cons.IH [OF this(2,1)] this(3) obtain st' where st': "build_loggers results ls ?st = (None, st')"
    "\<exists>ext. sinks st' = h @ ext" "\<forall>n. n \<notin> fst ` set ls \<longrightarrow> map_of (registry st') n = map_of (registry ?st) n"
    "\<forall>(n, l) \<in> set ls. \<exists>lg. map_of (registry st') n = Some lg \<and> logger_ok results (sinks st') n l lg"
    "map_of (registry st') name = map_of (registry ?st) name" by auto
  from st'(2) lg have "logger_ok results (sinks st') name l ?lg" by (auto simp: logger_ok_append)
  moreover have "map_of (registry st') n = map_of (registry st) n" if "n \<notin> fst ` set (x # ls)" for n
    using that st'(3) by (simp add: x map_add_def split: option.split)
  moreover have "build_loggers results (x # ls) st = (None, st')" using step st'(1) by simp
  moreover have "\<exists>ext. sinks st' = sinks st @ ext" using st'(2) ext by auto
  moreover have "\<forall>(n, l) \<in> set (x # ls). \<exists>lg. map_of (registry st') n = Some lg \<and> logger_ok results (sinks st') n l lg"
    using st'(4,5) new calculation(1) by (auto simp: x)
  ultimately show ?case by (intro exI [of _ st']) simp
qed auto

text \<open>The sinks a message of a logger is handed to; \<open>None\<close> is a null pointer.\<close>

definition targets :: "sink list \<Rightarrow> spd_logger \<Rightarrow> sink option list" where
  "targets h lg = concat (map (\<lambda>p. case sink_at h p of Some (DistSink ps) \<Rightarrow> map (sink_at h) ps | k \<Rightarrow> [k]) (lg_sinks lg))"

text \<open>What a successful \<open>Start\<close> has built, step by step.\<close>

lemma built_targets:
  assumes "logger_ok results (h @ ext) n l lg"
    and "\<And>a. sink_at (h @ ext) (results a) = Option.bind (map_of as a) configured_sink"
  shows "targets (h @ ext) lg = (if appenders l = [] then [None]
    else map (\<lambda>a. Option.bind (map_of as a) configured_sink) (appenders l))"
proof (cases "appenders l")
  case Nil
  with assms(1) show ?thesis by (auto simp: logger_ok_def targets_def sink_at_def)
next
  case (Cons a names)
  show ?thesis
  proof (cases names)
    case Nil
    have "Option.bind (map_of as a) configured_sink \<noteq> Some (DistSink ps)" for ps
      using configured_sink_not_dist by (cases "map_of as a") auto
    with assms Nil Cons show ?thesis
      by (auto simp: logger_ok_def targets_def split: option.splits sink.splits)
  qed (use assms Cons in \<open>auto simp: logger_ok_def targets_def\<close>)
qed

lemma built_results:
  assumes "\<And>n a. (n, a) \<in> set as \<Longrightarrow> appender_ok can_make a \<and> (\<exists>p. results n = Some p \<and> sink_at h (Some p) = configured_sink a)"
    "\<And>n. n \<notin> fst ` set as \<Longrightarrow> results n = None"
  shows "sink_at (h @ ext) (results a) = Option.bind (map_of as a) configured_sink"
proof (cases "map_of as a")
  case None
  then have "results a = None" using assms(2) by (simp add: map_of_eq_None_iff)
  with None show ?thesis by (simp add: sink_at_def)
next
  case (Some x)
  from assms(1) [OF map_of_SomeD [OF Some]] obtain p where
    "appender_ok can_make x" "results a = Some p" "sink_at h (Some p) = configured_sink x" by blast
  with Some appender_ok_sink [of can_make x] show ?thesis by (auto simp: sink_at_append)
qed

lemma Start_service_cases:
  assumes "distinct (map fst (cfg_appenders cfg))" "distinct (map fst (cfg_loggers cfg))"
    "Start_service can_make cfg new_service = (e, st)"
  obtains (invalid) "e \<noteq> None" "\<not> (\<forall>(n, a) \<in> set (cfg_appenders cfg). appender_ok can_make a)"
  | (built) "\<forall>(n, a) \<in> set (cfg_appenders cfg). appender_ok can_make a"
      "e = None \<longleftrightarrow> ''root'' \<in> fst ` set (cfg_loggers cfg)"
      "\<And>n l. (n, l) \<in> set (cfg_loggers cfg) \<Longrightarrow> \<exists>lg. map_of (registry st) n = Some lg \<and> lg_name lg = n \<and>
        lg_level lg = spd_level_of (level l) \<and> lg_pattern lg = format l \<and>
        targets (sinks st) lg = (if appenders l = [] then [None]
          else map (\<lambda>a. Option.bind (map_of (cfg_appenders cfg) a) configured_sink) (appenders l))"
proof (cases "build_appenders can_make (cfg_appenders cfg) Map.empty (sinks new_service)")
  case (Inl x)
  have "console_cells (sinks new_service)" by (simp add: new_service_def console_cells_def)
  from build_appenders_ok [OF this assms(1), of can_make Map.empty] Inl assms(3) show ?thesis
    by (intro invalid) (auto simp: Start_service_def)
next
  case (Inr y)
  let ?as = "cfg_appenders cfg" let ?ls = "cfg_loggers cfg"
  obtain res h where y: "build_appenders can_make ?as Map.empty (sinks new_service) = Inr (res, h)" using Inr by (cases y) auto
  have "console_cells (sinks new_service)" by (simp add: new_service_def console_cells_def)
  from build_appenders_ok [OF this assms(1), of can_make Map.empty] y
  have A: "\<And>n a. (n, a) \<in> set ?as \<Longrightarrow> appender_ok can_make a \<and> (\<exists>p. res n = Some p \<and> sink_at h (Some p) = configured_sink a)"
    "\<And>n. n \<notin> fst ` set ?as \<Longrightarrow> res n = None" by auto
  have "fst ` set ?ls \<inter> fst ` set (registry (new_service\<lparr>sinks := h\<rparr>)) = {}" by (simp add: new_service_def)
  from build_loggers_ok [OF assms(2) this, of res] obtain st' where L0:
    "build_loggers res ?ls (new_service\<lparr>sinks := h\<rparr>) = (None, st')" "\<exists>ext. sinks st' = sinks (new_service\<lparr>sinks := h\<rparr>) @ ext"
    "\<forall>n. n \<notin> fst ` set ?ls \<longrightarrow> map_of (registry st') n = map_of (registry (new_service\<lparr>sinks := h\<rparr>)) n"
    "\<forall>(n, l) \<in> set ?ls. \<exists>lg. map_of (registry st') n = Some lg \<and> logger_ok res (sinks st') n l lg" by blast
  then obtain ext where ext: "sinks st' = h @ ext" by auto
  have L: "\<And>n. n \<notin> fst ` set ?ls \<Longrightarrow> map_of (registry st') n = None"
    "\<And>n l. (n, l) \<in> set ?ls \<Longrightarrow> \<exists>lg. map_of (registry st') n = Some lg \<and> logger_ok res (h @ ext) n l lg"
    using L0(3,4) ext by (auto simp: new_service_def)
  from assms(3) y L0(1) have st: "registry st = registry st'" "sinks st = h @ ext"
    and e: "e = (if map_of (registry st') ''root'' = None then Some NoRoot else None)"
    using ext by (auto simp: Start_service_def Let_def split: if_splits)
  show ?thesis
  proof (rule built)
    show "\<forall>(n, a) \<in> set ?as. appender_ok can_make a" using A(1) by blast
    show "e = None \<longleftrightarrow> ''root'' \<in> fst ` set ?ls" unfolding e using L by force
  next
    fix n l assume "(n, l) \<in> set ?ls"
    from L(2) [OF this] obtain lg where lg: "map_of (registry st') n = Some lg" "logger_ok res (h @ ext) n l lg" by blast
    have "sink_at (h @ ext) (res a) = Option.bind (map_of ?as a) configured_sink" for a
      by (rule built_results [where can_make = can_make]) (use A in blast)+
    from built_targets [OF lg(2), of ?as, OF this] lg show "\<exists>lg. map_of (registry st) n = Some lg \<and> lg_name lg = n \<and>
        lg_level lg = spd_level_of (level l) \<and> lg_pattern lg = format l \<and>
        targets (sinks st) lg = (if appenders l = [] then [None]
          else map (\<lambda>a. Option.bind (map_of ?as a) configured_sink) (appenders l))"
      unfolding st by (auto simp: logger_ok_def)
  qed
qed

lemma select_registered: "map_of (registry st) n = Some lg \<Longrightarrow> select_logger n st = Some lg"
  by (simp add: select_logger_def select_loop.simps)

text \<open>
  C20. \<open>Start\<close> succeeds exactly if every appender can be built and a logger \<open>root\<close> is configured.
  Then every configured logger is selected by its name with its level and pattern and hands its
  messages to the sinks of its appenders in order; the name of an appender that does not exist is
  not reported but leaves a null pointer among the sinks, and so does a logger without appenders.
\<close>

theorem start_registers:
  assumes "distinct (map fst (cfg_appenders cfg))" "distinct (map fst (cfg_loggers cfg))"
    "Start_service can_make cfg new_service = (e, st)"
  shows "(e = None \<longleftrightarrow> (\<forall>(n, a) \<in> set (cfg_appenders cfg). appender_ok can_make a) \<and> ''root'' \<in> fst ` set (cfg_loggers cfg)) \<and>
    (e = None \<longrightarrow> (\<forall>(n, l) \<in> set (cfg_loggers cfg). \<exists>lg. select_logger n st = Some lg \<and>
       lg_name lg = n \<and> lg_level lg = spd_level_of (level l) \<and> lg_pattern lg = format l \<and>
       targets (sinks st) lg = (if appenders l = [] then [None]
         else map (\<lambda>a. Option.bind (map_of (cfg_appenders cfg) a) configured_sink) (appenders l))))"
proof (rule Start_service_cases [OF assms], goal_cases)
  case built: 2
  show ?thesis
  proof (intro conjI impI ballI, goal_cases)
    case 1
    show ?case using built(1,2) by blast
  next
    case (2 x)
    obtain n l where x: "x = (n, l)" by (cases x)
    with 2(2) built(3) [of n l] select_registered show ?case unfolding x prod.case by blast
  qed
qed auto

lemma start_registers_witness:
  "fst (Start_service (\<lambda>_. True) \<lparr>cfg_appenders = [], cfg_loggers = [(''root'', \<lparr>level = DEBUG, format = [], appenders = [''console'']\<rparr>)]\<rparr> new_service) = None"
proof -
  let ?cfg = "\<lparr>cfg_appenders = [], cfg_loggers = [(''root'', \<lparr>level = DEBUG, format = [], appenders = [''console'']\<rparr>)]\<rparr>"
  have "Start_service (\<lambda>_. True) ?cfg new_service =
    (fst (Start_service (\<lambda>_. True) ?cfg new_service), snd (Start_service (\<lambda>_. True) ?cfg new_service))" by simp
  from start_registers [OF _ _ this] show ?thesis by simp
qed

end
