(* ===== verification/Event_Loop.thy ===== *)
theory Event_Loop
  imports Nonblocking_Connection
begin

text \<open>
  The single-threaded epoll server (\<open>st_nonblocking/ServerImpl.cpp\<close>): the dispatch of the events
  of one \<open>epoll_wait\<close>, the accepting of connections, the sweep over the set of connections after
  every wait, the outer loop and \<open>Join\<close>. The kernel is an input: the events of every wait and the
  results of the calls made while they are handled.
\<close>

section \<open>State\<close>

text \<open>
  A connection is named by its object; \<open>conns\<close> holds the set in its order, \<open>epoll_set\<close> the events
  every registered connection waits for. \<open>listening\<close> tells that the server socket and the event
  descriptor are registered, \<open>closed_socks\<close> lists the sockets closed.
\<close>

record 's st_server =
  conns :: "(nat \<times> connection) list"
  epoll_set :: "nat \<rightharpoonup> epoll_flag set"
  listening :: bool
  run_flag :: bool
  next_conn :: nat
  closed_socks :: "nat list"
  st_storage :: 's

definition fresh_server :: "'s \<Rightarrow> 's st_server" where
  "fresh_server s = \<lparr>conns = [], epoll_set = Map.empty, listening = True, run_flag = True, next_conn = 0,
     closed_socks = [], st_storage = s\<rparr>"

text \<open>
  \<open>DeleteConnection\<close>: closing the socket takes it out of the epoll set.
\<close>

definition DeleteConnection :: "nat \<Rightarrow> 's st_server \<Rightarrow> 's st_server" where
  "DeleteConnection i sv = sv\<lparr>closed_socks := closed_socks sv @ [i], epoll_set := (epoll_set sv)(i := None),
     conns := filter (\<lambda>e. fst e \<noteq> i) (conns sv)\<rparr>"

definition put_conn :: "nat \<Rightarrow> connection \<Rightarrow> 's st_server \<Rightarrow> 's st_server" where
  "put_conn i c sv = sv\<lparr>conns := map (\<lambda>(j, d). if j = i then (i, c) else (j, d)) (conns sv)\<rparr>"

section \<open>Events\<close>

text \<open>
  An accepted socket comes with the result of its registration and with the unknown initial values
  of the members of its \<open>Connection\<close>. The event of a connection comes with what its reads and its
  write deliver and with the result of a change of its mask; the stop event with the results of the
  two deregistrations, whose failure ends the program.
\<close>

datatype accepted = Accept (registered: bool) (garbage: "bool \<times> size_t \<times> bool")

datatype st_event = StopEvent bool bool | AcceptEvent "accepted list"
  | ConnEvent nat "epoll_flag set" "string list" write_result bool

fun OnNewConnection :: "accepted list \<Rightarrow> 's st_server \<Rightarrow> 's st_server" where
  "OnNewConnection [] sv = sv"
| "OnNewConnection (Accept add_ok (alive, r, neg) # as) sv =
     (let i = next_conn sv;
          c = Start {} (new_connection alive r neg);
          sv = sv\<lparr>next_conn := Suc i, conns := conns sv @ [(i, c)]\<rparr>;
          sv = (if c_alive c then
                  (if add_ok then sv\<lparr>epoll_set := (epoll_set sv)(i \<mapsto> c_events c)\<rparr>
                   else DeleteConnection i (put_conn i (OnError c) sv))
                else sv)
      in OnNewConnection as sv)"

text \<open>What an event does to its connection.\<close>

definition dispatch :: "'s storage_ops \<Rightarrow> bool \<Rightarrow> epoll_flag set \<Rightarrow> string list \<Rightarrow> write_result \<Rightarrow>
    connection \<Rightarrow> 's \<Rightarrow> (connection \<times> 's) option" where
  "dispatch st run fl reads w c s =
     (if EPOLLERR \<in> fl \<or> EPOLLHUP \<in> fl then Some (OnError c, s)
      else if EPOLLRDHUP \<in> fl then Some (OnClose c, s)
      else do {
        (c, s) \<leftarrow> (if EPOLLIN \<in> fl then DoRead st (\<lambda>_. run) reads c s else Some (c, s));
        c \<leftarrow> (if EPOLLOUT \<in> fl then DoWrite run w c else Some c);
        Some (c, s) })"

fun handle_event :: "'s storage_ops \<Rightarrow> st_event \<Rightarrow> 's st_server \<Rightarrow> 's st_server option" where
  "handle_event st (StopEvent del1 del2) sv =
     (if del1 \<and> del2 then Some (sv\<lparr>run_flag := False, listening := False\<rparr>) else None)"
| "handle_event st (AcceptEvent as) sv = Some (OnNewConnection as sv)"
| "handle_event st (ConnEvent i fl reads w mod_ok) sv = do {
     c \<leftarrow> map_of (conns sv) i;
     let old_mask = c_events c;
     (c, s) \<leftarrow> dispatch st (run_flag sv) fl reads w c (st_storage sv);
     let sv = put_conn i c (sv\<lparr>st_storage := s\<rparr>);
     Some (if \<not> c_alive c then DeleteConnection i sv
           else if c_events c \<noteq> old_mask then
             (if mod_ok then sv\<lparr>epoll_set := (epoll_set sv)(i \<mapsto> c_events c)\<rparr>
              else DeleteConnection i (put_conn i (OnClose c) sv))
           else sv) }"

fun handle_events :: "'s storage_ops \<Rightarrow> st_event list \<Rightarrow> 's st_server \<Rightarrow> 's st_server option" where
  "handle_events st [] sv = Some sv"
| "handle_events st (ev # evs) sv = do { sv \<leftarrow> handle_event st ev sv; handle_events st evs sv }"

section \<open>Walking over the set of connections\<close>

text \<open>
  The increment of an iterator of \<open>std::set\<close> at the element \<open>i\<close>: undefined once the element has been
  erased.
\<close>

definition next_of :: "nat \<Rightarrow> 's st_server \<Rightarrow> unit option" where
  "next_of i sv = (if i \<in> fst ` set (conns sv) then Some () else None)"

definition idle :: "connection \<Rightarrow> bool" where
  "idle c \<longleftrightarrow> pending (c_session c) = None \<and> c_responses c = []"

text \<open>The loop after the events of a wait: idle connections are closed and deleted.\<close>

fun sweep :: "(nat \<times> connection) list \<Rightarrow> 's st_server \<Rightarrow> 's st_server option" where
  "sweep [] sv = Some sv"
| "sweep ((i, c) # cs) sv = do {
     let sv = (if idle c then DeleteConnection i (put_conn i (OnClose c) sv) else sv);
     _ \<leftarrow> next_of i sv;
     sweep cs sv }"

definition one_round :: "'s storage_ops \<Rightarrow> st_event list \<Rightarrow> 's st_server \<Rightarrow> 's st_server option" where
  "one_round st evs sv = do { sv \<leftarrow> handle_events st evs sv; sweep (conns sv) sv }"

text \<open>
  \<open>OnRun\<close> for at most \<open>k\<close> waits: the kernel \<open>env\<close> delivers the events of the \<open>n\<close>-th wait, given the
  server. The result tells whether the loop has ended.
\<close>

fun OnRun :: "'s storage_ops \<Rightarrow> (nat \<Rightarrow> 's st_server \<Rightarrow> st_event list) \<Rightarrow> nat \<Rightarrow> nat \<Rightarrow> nat \<Rightarrow> 's st_server \<Rightarrow>
    (bool \<times> 's st_server) option" where
  "OnRun st env 0 n nmod sv = Some (False, sv)"
| "OnRun st env (Suc k) n nmod sv =
     (if run_flag sv \<or> (nmod > 0 \<and> conns sv \<noteq> []) then do {
        sv' \<leftarrow> one_round st (env n sv) sv;
        OnRun st env k (Suc n) (length (env n sv)) sv' }
      else Some (True, sv))"

text \<open>The loop of \<open>Join\<close> over the connections that are left.\<close>

fun join_loop :: "(nat \<times> connection) list \<Rightarrow> 's st_server \<Rightarrow> 's st_server option" where
  "join_loop [] sv = Some sv"
| "join_loop ((i, c) # cs) sv = do {
     let sv = DeleteConnection i (put_conn i (OnClose c) sv);
     _ \<leftarrow> next_of i sv;
     join_loop cs sv }"

definition Join :: "'s st_server \<Rightarrow> 's st_server option" where
  "Join sv = do { sv \<leftarrow> join_loop (conns sv) sv; Some (sv\<lparr>conns := []\<rparr>) }"

section \<open>The first connection\<close>

text \<open>
  What \<open>epoll_wait\<close> reports are registered connections; this is documented behaviour of the kernel.
\<close>

definition epoll_reports :: "'s st_server \<Rightarrow> st_event list \<Rightarrow> bool" where
  "epoll_reports sv evs \<longleftrightarrow> (\<forall>ev \<in> set evs. case ev of ConnEvent i fl reads w ok \<Rightarrow> epoll_set sv i \<noteq> None | _ \<Rightarrow> True)"

text \<open>A socket is accepted and registered.\<close>

definition registers :: "st_event \<Rightarrow> bool" where
  "registers ev \<longleftrightarrow> (case ev of AcceptEvent as \<Rightarrow> \<exists>a \<in> set as. registered a | _ \<Rightarrow> False)"

definition all_idle :: "'s st_server \<Rightarrow> bool" where
  "all_idle sv \<longleftrightarrow> (\<forall>(i, c) \<in> set (conns sv). idle c \<and> i < next_conn sv) \<and>
     dom (epoll_set sv) \<subseteq> fst ` set (conns sv)"

lemma start_idle: "idle (Start extra (new_connection a r n))" "c_alive (Start extra c)"
  by (simp_all add: idle_def Start_def new_connection_def new_session_def)

lemma OnNewConnection_idle:
  "all_idle sv \<Longrightarrow> all_idle (OnNewConnection as sv) \<and> st_storage (OnNewConnection as sv) = st_storage sv \<and>
     (conns (OnNewConnection as sv) = [] \<longleftrightarrow> conns sv = [] \<and> (\<forall>a \<in> set as. \<not> registered a))"
proof (induction as arbitrary: sv)
  case (Cons a as)
  obtain ok al r n where a: "a = Accept ok (al, r, n)" by (cases a) auto
  let ?c = "Start {} (new_connection al r n)"
  show ?case
  proof (cases ok)
    case True
    let ?sv = "sv\<lparr>next_conn := Suc (next_conn sv), conns := conns sv @ [(next_conn sv, ?c)],
      epoll_set := (epoll_set sv)(next_conn sv \<mapsto> c_events ?c)\<rparr>"
    have "all_idle ?sv" using Cons.prems by (auto simp: all_idle_def start_idle less_Suc_eq)
    from Cons.IH [OF this] True show ?thesis by (simp add: a Let_def start_idle)
  next
    case False
    have new: "filter (\<lambda>e. fst e \<noteq> next_conn sv) (map (\<lambda>(j, d). if j = next_conn sv then (next_conn sv, x) else (j, d)) (conns sv)) = conns sv" for x
    proof -
      have "map (\<lambda>(j, d). if j = next_conn sv then (next_conn sv, x) else (j, d)) (conns sv) = conns sv"
        using Cons.prems by (intro map_idI) (auto simp: all_idle_def)
      moreover have "filter (\<lambda>e. fst e \<noteq> next_conn sv) (conns sv) = conns sv"
        using Cons.prems by (intro filter_True) (auto simp: all_idle_def)
      ultimately show ?thesis by simp
    qed
    let ?sv = "sv\<lparr>next_conn := Suc (next_conn sv), closed_socks := closed_socks sv @ [next_conn sv],
      epoll_set := (epoll_set sv)(next_conn sv := None)\<rparr>"
    have "all_idle ?sv" using Cons.prems by (auto simp: all_idle_def less_Suc_eq)
    moreover have "OnNewConnection (a # as) sv = OnNewConnection as ?sv"
      using new by (simp add: a False Let_def start_idle put_conn_def DeleteConnection_def)
    ultimately show ?thesis using Cons.IH [of ?sv] by (auto simp: a False)
  qed
qed simp

text \<open>Between rounds no connection is left, or the program has left defined behaviour.\<close>

lemma sweep_idle: "\<forall>(i, c) \<in> set cs. idle c \<Longrightarrow> sweep cs sv = (if cs = [] then Some sv else None)"
  by (cases cs) (auto simp: next_of_def DeleteConnection_def)

lemma handle_events_idle:
  assumes "all_idle sv" "\<forall>ev \<in> set evs. \<forall>i fl rs w ok. ev \<noteq> ConnEvent i fl rs w ok"
  shows "(case handle_events st evs sv of
      None \<Rightarrow> (\<exists>d1 d2. StopEvent d1 d2 \<in> set evs \<and> \<not> (d1 \<and> d2))
    | Some sv' \<Rightarrow> (\<forall>d1 d2. StopEvent d1 d2 \<in> set evs \<longrightarrow> d1 \<and> d2) \<and> all_idle sv' \<and> st_storage sv' = st_storage sv \<and>
        (conns sv' = [] \<longleftrightarrow> conns sv = [] \<and> (\<forall>ev \<in> set evs. \<not> registers ev)))"
  using assms
proof (induction evs arbitrary: sv)
  case (Cons ev evs)
  have evs: "\<forall>ev \<in> set evs. \<forall>i fl rs w ok. ev \<noteq> ConnEvent i fl rs w ok" using Cons.prems(2) by auto
  show ?case
  proof (cases ev)
    case (StopEvent d1 d2)
    have "all_idle (sv\<lparr>run_flag := False, listening := False\<rparr>)" using Cons.prems(1) by (simp add: all_idle_def)
    from Cons.IH [OF this evs] show ?thesis
      by (auto simp: StopEvent registers_def split: option.splits)
  next
    case (AcceptEvent as)
    note new = OnNewConnection_idle [OF Cons.prems(1), of as]
    from new Cons.IH [OF _ evs, of "OnNewConnection as sv"] show ?thesis
      by (auto simp: AcceptEvent registers_def split: option.splits)
  next
    case (ConnEvent i fl rs w ok)
    have "ev \<noteq> ConnEvent i fl rs w ok" by (rule Cons.prems(2) [rule_format]) simp
    with ConnEvent show ?thesis by simp
  qed
qed simp

lemma one_round_empty:
  assumes "conns sv = []" "epoll_set sv = Map.empty" "epoll_reports sv evs"
  shows "(case one_round st evs sv of
      None \<Rightarrow> (\<exists>ev \<in> set evs. registers ev) \<or> (\<exists>d1 d2. StopEvent d1 d2 \<in> set evs \<and> \<not> (d1 \<and> d2))
    | Some sv' \<Rightarrow> (\<forall>ev \<in> set evs. \<not> registers ev) \<and> (\<forall>d1 d2. StopEvent d1 d2 \<in> set evs \<longrightarrow> d1 \<and> d2) \<and>
        conns sv' = [] \<and> epoll_set sv' = Map.empty \<and> st_storage sv' = st_storage sv)"
proof -
  have idle: "all_idle sv" using assms(1,2) by (simp add: all_idle_def)
  have "\<forall>ev \<in> set evs. \<forall>i fl rs w ok. ev \<noteq> ConnEvent i fl rs w ok"
    using assms(2,3) by (force simp: epoll_reports_def)
  note H = handle_events_idle [OF idle this, of st]
  show ?thesis
  proof (cases "handle_events st evs sv")
    case None
    with H show ?thesis by (auto simp: one_round_def)
  next
    case (Some sv')
    from H [unfolded Some option.case] have sv': "all_idle sv'" "st_storage sv' = st_storage sv" "conns sv' = [] \<longleftrightarrow> (\<forall>ev \<in> set evs. \<not> registers ev)"
      "\<forall>d1 d2. StopEvent d1 d2 \<in> set evs \<longrightarrow> d1 \<and> d2" using assms(1) by blast+
    have "\<forall>(i, c) \<in> set (conns sv'). idle c" using sv'(1) by (auto simp: all_idle_def)
    from sweep_idle [OF this, of sv'] sv' Some show ?thesis
      by (auto simp: one_round_def all_idle_def split: if_splits)
  qed
qed

text \<open>
  C19. The single-threaded epoll server never serves anyone: the sweep at the end of a round treats
  a connection without a command and without responses as finished, which every new connection
  is, and erasing it invalidates the iterator the loop goes on with. Whatever the kernel reports,
  as long as the behaviour is defined there is no connection between two rounds and the storage
  is the one the server was given; a round in which a connection is registered is undefined.
\<close>

theorem st_server_never_serves:
  assumes "\<And>n sv. epoll_reports sv (env n sv)"
  shows "(\<forall>sv. conns sv = [] \<and> epoll_set sv = Map.empty \<and> (\<exists>ev \<in> set (env n sv). registers ev) \<longrightarrow>
      one_round st (env n sv) sv = None) \<and>
    (OnRun st env k n nmod (fresh_server s) = Some (ended, sv') \<longrightarrow> conns sv' = [] \<and> st_storage sv' = s)"
proof (intro conjI allI impI)
  fix sv :: "'a st_server"
  assume sv: "conns sv = [] \<and> epoll_set sv = Map.empty \<and> (\<exists>ev \<in> set (env n sv). registers ev)"
  with one_round_empty [OF _ _ assms, of sv n st] show "one_round st (env n sv) sv = None"
    by (auto split: option.splits)
next
  have *: "OnRun st env k n nmod sv = Some (ended, sv') \<Longrightarrow> conns sv = [] \<Longrightarrow> epoll_set sv = Map.empty \<Longrightarrow>
    conns sv' = [] \<and> st_storage sv' = st_storage sv" for sv n nmod
  proof (induction k arbitrary: sv n nmod)
    case (Suc k)
    show ?case
    proof (cases "run_flag sv")
      case True
      with Suc.prems(1) obtain sv1 where 1: "one_round st (env n sv) sv = Some sv1"
        "OnRun st env k (Suc n) (length (env n sv)) sv1 = Some (ended, sv')"
        by (auto simp: bind_eq_Some_conv)
      with one_round_empty [OF Suc.prems(2,3) assms, of n st] Suc.IH [OF 1(2)] show ?thesis by simp
    qed (use Suc.prems in auto)
  qed simp
  assume "OnRun st env k n nmod (fresh_server s) = Some (ended, sv')"
  from * [OF this] show "conns sv' = []" "st_storage sv' = s" by (auto simp: fresh_server_def)
qed

lemma st_server_never_serves_witness:
  "one_round simple_lru_ops [AcceptEvent [Accept True (False, 0, True)]] (fresh_server (SimpleLRU 64)) = None"
proof -
  let ?env = "\<lambda>(n :: nat) (sv :: simple_lru st_server). [AcceptEvent [Accept True (False, 0, True)]]"
  have "epoll_reports sv (?env n sv)" for n sv by (simp add: epoll_reports_def)
  from st_server_never_serves [where env = ?env and st = simple_lru_ops, OF this]
  show ?thesis by (auto simp: fresh_server_def registers_def)
qed

end
