(* ===== verification/Epoll_Workers.thy ===== *)
theory Epoll_Workers
  imports Nonblocking_Connection Transition_Systems
begin

text \<open>
  The multi-threaded epoll server (\<open>mt_nonblocking/ServerImpl.cpp\<close>, \<open>Worker.cpp\<close>): acceptors
  register connections in an epoll set that all workers wait on, each with \<open>EPOLLONESHOT\<close>; a worker
  handles the events of its last wait one by one, rearms living connections and deletes dead ones.
  An accepted connection goes through four steps of its acceptor (the socket, the object, the
  insertion into \<open>conns\<close>, the start and registration) and a deletion through three steps of its
  thread (closing the socket, \<open>delete\<close>, the erasure from \<open>conns\<close>); any other thread may run between
  them, and the allocator may place a new object where one was deleted. A wait and a handled event
  up to the rearming or the deletion are one step each. A second model follows the flag \<open>run\<close> and
  the acceptor threads when the server stops.
\<close>

section \<open>Workers\<close>

text \<open>\<open>w_epoll\<close> is the descriptor, \<open>None\<close> for -1; a failed assertion is \<open>None\<close>.\<close>

record worker =
  isRunning :: bool
  w_epoll :: "nat option"
  w_thread :: bool

definition new_worker :: worker where
  "new_worker = \<lparr>isRunning = False, w_epoll = None, w_thread = False\<rparr>"

definition Worker_Start :: "nat \<Rightarrow> worker \<Rightarrow> worker option" where
  "Worker_Start fd w =
     (if isRunning w then Some w
      else if w_epoll w \<noteq> None then None
      else Some (w\<lparr>isRunning := True, w_epoll := Some fd, w_thread := True\<rparr>))"

definition Worker_Stop :: "worker \<Rightarrow> worker" where
  "Worker_Stop w = w\<lparr>isRunning := False\<rparr>"

definition Worker_Join :: "worker \<Rightarrow> worker option" where
  "Worker_Join w = (if w_thread w then Some (w\<lparr>w_thread := False\<rparr>) else None)"

text \<open>Moving a worker does not move \<open>isRunning\<close>, which keeps its unknown initial value.\<close>

definition Worker_move :: "bool \<Rightarrow> worker \<Rightarrow> worker \<times> worker" where
  "Worker_move garbage other = (\<lparr>isRunning = garbage, w_epoll = w_epoll other, w_thread = w_thread other\<rparr>,
     other\<lparr>w_epoll := None, w_thread := False\<rparr>)"

section \<open>State of the server\<close>

text \<open>
  Where a thread is in the handling of a new connection or in \<open>DeleteConnection\<close>; \<open>Ready\<close> otherwise.
  Objects are named by their addresses, sockets are numbered as they are accepted.
\<close>

datatype thread = Acceptor nat | Worker nat | Main

datatype position = Ready | HasSocket nat | HasObject nat | Inserted nat | Closing nat | Freeing nat | Erasing nat

text \<open>
  \<open>objects\<close> are the allocated connections with their sockets, \<open>conn_set\<close> the member \<open>conns\<close>,
  \<open>epoll_tab\<close> the \<open>data.ptr\<close> and the mask a registered socket has and whether it is enabled, \<open>batches\<close>
  the events every worker has still to handle; an event without connection is that of the event
  descriptor.
\<close>

record 's mt_server =
  objects :: "nat \<rightharpoonup> connection \<times> nat"
  conn_set :: "nat set"
  epoll_tab :: "nat \<rightharpoonup> nat \<times> epoll_flag set \<times> bool"
  batches :: "nat \<Rightarrow> (nat \<times> epoll_flag set) option list"
  pos :: "thread \<Rightarrow> position"
  n_accepted :: nat
  closed_list :: "nat list"
  mt_storage :: 's

definition fresh_mt_server :: "'s \<Rightarrow> 's mt_server" where
  "fresh_mt_server s = \<lparr>objects = Map.empty, conn_set = {}, epoll_tab = Map.empty, batches = (\<lambda>_. []),
     pos = (\<lambda>_. Ready), n_accepted = 0, closed_list = [], mt_storage = s\<rparr>"

definition goto :: "thread \<Rightarrow> position \<Rightarrow> 's mt_server \<Rightarrow> 's mt_server" where
  "goto t p sv = sv\<lparr>pos := (pos sv)(t := p)\<rparr>"

text \<open>A step can go wrong: the object is gone, or the thread never returns from it.\<close>

datatype 's outcome = Dangling | Stuck | Fine 's

text \<open>
  \<open>DeleteConnection\<close>: \<open>close(pc->_socket)\<close>, \<open>delete pc\<close>, and the erasure, for which alone the mutex of
  the server is held. Closing a socket removes it from the epoll set.
\<close>

definition mt_DeleteConnection :: "thread \<Rightarrow> 's mt_server \<Rightarrow> 's mt_server outcome option" where
  "mt_DeleteConnection t sv = (case pos sv t of
       Closing a \<Rightarrow> Some (case objects sv a of None \<Rightarrow> Dangling
         | Some (c, s) \<Rightarrow> Fine (goto t (Freeing a) (sv\<lparr>closed_list := closed_list sv @ [s], epoll_tab := (epoll_tab sv)(s := None)\<rparr>)))
     | Freeing a \<Rightarrow> Some (case objects sv a of None \<Rightarrow> Dangling
         | Some _ \<Rightarrow> Fine (goto t (Erasing a) (sv\<lparr>objects := (objects sv)(a := None)\<rparr>)))
     | Erasing a \<Rightarrow> Some (Fine (goto t Ready (sv\<lparr>conn_set := conn_set sv - {a}\<rparr>)))
     | _ \<Rightarrow> None)"

section \<open>Acceptors\<close>

text \<open>
  The steps of acceptor \<open>n\<close> for a socket: \<open>accept4\<close>; \<open>new Connection\<close>, at an address \<open>a\<close> the allocator
  has free, with \<open>garbage\<close> in its uninitialised members; the insertion into \<open>conns\<close>, for which no lock
  is taken; and \<open>Start\<close> and the registration, whose result is \<open>add_ok\<close>. The \<open>conns\<close> of the C++ program
  is a \<open>std::set\<close>, on which an insertion next to another one or to an erasure is a data race; here
  each of them is one step.
\<close>

definition accept_connection :: "bool \<Rightarrow> nat \<Rightarrow> bool \<times> size_t \<times> bool \<Rightarrow> nat \<Rightarrow> 's mt_server \<Rightarrow> 's mt_server outcome option" where
  "accept_connection add_ok a garbage n sv =
     (let t = Acceptor n in case pos sv t of
       Ready \<Rightarrow> Some (Fine (goto t (HasSocket (n_accepted sv)) (sv\<lparr>n_accepted := Suc (n_accepted sv)\<rparr>)))
     | HasSocket s \<Rightarrow>
         (if objects sv a \<noteq> None then None
          else (case garbage of (alive, r, neg) \<Rightarrow>
            Some (Fine (goto t (HasObject a) (sv\<lparr>objects := (objects sv)(a \<mapsto> (new_connection alive r neg, s))\<rparr>)))))
     | HasObject pc \<Rightarrow> Some (Fine (goto t (Inserted pc) (sv\<lparr>conn_set := insert pc (conn_set sv)\<rparr>)))
     | Inserted pc \<Rightarrow> Some (case objects sv pc of None \<Rightarrow> Dangling
         | Some (c, s) \<Rightarrow> (case mt_Start c of None \<Rightarrow> Stuck
           | Some c \<Rightarrow> (case mt_isAlive c of None \<Rightarrow> Stuck
             | Some living \<Rightarrow>
               (let c = (if living then c\<lparr>c_events := c_events c \<union> {EPOLLONESHOT}\<rparr> else c);
                    sv = sv\<lparr>objects := (objects sv)(pc \<mapsto> (c, s))\<rparr>
                in if \<not> living then Fine (goto t Ready sv)
                   else if add_ok then Fine (goto t Ready (sv\<lparr>epoll_tab := (epoll_tab sv)(s \<mapsto> (pc, c_events c, True))\<rparr>))
                   else (case mt_OnError c of None \<Rightarrow> Stuck
                     | Some c \<Rightarrow> Fine (goto t (Closing pc) (sv\<lparr>objects := (objects sv)(pc \<mapsto> (c, s))\<rparr>)))))))
     | _ \<Rightarrow> None)"

section \<open>The loop of a worker\<close>

text \<open>
  \<open>epoll_wait\<close> of worker \<open>w\<close> reports enabled sockets, each at most once, and disables those that
  were registered with \<open>EPOLLONESHOT\<close>. The worker gets the \<open>data.ptr\<close> of their registrations.
\<close>

definition conn_events :: "(nat \<times> epoll_flag set) option list \<Rightarrow> nat list" where
  "conn_events evs = map fst (map the (filter (\<lambda>e. e \<noteq> None) evs))"

definition disable :: "nat list \<Rightarrow> (nat \<rightharpoonup> nat \<times> epoll_flag set \<times> bool) \<Rightarrow> (nat \<rightharpoonup> nat \<times> epoll_flag set \<times> bool)" where
  "disable socks t = (\<lambda>s. if s \<in> set socks then map_option (\<lambda>(a, m, e). (a, m, e \<and> EPOLLONESHOT \<notin> m)) (t s) else t s)"

definition data_ptr :: "(nat \<rightharpoonup> nat \<times> epoll_flag set \<times> bool) \<Rightarrow> (nat \<times> epoll_flag set) option \<Rightarrow> (nat \<times> epoll_flag set) option" where
  "data_ptr t e = map_option (\<lambda>(s, fl). (fst (the (t s)), fl)) e"

definition wait_events :: "nat \<Rightarrow> (nat \<times> epoll_flag set) option list \<Rightarrow> 's mt_server \<Rightarrow> 's mt_server option" where
  "wait_events w evs sv =
     (if pos sv (Worker w) = Ready \<and> batches sv w = [] \<and> distinct (conn_events evs) \<and>
         (\<forall>s \<in> set (conn_events evs). map_option (snd \<circ> snd) (epoll_tab sv s) = Some True)
      then Some (sv\<lparr>batches := (batches sv)(w := map (data_ptr (epoll_tab sv)) evs),
                    epoll_tab := disable (conn_events evs) (epoll_tab sv)\<rparr>)
      else None)"

definition mt_dispatch :: "'s storage_ops \<Rightarrow> (string list \<Rightarrow> bool) \<Rightarrow> epoll_flag set \<Rightarrow> string list \<Rightarrow> bool \<Rightarrow>
    write_result \<Rightarrow> connection \<Rightarrow> 's \<Rightarrow> (connection \<times> 's) option" where
  "mt_dispatch st running fl reads run w c s =
     (if EPOLLERR \<in> fl \<or> EPOLLHUP \<in> fl then map_option (\<lambda>c. (c, s)) (mt_OnError c)
      else if EPOLLRDHUP \<in> fl then map_option (\<lambda>c. (c, s)) (mt_OnClose c)
      else do {
        (c, s) \<leftarrow> (if EPOLLIN \<in> fl then mt_DoRead st running reads c s else Some (c, s));
        c \<leftarrow> (if EPOLLOUT \<in> fl then mt_DoWrite run w c else Some c);
        Some (c, s) })"

text \<open>The event \<open>fl\<close> of the connection at \<open>a\<close>, up to its rearming or to the beginning of its deletion.\<close>

definition handle_connection :: "'s storage_ops \<Rightarrow> (string list \<Rightarrow> bool) \<Rightarrow> string list \<Rightarrow> bool \<Rightarrow> write_result \<Rightarrow> bool \<Rightarrow>
    nat \<Rightarrow> nat \<Rightarrow> epoll_flag set \<Rightarrow> 's mt_server \<Rightarrow> 's mt_server outcome" where
  "handle_connection st running reads run wr mod_ok w a fl sv =
     (case objects sv a of None \<Rightarrow> Dangling
      | Some (c, s) \<Rightarrow> (case mt_dispatch st running fl reads run wr c (mt_storage sv) of None \<Rightarrow> Stuck
        | Some (c, x) \<Rightarrow> (case mt_isAlive c of None \<Rightarrow> Stuck
          | Some living \<Rightarrow>
            (let sv = sv\<lparr>mt_storage := x\<rparr>;
                 c = (if living then c\<lparr>c_events := c_events c \<union> {EPOLLONESHOT}\<rparr> else c);
                 sv = sv\<lparr>objects := (objects sv)(a \<mapsto> (c, s))\<rparr>
             in if \<not> living then Fine (goto (Worker w) (Closing a) (sv\<lparr>epoll_tab := (epoll_tab sv)(s := None)\<rparr>))
                else if mod_ok then Fine (sv\<lparr>epoll_tab := (epoll_tab sv)(s \<mapsto> (a, c_events c, True))\<rparr>)
                else (case mt_OnError c of None \<Rightarrow> Stuck
                  | Some c \<Rightarrow> Fine (goto (Worker w) (Closing a) (sv\<lparr>objects := (objects sv)(a \<mapsto> (c, s))\<rparr>)))))))"

text \<open>The next event of the batch of worker \<open>w\<close>.\<close>

definition handle_next :: "'s storage_ops \<Rightarrow> (string list \<Rightarrow> bool) \<Rightarrow> string list \<Rightarrow> bool \<Rightarrow> write_result \<Rightarrow> bool \<Rightarrow>
    nat \<Rightarrow> 's mt_server \<Rightarrow> 's mt_server outcome option" where
  "handle_next st running reads run wr mod_ok w sv =
     (if pos sv (Worker w) \<noteq> Ready then None
      else case batches sv w of [] \<Rightarrow> None
      | e # rest \<Rightarrow>
          (let sv = sv\<lparr>batches := (batches sv)(w := rest)\<rparr>
           in Some (case e of None \<Rightarrow> Fine sv
                | Some (a, fl) \<Rightarrow> handle_connection st running reads run wr mod_ok w a fl sv)))"

text \<open>The condition of the outer loop of a worker.\<close>

definition worker_continues :: "worker \<Rightarrow> nat \<Rightarrow> 's mt_server \<Rightarrow> bool" where
  "worker_continues wk nmod sv \<longleftrightarrow> isRunning wk \<or> (nmod > 0 \<and> conn_set sv \<noteq> {})"

section \<open>Stop and Join\<close>

text \<open>\<open>Stop\<close> throws when the wakeup cannot be written; the workers have been told by then.\<close>

definition mt_Stop :: "bool \<Rightarrow> worker list \<Rightarrow> bool \<times> worker list" where
  "mt_Stop written ws = (written, map Worker_Stop ws)"

text \<open>
  \<open>Join\<close> closes the connections that are left: the loop moves on from the element of \<open>conns\<close> it has just
  erased, which is undefined. \<open>as\<close> are the elements in the order of the set.
\<close>

fun join_workers :: "worker list \<Rightarrow> worker list option" where
  "join_workers [] = Some []"
| "join_workers (w # ws) = do { w \<leftarrow> Worker_Join w; ws \<leftarrow> join_workers ws; Some (w # ws) }"

definition delete_step :: "'s mt_server \<Rightarrow> 's mt_server option" where
  "delete_step sv = (case mt_DeleteConnection Main sv of Some (Fine sv) \<Rightarrow> Some sv | _ \<Rightarrow> None)"

fun mt_join_loop :: "nat list \<Rightarrow> 's mt_server \<Rightarrow> 's mt_server option" where
  "mt_join_loop [] sv = Some sv"
| "mt_join_loop (a # as) sv = do {
     (c, s) \<leftarrow> objects sv a;
     c \<leftarrow> mt_OnClose c;
     sv \<leftarrow> delete_step (goto Main (Closing a) (sv\<lparr>objects := (objects sv)(a \<mapsto> (c, s))\<rparr>));
     sv \<leftarrow> delete_step sv;
     sv \<leftarrow> delete_step sv;
     _ \<leftarrow> (if a \<in> conn_set sv then Some () else None);
     mt_join_loop as sv }"

definition mt_Join :: "worker list \<Rightarrow> nat list \<Rightarrow> 's mt_server \<Rightarrow> (worker list \<times> 's mt_server) option" where
  "mt_Join ws as sv = do {
     ws \<leftarrow> join_workers ws;
     sv \<leftarrow> mt_join_loop as sv;
     Some (ws, sv\<lparr>conn_set := {}\<rparr>) }"

lemma join_workers_returns: "join_workers ws \<noteq> None \<longleftrightarrow> (\<forall>w \<in> set ws. w_thread w)"
  by (induction ws) (auto simp: Worker_Join_def split: Option.bind_split)

lemma delete_step_cases:
  "delete_step sv = (case pos sv Main of
       Closing a \<Rightarrow> map_option (\<lambda>(c, s). goto Main (Freeing a)
         (sv\<lparr>closed_list := closed_list sv @ [s], epoll_tab := (epoll_tab sv)(s := None)\<rparr>)) (objects sv a)
     | Freeing a \<Rightarrow> map_option (\<lambda>_. goto Main (Erasing a) (sv\<lparr>objects := (objects sv)(a := None)\<rparr>)) (objects sv a)
     | Erasing a \<Rightarrow> Some (goto Main Ready (sv\<lparr>conn_set := conn_set sv - {a}\<rparr>))
     | _ \<Rightarrow> None)"
  by (auto simp: delete_step_def mt_DeleteConnection_def split: position.split option.split)

text \<open>So \<open>Join\<close> has a defined outcome only when \<open>conns\<close> is empty.\<close>

lemma mt_Join_returns: "mt_Join ws as sv \<noteq> None \<longleftrightarrow> (\<forall>w \<in> set ws. w_thread w) \<and> as = []"
proof (cases "as")
  case Nil
  then show ?thesis using join_workers_returns [of ws] by (cases "join_workers ws") (auto simp: mt_Join_def)
next
  case (Cons a bs)
  then have "mt_join_loop as sv = None"
    by (auto simp: delete_step_cases goto_def split: Option.bind_split)
  then show ?thesis using Cons by (cases "join_workers ws") (simp_all add: mt_Join_def)
qed

section \<open>The server as a transition system\<close>

inductive mt_step :: "'s storage_ops \<Rightarrow> 's mt_server \<Rightarrow> 's mt_server \<Rightarrow> bool" for st where
  step_accept: "accept_connection add_ok a garbage n sv = Some (Fine sv') \<Longrightarrow> mt_step st sv sv'"
| step_delete: "mt_DeleteConnection t sv = Some (Fine sv') \<Longrightarrow> mt_step st sv sv'"
| step_wait: "wait_events w evs sv = Some sv' \<Longrightarrow> mt_step st sv sv'"
| step_handle: "handle_next st running reads run wr mod_ok w sv = Some (Fine sv') \<Longrightarrow> mt_step st sv sv'"

abbreviation mt_reachable :: "'s storage_ops \<Rightarrow> 's \<Rightarrow> 's mt_server \<Rightarrow> bool" where
  "mt_reachable st s \<equiv> reaches (mt_step st) (fresh_mt_server s)"

section \<open>Acceptors and the flag run\<close>

text \<open>
  An acceptor thread: before \<open>run.store(true)\<close>, at the head of its loop, in \<open>epoll_wait\<close>, or
  returned; the flag tells whether its two descriptors are still registered.
\<close>

datatype acceptor_pc = NotStarted | AtCheck bool | Waiting bool | Returned

record acceptors =
  run :: bool
  signalled :: bool
  apc :: "nat \<Rightarrow> acceptor_pc"

definition acceptors_created :: acceptors where
  "acceptors_created = \<lparr>run = False, signalled = False, apc = (\<lambda>_. NotStarted)\<rparr>"

definition set_apc :: "nat \<Rightarrow> acceptor_pc \<Rightarrow> acceptors \<Rightarrow> acceptors" where
  "set_apc a p s = s\<lparr>apc := (apc s)(a := p)\<rparr>"

inductive acc_step :: "acceptors \<Rightarrow> acceptors \<Rightarrow> bool" where
  acc_begin: "apc s a = NotStarted \<Longrightarrow> acc_step s (set_apc a (AtCheck True) (s\<lparr>run := True\<rparr>))"
| acc_check: "apc s a = AtCheck r \<Longrightarrow> acc_step s (set_apc a (if run s then Waiting r else Returned) s)"
| acc_accept: "apc s a = Waiting True \<Longrightarrow> acc_step s (set_apc a (AtCheck True) s)"
| acc_signal: "apc s a = Waiting True \<Longrightarrow> signalled s \<Longrightarrow> acc_step s (set_apc a (AtCheck False) (s\<lparr>run := False\<rparr>))"
| acc_stop: "acc_step s (s\<lparr>signalled := True\<rparr>)"

end
