(* ===== verification/Epoll_Workers_Facts.thy ===== *)
theory Epoll_Workers_Facts
  imports Epoll_Workers Nonblocking_Streams
begin

text \<open>
  Memory safety of the multi-threaded epoll server as an invariant of all its interleavings, the
  race that loses a connection from \<open>conns\<close>, and what the flag \<open>run\<close> does to acceptors that start
  late.
\<close>

section \<open>The mutex of a connection\<close>

lemma with_mu_result: "with_mu f c = Some (c', x) \<Longrightarrow> \<not> c_locked c'"
  by (auto simp: with_mu_def bind_eq_Some_conv split: if_splits)

lemma mt_calls_unlocked:
  "mt_OnError c = Some c' \<Longrightarrow> \<not> c_locked c'" "mt_OnClose c = Some c' \<Longrightarrow> \<not> c_locked c'"
  "mt_DoWrite rn w c = Some c' \<Longrightarrow> \<not> c_locked c'" "mt_DoRead st running reads c s = Some (c', s') \<Longrightarrow> \<not> c_locked c'"
  "mt_Start c = Some c' \<Longrightarrow> \<not> c_locked c'"
  by (auto simp: mt_OnError_def mt_OnClose_def mt_DoWrite_def mt_DoRead_def mt_Start_def dest: with_mu_result)

lemma mt_dispatch_unlocked:
  assumes "\<not> c_locked c" "mt_dispatch st running fl reads rn w c s = Some (c', s')"
  shows "\<not> c_locked c'"
  using assms
  by (auto simp: mt_dispatch_def bind_eq_Some_conv dest: mt_calls_unlocked split: if_splits)

lemma mt_isAlive_unlocked: "\<not> c_locked c \<Longrightarrow> mt_isAlive c = Some (c_alive c)"
  by (simp add: mt_isAlive_def with_mu_def)

lemma mt_OnError_unlocked: "\<not> c_locked c \<Longrightarrow> \<exists>c'. mt_OnError c = Some c'"
  by (simp add: mt_OnError_def with_mu_def)

section \<open>Who owns a connection\<close>

text \<open>
  The objects a thread has in its hands: the one it is creating or deleting, and for a worker those
  of the events it has still to handle.
\<close>

definition at_hand :: "position \<Rightarrow> nat list" where
  "at_hand p = (case p of HasObject a \<Rightarrow> [a] | Inserted a \<Rightarrow> [a] | Closing a \<Rightarrow> [a] | Freeing a \<Rightarrow> [a] | _ \<Rightarrow> [])"

definition held :: "'s mt_server \<Rightarrow> thread \<Rightarrow> nat list" where
  "held sv t = at_hand (pos sv t) @ (case t of Worker w \<Rightarrow> conn_events (batches sv w) | _ \<Rightarrow> [])"

definition socket_of :: "'s mt_server \<Rightarrow> nat \<Rightarrow> nat option" where
  "socket_of sv a = map_option snd (objects sv a)"

text \<open>
  Every object is in the hands of exactly one thread, or of none, and then it is registered and
  enabled; what is registered is an object's socket, and enabled only when nobody holds the object.
\<close>

definition owned :: "(thread \<Rightarrow> nat list) \<Rightarrow> (nat \<rightharpoonup> nat) \<Rightarrow> (nat \<rightharpoonup> nat \<times> epoll_flag set \<times> bool) \<Rightarrow> bool" where
  "owned H S T \<longleftrightarrow>
     (\<forall>t. distinct (H t)) \<and> (\<forall>t u a. a \<in> set (H t) \<longrightarrow> a \<in> set (H u) \<longrightarrow> t = u) \<and>
     (\<forall>t a. a \<in> set (H t) \<longrightarrow> (\<exists>s. S a = Some s)) \<and>
     (\<forall>s a m e. T s = Some (a, m, e) \<longrightarrow> EPOLLONESHOT \<in> m) \<and>
     (\<forall>s a m e. T s = Some (a, m, e) \<longrightarrow> S a = Some s) \<and>
     (\<forall>s a m t. T s = Some (a, m, True) \<longrightarrow> a \<notin> set (H t)) \<and>
     (\<forall>a s. S a = Some s \<longrightarrow> (\<exists>t. a \<in> set (H t)) \<or> (\<exists>m. T s = Some (a, m, True)))"

lemma owned_parts:
  assumes "owned H S T"
  shows "distinct (H t)" "a \<in> set (H t) \<Longrightarrow> a \<in> set (H u) \<Longrightarrow> t = u" "a \<in> set (H t) \<Longrightarrow> \<exists>s. S a = Some s"
    "T s = Some (a, m, e) \<Longrightarrow> EPOLLONESHOT \<in> m" "T s = Some (a, m, e) \<Longrightarrow> S a = Some s"
    "T s = Some (a, m, True) \<Longrightarrow> a \<notin> set (H t)"
    "S a = Some s \<Longrightarrow> (\<exists>t. a \<in> set (H t)) \<or> (\<exists>m. T s = Some (a, m, True))"
  using assms unfolding owned_def by blast+

lemma ownedI:
  assumes "\<And>t. distinct (H t)" "\<And>t u a. a \<in> set (H t) \<Longrightarrow> a \<in> set (H u) \<Longrightarrow> t = u"
    "\<And>t a. a \<in> set (H t) \<Longrightarrow> \<exists>s. S a = Some s" "\<And>s a m e. T s = Some (a, m, e) \<Longrightarrow> EPOLLONESHOT \<in> m"
    "\<And>s a m e. T s = Some (a, m, e) \<Longrightarrow> S a = Some s" "\<And>s a m t. T s = Some (a, m, True) \<Longrightarrow> a \<notin> set (H t)"
    "\<And>a s. S a = Some s \<Longrightarrow> (\<exists>t. a \<in> set (H t)) \<or> (\<exists>m. T s = Some (a, m, True))"
  shows "owned H S T"
  unfolding owned_def by (intro conjI allI impI) (erule (1) assms | erule assms | rule assms)+

text \<open>
  Every socket accepted so far has been closed, once, or is in the hands of an acceptor that has no
  object for it yet, or belongs to exactly one object, whose thread is about to delete it if the
  socket is closed already. A closed socket is not registered.
\<close>

definition sockets_ok :: "(nat \<rightharpoonup> nat) \<Rightarrow> (thread \<Rightarrow> position) \<Rightarrow> nat \<Rightarrow> nat list \<Rightarrow> (nat \<rightharpoonup> nat \<times> epoll_flag set \<times> bool) \<Rightarrow> bool" where
  "sockets_ok S P n closed T \<longleftrightarrow>
     distinct closed \<and> (\<forall>a b s. S a = Some s \<longrightarrow> S b = Some s \<longrightarrow> a = b) \<and>
     (\<forall>s. s < n \<longleftrightarrow> s \<in> set closed \<or> (\<exists>t. P t = HasSocket s) \<or> (\<exists>a. S a = Some s)) \<and>
     (\<forall>t s. P t = HasSocket s \<longrightarrow> s \<notin> set closed) \<and> (\<forall>t s a. P t = HasSocket s \<longrightarrow> S a \<noteq> Some s) \<and>
     (\<forall>t u s. P t = HasSocket s \<longrightarrow> P u = HasSocket s \<longrightarrow> u = t) \<and>
     (\<forall>a s. S a = Some s \<longrightarrow> (s \<in> set closed \<longleftrightarrow> (\<exists>t. P t = Freeing a))) \<and>
     (\<forall>s. s \<in> set closed \<longrightarrow> T s = None)"

text \<open>No connection's mutex is held between the steps, and \<open>conns\<close> has no dangling pointer that no thread is about to erase.\<close>

definition mt_inv :: "'s mt_server \<Rightarrow> bool" where
  "mt_inv sv \<longleftrightarrow> owned (held sv) (socket_of sv) (epoll_tab sv) \<and>
     sockets_ok (socket_of sv) (pos sv) (n_accepted sv) (closed_list sv) (epoll_tab sv) \<and>
     (\<forall>a c s. objects sv a = Some (c, s) \<longrightarrow> \<not> c_locked c) \<and>
     (\<forall>a \<in> conn_set sv. objects sv a \<noteq> None \<or> (\<exists>t. pos sv t = Erasing a))"

lemma conn_events_simps [simp]:
  "conn_events [] = []" "conn_events (None # es) = conn_events es" "conn_events (Some (i, fl) # es) = i # conn_events es"
  by (simp_all add: conn_events_def)

lemma mt_inv_fresh: "mt_inv (fresh_mt_server s)"
  by (simp add: mt_inv_def owned_def sockets_ok_def held_def at_hand_def socket_of_def fresh_mt_server_def split: thread.split)

text \<open>Ownership moves in five ways.\<close>

lemma owned_create:
  assumes "owned H S T" "S a = None"
  shows "owned (H(t := a # H t)) (S(a \<mapsto> s)) T"
proof -
  note o = owned_parts [OF assms(1)]
  have a: "a \<notin> set (H u)" for u using o(3) [of a u] assms(2) by auto
  have nt: "b \<noteq> a" if "T r = Some (b, m, e)" for r b m e using o(5) [OF that] assms(2) by auto
  have mem: "b \<in> set ((H(t := a # H t)) u) \<longleftrightarrow> b = a \<and> u = t \<or> b \<in> set (H u)" for b u by auto
  show ?thesis
  proof (rule ownedI)
    fix u show "distinct ((H(t := a # H t)) u)" using o(1) [of u] a by auto
  next
    fix u v b assume "b \<in> set ((H(t := a # H t)) u)" "b \<in> set ((H(t := a # H t)) v)"
    with a o(2) show "u = v" unfolding mem by blast
  next
    fix u b assume "b \<in> set ((H(t := a # H t)) u)"
    with o(3) show "\<exists>r. (S(a \<mapsto> s)) b = Some r" unfolding mem by (cases "b = a") auto
  next
    fix r b m e assume T: "T r = Some (b, m, e)"
    show "EPOLLONESHOT \<in> m" "(S(a \<mapsto> s)) b = Some r" using o(4,5) [OF T] nt [OF T] by simp_all
  next
    fix r b m u assume T: "T r = Some (b, m, True)"
    show "b \<notin> set ((H(t := a # H t)) u)" unfolding mem using o(6) [OF T] nt [OF T] by blast
  next
    fix b r assume b: "(S(a \<mapsto> s)) b = Some r"
    show "(\<exists>u. b \<in> set ((H(t := a # H t)) u)) \<or> (\<exists>m. T r = Some (b, m, True))"
    proof (cases "b = a")
      case True
      then show ?thesis unfolding mem by blast
    next
      case False
      with b o(7) [of b r] show ?thesis unfolding mem by auto
    qed
  qed
qed

lemma owned_register:
  assumes "owned H S T" "S a = Some s" "H t = a # r" "EPOLLONESHOT \<in> m" "\<And>b. S b = Some s \<Longrightarrow> b = a"
  shows "owned (H(t := r)) S (T(s \<mapsto> (a, m, True)))"
proof -
  note o = owned_parts [OF assms(1)]
  have sub: "set ((H(t := r)) u) \<subseteq> set (H u)" for u using assms(3) by auto
  have a: "a \<notin> set ((H(t := r)) u)" for u using o(1) [of t] o(2) [of a t u] assms(3) by auto
  show ?thesis
  proof (rule ownedI)
    fix u show "distinct ((H(t := r)) u)" using o(1) [of u] assms(3) by auto
  next
    fix u v b assume "b \<in> set ((H(t := r)) u)" "b \<in> set ((H(t := r)) v)"
    with sub o(2) show "u = v" by blast
  next
    fix u b assume "b \<in> set ((H(t := r)) u)" with sub o(3) show "\<exists>s. S b = Some s" by blast
  next
    fix x b n e assume "(T(s \<mapsto> (a, m, True))) x = Some (b, n, e)"
    then show "EPOLLONESHOT \<in> n" "S b = Some x" using o(4) [of x b n e] o(5) [of x b n e] assms(2,4) by (auto split: if_splits)
  next
    fix x b n u assume "(T(s \<mapsto> (a, m, True))) x = Some (b, n, True)"
    then show "b \<notin> set ((H(t := r)) u)" using a [of u] sub [of u] o(6) [of x b n u] by (auto split: if_splits)
  next
    fix b x assume b: "S b = Some x"
    show "(\<exists>u. b \<in> set ((H(t := r)) u)) \<or> (\<exists>n. (T(s \<mapsto> (a, m, True))) x = Some (b, n, True))"
    proof (cases "b = a")
      case True
      with b assms(2) show ?thesis by simp
    next
      case False
      from o(7) [OF b] show ?thesis
      proof
        assume "\<exists>u. b \<in> set (H u)"
        then obtain u where "b \<in> set (H u)" ..
        with False assms(3) have "b \<in> set ((H(t := r)) u)" by auto
        then show ?thesis by blast
      next
        assume "\<exists>n. T x = Some (b, n, True)"
        moreover have "x \<noteq> s" using False assms(5) b by auto
        ultimately show ?thesis by auto
      qed
    qed
  qed
qed

lemma owned_unregister:
  assumes "owned H S T" "S a = Some s" "a \<in> set (H t)" "\<And>b. S b = Some s \<Longrightarrow> b = a"
  shows "owned H S (T(s := None))"
proof -
  note o = owned_parts [OF assms(1)]
  show ?thesis
  proof (rule ownedI)
    fix b x assume b: "S b = Some x"
    show "(\<exists>u. b \<in> set (H u)) \<or> (\<exists>n. (T(s := None)) x = Some (b, n, True))"
    proof (cases "x = s")
      case True
      with assms(4) [of b] b have "b = a" by simp
      with assms(3) show ?thesis by blast
    next
      case False
      with o(7) [OF b] show ?thesis by simp
    qed
  next
    fix x b n e assume "(T(s := None)) x = Some (b, n, e)"
    then have x: "T x = Some (b, n, e)" by (simp split: if_splits)
    show "EPOLLONESHOT \<in> n" "S b = Some x" using o(4,5) [OF x] .
  next
    fix x b n u assume "(T(s := None)) x = Some (b, n, True)"
    then show "b \<notin> set (H u)" by (intro o(6) [of x b n]) (simp split: if_splits)
  qed (rule o(1), erule (1) o(2), erule o(3))
qed

lemma owned_free:
  assumes "owned H S T" "S a = Some s" "T s = None" "H t = a # r"
  shows "owned (H(t := r)) (S(a := None)) T"
proof -
  note o = owned_parts [OF assms(1)]
  have sub: "set ((H(t := r)) u) \<subseteq> set (H u)" for u using assms(4) by auto
  have a: "a \<notin> set ((H(t := r)) u)" for u using o(1) [of t] o(2) [of a t u] assms(4) by auto
  have na: "b \<noteq> a" if "T x = Some (b, n, e)" for x b n e using o(5) [OF that] assms(2,3) that by auto
  show ?thesis
  proof (rule ownedI)
    fix u show "distinct ((H(t := r)) u)" using o(1) [of u] assms(4) by auto
  next
    fix u v b assume "b \<in> set ((H(t := r)) u)" "b \<in> set ((H(t := r)) v)"
    with sub o(2) show "u = v" by blast
  next
    fix u b assume b: "b \<in> set ((H(t := r)) u)"
    with a have "b \<noteq> a" by blast
    with b sub o(3) [of b u] show "\<exists>s. (S(a := None)) b = Some s" by auto
  next
    fix x b n e assume x: "T x = Some (b, n, e)"
    show "EPOLLONESHOT \<in> n" "(S(a := None)) b = Some x" using o(4,5) [OF x] na [OF x] by simp_all
  next
    fix x b n u assume "T x = Some (b, n, True)"
    with o(6) sub show "b \<notin> set ((H(t := r)) u)" by blast
  next
    fix b x assume "(S(a := None)) b = Some x"
    then have b: "S b = Some x" "b \<noteq> a" by (auto split: if_splits)
    from o(7) [OF b(1)] show "(\<exists>u. b \<in> set ((H(t := r)) u)) \<or> (\<exists>n. T x = Some (b, n, True))"
    proof
      assume "\<exists>u. b \<in> set (H u)"
      then obtain u where "b \<in> set (H u)" ..
      with b(2) assms(4) have "b \<in> set ((H(t := r)) u)" by auto
      then show ?thesis by blast
    qed blast
  qed
qed

lemma disable_cases:
  "disable socks T s = Some (a, m, e) \<longleftrightarrow>
     (if s \<in> set socks then \<exists>e'. T s = Some (a, m, e') \<and> (e \<longleftrightarrow> e' \<and> EPOLLONESHOT \<notin> m) else T s = Some (a, m, e))"
  by (auto simp: disable_def)

lemma owned_wait:
  assumes "owned H S T" "H t = []" "distinct socks" "\<And>s. s \<in> set socks \<Longrightarrow> \<exists>a m. T s = Some (a, m, True)"
  shows "owned (H(t := map (\<lambda>s. fst (the (T s))) socks)) S (disable socks T)"
proof -
  note o = owned_parts [OF assms(1)]
  let ?as = "map (\<lambda>s. fst (the (T s))) socks"
  have as: "a \<in> set ?as \<longleftrightarrow> (\<exists>s m. s \<in> set socks \<and> T s = Some (a, m, True))" for a
  proof
    assume "a \<in> set ?as"
    then obtain x where x: "x \<in> set socks" "a = fst (the (T x))" by auto
    from assms(4) [OF x(1)] x(2) obtain m where "T x = Some (a, m, True)" by auto
    with x(1) show "\<exists>s m. s \<in> set socks \<and> T s = Some (a, m, True)" by blast
  next
    assume "\<exists>s m. s \<in> set socks \<and> T s = Some (a, m, True)"
    then obtain x m where "x \<in> set socks" "T x = Some (a, m, True)" by blast
    then show "a \<in> set ?as" by (auto intro: rev_image_eqI)
  qed
  have new: "a \<notin> set (H u)" if "a \<in> set ?as" for a u using that as o(6) by blast
  show ?thesis
  proof (rule ownedI)
    fix u
    have "inj_on (\<lambda>s. fst (the (T s))) (set socks)"
    proof
      fix x y assume xy: "x \<in> set socks" "y \<in> set socks" "fst (the (T x)) = fst (the (T y))"
      from assms(4) [OF xy(1)] assms(4) [OF xy(2)] obtain a m b n where "T x = Some (a, m, True)" "T y = Some (b, n, True)" by blast
      with xy(3) o(5) [of x a m True] o(5) [of y b n True] show "x = y" by simp
    qed
    with o(1) [of u] assms(3) show "distinct ((H(t := ?as)) u)" by (simp add: distinct_map)
  next
    fix u v b assume b: "b \<in> set ((H(t := ?as)) u)" "b \<in> set ((H(t := ?as)) v)"
    show "u = v"
    proof (cases "u = t \<or> v = t")
      case True
      with b new show ?thesis by (metis fun_upd_apply)
    next
      case False
      with b o(2) show ?thesis by (metis fun_upd_apply)
    qed
  next
    fix u b assume b: "b \<in> set ((H(t := ?as)) u)"
    show "\<exists>s. S b = Some s"
    proof (cases "u = t")
      case True
      with b as [of b] o(5) show ?thesis by (metis fun_upd_same)
    next
      case False
      with b o(3) show ?thesis by (metis fun_upd_other)
    qed
  next
    fix x b n e assume "disable socks T x = Some (b, n, e)"
    then obtain e' where "T x = Some (b, n, e')" by (auto simp: disable_cases split: if_splits)
    with o(4,5) show "EPOLLONESHOT \<in> n" "S b = Some x" by blast+
  next
    fix x b n u assume "disable socks T x = Some (b, n, True)"
    then have x: "T x = Some (b, n, True)" "x \<notin> set socks" using o(4) by (auto simp: disable_cases split: if_splits)
    have "b \<notin> set ?as"
    proof
      assume "b \<in> set ?as"
      with as obtain y m where "y \<in> set socks" "T y = Some (b, m, True)" by blast
      with x o(5) [of y b m True] o(5) [OF x(1)] show False by simp
    qed
    with o(6) [OF x(1), of u] show "b \<notin> set ((H(t := ?as)) u)" by simp
  next
    fix b x assume "S b = Some x"
    from o(7) [OF this] show "(\<exists>u. b \<in> set ((H(t := ?as)) u)) \<or> (\<exists>n. disable socks T x = Some (b, n, True))"
    proof
      assume "\<exists>u. b \<in> set (H u)"
      then obtain u where "b \<in> set (H u)" ..
      with assms(2) have "b \<in> set ((H(t := ?as)) u)" by auto
      then show ?thesis by blast
    next
      assume "\<exists>m. T x = Some (b, m, True)"
      then obtain m where m: "T x = Some (b, m, True)" ..
      show ?thesis
      proof (cases "x \<in> set socks")
        case True
        with m as have "b \<in> set ((H(t := ?as)) t)" by (metis fun_upd_same)
        then show ?thesis by blast
      next
        case False
        with m show ?thesis by (simp add: disable_cases)
      qed
    qed
  qed
qed

text \<open>What the steps do to the sockets.\<close>

lemma sockets_parts:
  assumes "sockets_ok S P n closed T"
  shows "distinct closed" "S a = Some s \<Longrightarrow> S b = Some s \<Longrightarrow> a = b"
    "s < n \<longleftrightarrow> s \<in> set closed \<or> (\<exists>t. P t = HasSocket s) \<or> (\<exists>a. S a = Some s)"
    "P t = HasSocket s \<Longrightarrow> s \<notin> set closed" "P t = HasSocket s \<Longrightarrow> S a \<noteq> Some s"
    "P t = HasSocket s \<Longrightarrow> P u = HasSocket s \<Longrightarrow> u = t"
    "S a = Some s \<Longrightarrow> s \<in> set closed \<longleftrightarrow> (\<exists>t. P t = Freeing a)" "s \<in> set closed \<Longrightarrow> T s = None"
  using assms unfolding sockets_ok_def by blast+

lemma sockets_okI:
  assumes "distinct closed" "\<And>a b s. S a = Some s \<Longrightarrow> S b = Some s \<Longrightarrow> a = b"
    "\<And>s. s < n \<longleftrightarrow> s \<in> set closed \<or> (\<exists>t. P t = HasSocket s) \<or> (\<exists>a. S a = Some s)"
    "\<And>t s. P t = HasSocket s \<Longrightarrow> s \<notin> set closed" "\<And>t s a. P t = HasSocket s \<Longrightarrow> S a \<noteq> Some s"
    "\<And>t u s. P t = HasSocket s \<Longrightarrow> P u = HasSocket s \<Longrightarrow> u = t"
    "\<And>a s. S a = Some s \<Longrightarrow> s \<in> set closed \<longleftrightarrow> (\<exists>t. P t = Freeing a)" "\<And>s. s \<in> set closed \<Longrightarrow> T s = None"
  shows "sockets_ok S P n closed T"
  unfolding sockets_ok_def by (intro conjI allI impI) (erule (1) assms | erule assms | rule assms)+

lemma sockets_move:
  assumes "sockets_ok S P n closed T" "\<And>s. P t \<noteq> HasSocket s" "\<And>a. P t \<noteq> Freeing a" "\<And>s. p \<noteq> HasSocket s" "\<And>a. p \<noteq> Freeing a"
  shows "sockets_ok S (P(t := p)) n closed T"
proof -
  have P: "(P(t := p)) u = HasSocket s \<longleftrightarrow> P u = HasSocket s" "(P(t := p)) u = Freeing a \<longleftrightarrow> P u = Freeing a" for u s a
    using assms(2-5) by simp_all
  show ?thesis using assms(1) unfolding sockets_ok_def P .
qed

lemma sockets_table:
  assumes "sockets_ok S P n closed T" "\<And>s. s \<in> set closed \<Longrightarrow> T s = None \<Longrightarrow> T' s = None"
  shows "sockets_ok S P n closed T'"
  using assms unfolding sockets_ok_def by blast

lemma sockets_accept:
  assumes "sockets_ok S P n closed T" "P t = Ready"
  shows "sockets_ok S (P(t := HasSocket n)) (Suc n) closed T"
proof -
  note k = sockets_parts [OF assms(1)]
  have new: "n \<notin> set closed" "S a \<noteq> Some n" "P u \<noteq> HasSocket n" for a u using k(3) [of n] by auto
  have P: "(P(t := HasSocket n)) u = HasSocket s \<longleftrightarrow> u = t \<and> s = n \<or> P u = HasSocket s"
    "(P(t := HasSocket n)) u = Freeing a \<longleftrightarrow> P u = Freeing a" for u s a using assms(2) by auto
  show ?thesis
  proof (rule sockets_okI)
    show "s < Suc n \<longleftrightarrow> s \<in> set closed \<or> (\<exists>u. (P(t := HasSocket n)) u = HasSocket s) \<or> (\<exists>a. S a = Some s)" for s
      unfolding P using k(3) [of s] by (cases "s = n") auto
  next
    fix u s a assume "(P(t := HasSocket n)) u = HasSocket s"
    then consider "u = t" "s = n" | "P u = HasSocket s" unfolding P by blast
    then show "s \<notin> set closed" "S a \<noteq> Some s" using new k(4) [of u s] k(5) [of u s a] by (cases; simp)+
  next
    fix u v s assume "(P(t := HasSocket n)) u = HasSocket s" "(P(t := HasSocket n)) v = HasSocket s"
    then consider "u = t" "v = t" | "s = n" "P u = HasSocket s \<or> P v = HasSocket s" | "P u = HasSocket s" "P v = HasSocket s"
      unfolding P by blast
    then show "v = u" using new(3) k(6) [of u s v] by cases auto
  next
    fix s a assume "S a = Some s"
    from k(7) [OF this] show "s \<in> set closed \<longleftrightarrow> (\<exists>u. (P(t := HasSocket n)) u = Freeing a)" unfolding P .
  qed (rule k(1), erule (1) k(2), erule k(8))
qed

lemma sockets_object:
  assumes "sockets_ok S P n closed T" "P t = HasSocket s" "S a = None" "\<And>u. P u \<noteq> Freeing a"
  shows "sockets_ok (S(a \<mapsto> s)) (P(t := HasObject a)) n closed T"
proof -
  note k = sockets_parts [OF assms(1)]
  have P: "(P(t := HasObject a)) u = HasSocket x \<longleftrightarrow> P u = HasSocket x \<and> u \<noteq> t"
    "(P(t := HasObject a)) u = Freeing b \<longleftrightarrow> P u = Freeing b" for u x b using assms(2) by auto
  have S: "(S(a \<mapsto> s)) b = Some x \<longleftrightarrow> b = a \<and> x = s \<or> S b = Some x" for b x using assms(3) by auto
  have s: "s \<notin> set closed" "S b \<noteq> Some s" for b using k(4,5) [OF assms(2)] by auto
  show ?thesis
  proof (rule sockets_okI, unfold P S)
    fix b c x assume "b = a \<and> x = s \<or> S b = Some x" "c = a \<and> x = s \<or> S c = Some x"
    then show "b = c" using k(2) [of b x c] s(2) by auto
  next
    fix x
    show "x < n \<longleftrightarrow> x \<in> set closed \<or> (\<exists>u. P u = HasSocket x \<and> u \<noteq> t) \<or> (\<exists>b. b = a \<and> x = s \<or> S b = Some x)"
    proof (cases "x = s")
      case True
      with k(3) [of x] assms(2) show ?thesis by blast
    next
      case False
      then have "(\<exists>u. P u = HasSocket x \<and> u \<noteq> t) \<longleftrightarrow> (\<exists>u. P u = HasSocket x)" using assms(2) by auto
      with False k(3) [of x] show ?thesis by simp
    qed
  next
    fix u x assume "P u = HasSocket x \<and> u \<noteq> t"
    with k(4) [of u x] show "x \<notin> set closed" by simp
  next
    fix u x b assume u: "P u = HasSocket x \<and> u \<noteq> t"
    with k(6) [of t s u] assms(2) have "x \<noteq> s" by auto
    with u k(5) [of u x b] show "\<not> (b = a \<and> x = s \<or> S b = Some x)" by simp
  next
    fix u v x assume "P u = HasSocket x \<and> u \<noteq> t" "P v = HasSocket x \<and> v \<noteq> t"
    with k(6) [of u x v] show "v = u" by simp
  next
    fix b x assume b: "b = a \<and> x = s \<or> S b = Some x"
    show "x \<in> set closed \<longleftrightarrow> (\<exists>u. P u = Freeing b)"
    proof (cases "b = a")
      case True
      with b assms(3) have "x = s" by auto
      with True s(1) assms(4) show ?thesis by simp
    next
      case False
      with b k(7) [of b x] show ?thesis by simp
    qed
  qed (rule k(1), erule k(8))
qed

lemma sockets_close:
  assumes "sockets_ok S P n closed T" "P t = Closing a" "S a = Some s" "\<And>u. P u \<noteq> Freeing a"
  shows "sockets_ok S (P(t := Freeing a)) n (closed @ [s]) (T(s := None))"
proof -
  note k = sockets_parts [OF assms(1)]
  have P: "(P(t := Freeing a)) u = HasSocket x \<longleftrightarrow> P u = HasSocket x"
    "(P(t := Freeing a)) u = Freeing b \<longleftrightarrow> u = t \<and> b = a \<or> P u = Freeing b" for u x b using assms(2) by auto
  have C: "x \<in> set (closed @ [s]) \<longleftrightarrow> x = s \<or> x \<in> set closed" for x by auto
  have s: "s \<notin> set closed" using k(7) [OF assms(3)] assms(4) by blast
  have T: "(T(s := None)) x = None" if "x = s \<or> x \<in> set closed" for x using that k(8) by auto
  show ?thesis
  proof (rule sockets_okI, unfold P C)
    show "distinct (closed @ [s])" using k(1) s by simp
  next
    show "S b = Some x \<Longrightarrow> S c = Some x \<Longrightarrow> b = c" for b c x by (rule k(2))
  next
    show "x < n \<longleftrightarrow> (x = s \<or> x \<in> set closed) \<or> (\<exists>u. P u = HasSocket x) \<or> (\<exists>b. S b = Some x)" for x
      using k(3) [of x] assms(3) by auto
  next
    fix u x assume "P u = HasSocket x"
    from k(4) [OF this] k(5) [OF this, of a] assms(3) show "\<not> (x = s \<or> x \<in> set closed)" by auto
  next
    show "P u = HasSocket x \<Longrightarrow> S b \<noteq> Some x" for u x b by (rule k(5))
  next
    show "P u = HasSocket x \<Longrightarrow> P v = HasSocket x \<Longrightarrow> v = u" for u v x by (rule k(6))
  next
    fix b x assume b: "S b = Some x"
    show "(x = s \<or> x \<in> set closed) \<longleftrightarrow> (\<exists>u. u = t \<and> b = a \<or> P u = Freeing b)"
    proof (cases "b = a")
      case True
      with b assms(3) show ?thesis by auto
    next
      case False
      with k(2) [OF assms(3), of b] b have "x \<noteq> s" by auto
      with False k(7) [OF b] show ?thesis by simp
    qed
  next
    show "x = s \<or> x \<in> set closed \<Longrightarrow> (T(s := None)) x = None" for x by (rule T)
  qed
qed

lemma sockets_free:
  assumes "sockets_ok S P n closed T" "P t = Freeing a" "S a = Some s"
  shows "sockets_ok (S(a := None)) (P(t := Erasing a)) n closed T"
proof -
  note k = sockets_parts [OF assms(1)]
  have s: "s \<in> set closed" using k(7) [OF assms(3)] assms(2) by blast
  have P: "(P(t := Erasing a)) u = HasSocket x \<longleftrightarrow> P u = HasSocket x"
    "b \<noteq> a \<Longrightarrow> (P(t := Erasing a)) u = Freeing b \<longleftrightarrow> P u = Freeing b" for u x b using assms(2) by auto
  have S: "(S(a := None)) b = Some x \<longleftrightarrow> b \<noteq> a \<and> S b = Some x" for b x by auto
  show ?thesis
  proof (rule sockets_okI, unfold P(1) S)
    show "b \<noteq> a \<and> S b = Some x \<Longrightarrow> c \<noteq> a \<and> S c = Some x \<Longrightarrow> b = c" for b c x using k(2) [of b x c] by simp
  next
    show "x < n \<longleftrightarrow> x \<in> set closed \<or> (\<exists>u. P u = HasSocket x) \<or> (\<exists>b. b \<noteq> a \<and> S b = Some x)" for x
    proof (cases "x = s")
      case True
      with s k(3) [of x] show ?thesis by simp
    next
      case False
      then have "(\<exists>b. b \<noteq> a \<and> S b = Some x) \<longleftrightarrow> (\<exists>b. S b = Some x)"
        using assms(3) by (metis option.inject)
      with k(3) [of x] show ?thesis by simp
    qed
  next
    show "P u = HasSocket x \<Longrightarrow> \<not> (b \<noteq> a \<and> S b = Some x)" for u x b using k(5) [of u x b] by simp
  next
    show "P u = HasSocket x \<Longrightarrow> P v = HasSocket x \<Longrightarrow> v = u" for u v x by (rule k(6))
  next
    show "b \<noteq> a \<and> S b = Some x \<Longrightarrow> x \<in> set closed \<longleftrightarrow> (\<exists>u. (P(t := Erasing a)) u = Freeing b)" for b x
      using k(7) [of b x] P(2) [of b] by simp
  qed (rule k(1), erule k(4), erule k(8))
qed

section \<open>Every step keeps the invariant\<close>

lemma mt_inv_parts:
  assumes "mt_inv sv"
  shows "owned (held sv) (socket_of sv) (epoll_tab sv)"
    "sockets_ok (socket_of sv) (pos sv) (n_accepted sv) (closed_list sv) (epoll_tab sv)"
    "objects sv a = Some (c, s) \<Longrightarrow> \<not> c_locked c"
    "a \<in> conn_set sv \<Longrightarrow> objects sv a \<noteq> None \<or> (\<exists>t. pos sv t = Erasing a)"
  using assms unfolding mt_inv_def by blast+

lemma mt_invI:
  assumes "owned (held sv) (socket_of sv) (epoll_tab sv)"
    "sockets_ok (socket_of sv) (pos sv) (n_accepted sv) (closed_list sv) (epoll_tab sv)"
    "\<And>a c s. objects sv a = Some (c, s) \<Longrightarrow> \<not> c_locked c"
    "\<And>a. a \<in> conn_set sv \<Longrightarrow> objects sv a \<noteq> None \<or> (\<exists>t. pos sv t = Erasing a)"
  shows "mt_inv sv"
  using assms unfolding mt_inv_def by blast

lemma socket_of_Some: "socket_of sv a = Some s \<longleftrightarrow> (\<exists>c. objects sv a = Some (c, s))"
  by (auto simp: socket_of_def)

lemma held_upd [simp]:
  "held (goto t p sv) = (held sv)(t := at_hand p @ (case t of Worker w \<Rightarrow> conn_events (batches sv w) | _ \<Rightarrow> []))"
  "held (sv\<lparr>objects := x1\<rparr>) = held sv" "held (sv\<lparr>conn_set := x2\<rparr>) = held sv" "held (sv\<lparr>epoll_tab := x3\<rparr>) = held sv"
  "held (sv\<lparr>n_accepted := x4\<rparr>) = held sv" "held (sv\<lparr>closed_list := x5\<rparr>) = held sv" "held (sv\<lparr>mt_storage := x6\<rparr>) = held sv"
  by (auto simp: fun_eq_iff held_def goto_def split: thread.split)

lemma held_batches [simp]:
  "held (sv\<lparr>batches := (batches sv)(w := es)\<rparr>) = (held sv)(Worker w := at_hand (pos sv (Worker w)) @ conn_events es)"
  by (auto simp: fun_eq_iff held_def split: thread.split)

lemma socket_of_upd [simp]:
  "socket_of (goto t p sv) = socket_of sv" "socket_of (sv\<lparr>conn_set := x2\<rparr>) = socket_of sv"
  "socket_of (sv\<lparr>epoll_tab := x3\<rparr>) = socket_of sv" "socket_of (sv\<lparr>n_accepted := x4\<rparr>) = socket_of sv"
  "socket_of (sv\<lparr>closed_list := x5\<rparr>) = socket_of sv" "socket_of (sv\<lparr>mt_storage := x6\<rparr>) = socket_of sv"
  "socket_of (sv\<lparr>batches := x7\<rparr>) = socket_of sv"
  "socket_of (sv\<lparr>objects := (objects sv)(a \<mapsto> (c, s))\<rparr>) = (socket_of sv)(a \<mapsto> s)"
  "socket_of (sv\<lparr>objects := (objects sv)(a := None)\<rparr>) = (socket_of sv)(a := None)"
  by (auto simp: fun_eq_iff socket_of_def goto_def)

lemma goto_fields [simp]:
  "objects (goto t p sv) = objects sv" "conn_set (goto t p sv) = conn_set sv" "epoll_tab (goto t p sv) = epoll_tab sv"
  "batches (goto t p sv) = batches sv" "pos (goto t p sv) = (pos sv)(t := p)" "n_accepted (goto t p sv) = n_accepted sv"
  "closed_list (goto t p sv) = closed_list sv" "mt_storage (goto t p sv) = mt_storage sv"
  by (simp_all add: goto_def)

lemma erasing_other:
  assumes "x \<or> (\<exists>u. P u = Erasing b)" "P t \<noteq> Erasing b"
  shows "x \<or> (\<exists>u. (P(t := p)) u = Erasing b)"
proof (cases x)
  case False
  with assms(1) obtain u where "P u = Erasing b" by blast
  with assms(2) have "(P(t := p)) u = Erasing b" by auto
  then show ?thesis by blast
qed simp

text \<open>What the invariant says of an object a thread has in its hands.\<close>

lemma held_object:
  assumes "mt_inv sv" "a \<in> set (held sv t)"
  shows "\<exists>c s. objects sv a = Some (c, s) \<and> \<not> c_locked c \<and> (\<forall>b. socket_of sv b = Some s \<longrightarrow> b = a) \<and>
    (\<forall>u. u \<noteq> t \<longrightarrow> pos sv u \<noteq> Freeing a) \<and> (pos sv t \<noteq> Freeing a \<longrightarrow> s \<notin> set (closed_list sv))"
proof -
  note inv = mt_inv_parts [OF assms(1)]
  note o = owned_parts [OF inv(1)] and k = sockets_parts [OF inv(2)]
  from o(3) [OF assms(2)] obtain c s where c: "objects sv a = Some (c, s)" "socket_of sv a = Some s"
    by (auto simp: socket_of_Some)
  have other: "pos sv u \<noteq> Freeing a" if "u \<noteq> t" for u
  proof
    assume "pos sv u = Freeing a"
    then have "a \<in> set (held sv u)" by (simp add: held_def at_hand_def)
    with o(2) [OF assms(2)] that show False by blast
  qed
  moreover have "s \<notin> set (closed_list sv)" if "pos sv t \<noteq> Freeing a"
    using k(7) [OF c(2)] other that by metis
  moreover have "b = a" if "socket_of sv b = Some s" for b by (rule k(2) [OF that c(2)])
  ultimately show ?thesis using c(1) inv(3) by blast
qed

lemma mt_inv_delete:
  assumes "mt_inv sv" "mt_DeleteConnection t sv = Some r"
  shows "\<exists>sv'. r = Fine sv' \<and> mt_inv sv'"
proof -
  note inv = mt_inv_parts [OF assms(1)]
  let ?b = "case t of Worker w \<Rightarrow> conn_events (batches sv w) | _ \<Rightarrow> []"
  have H: "held sv t = at_hand (pos sv t) @ ?b" by (simp add: held_def)
  from assms(2) consider a where "pos sv t = Closing a" | a where "pos sv t = Freeing a" | a where "pos sv t = Erasing a"
    by (cases "pos sv t") (simp_all add: mt_DeleteConnection_def)
  then show ?thesis
  proof cases
    case (1 a)
    then have a: "a \<in> set (held sv t)" by (simp add: H at_hand_def)
    from 1 have nf: "pos sv t \<noteq> Freeing b" for b by simp
    from held_object [OF assms(1) a] nf obtain c s where c: "objects sv a = Some (c, s)" "\<And>b. socket_of sv b = Some s \<Longrightarrow> b = a"
        "\<And>u. u \<noteq> t \<Longrightarrow> pos sv u \<noteq> Freeing a" "s \<notin> set (closed_list sv)" by blast
    have s: "socket_of sv a = Some s" by (simp add: socket_of_def c(1))
    let ?sv = "goto t (Freeing a) (sv\<lparr>closed_list := closed_list sv @ [s], epoll_tab := (epoll_tab sv)(s := None)\<rparr>)"
    have r: "r = Fine ?sv" using assms(2) 1 c(1) by (simp add: mt_DeleteConnection_def)
    have "held ?sv = held sv" using 1 by (cases t) (simp_all add: fun_eq_iff held_def at_hand_def)
    moreover have "owned (held sv) (socket_of sv) ((epoll_tab sv)(s := None))"
      by (rule owned_unregister [OF inv(1) s a c(2)])
    moreover have "pos sv u \<noteq> Freeing a" for u using c(3) nf by (cases "u = t") auto
    from sockets_close [OF inv(2) 1 s this]
    have "sockets_ok (socket_of sv) ((pos sv)(t := Freeing a)) (n_accepted sv) (closed_list sv @ [s]) ((epoll_tab sv)(s := None))" .
    moreover have "objects sv b \<noteq> None \<or> (\<exists>u. ((pos sv)(t := Freeing a)) u = Erasing b)" if "b \<in> conn_set sv" for b
      by (rule erasing_other [OF inv(4) [OF that]]) (simp add: 1)
    ultimately have "mt_inv ?sv" using inv(3) by (intro mt_invI) simp_all
    with r show ?thesis by blast
  next
    case (2 a)
    then have a: "held sv t = a # ?b" by (simp add: H at_hand_def)
    then have "a \<in> set (held sv t)" by simp
    from held_object [OF assms(1) this] obtain c s where c: "objects sv a = Some (c, s)" by blast
    then have s: "socket_of sv a = Some s" by (simp add: socket_of_def)
    let ?sv = "goto t (Erasing a) (sv\<lparr>objects := (objects sv)(a := None)\<rparr>)"
    have r: "r = Fine ?sv" using assms(2) 2 c by (simp add: mt_DeleteConnection_def)
    have "s \<in> set (closed_list sv)" using sockets_parts(7) [OF inv(2) s] 2 by blast
    then have T: "epoll_tab sv s = None" by (rule sockets_parts(8) [OF inv(2)])
    have "held ?sv = (held sv)(t := ?b)" by (cases t) (simp_all add: at_hand_def)
    moreover note owned_free [OF inv(1) s T a] sockets_free [OF inv(2) 2 s]
    moreover have "((objects sv)(a := None)) b \<noteq> None \<or> (\<exists>u. ((pos sv)(t := Erasing a)) u = Erasing b)" if "b \<in> conn_set sv" for b
    proof (cases "b = a")
      case False
      with erasing_other [OF inv(4) [OF that], of t "Erasing a"] 2 show ?thesis by simp
    next
      case True
      then have "((pos sv)(t := Erasing a)) t = Erasing b" by simp
      then show ?thesis by blast
    qed
    ultimately have "mt_inv ?sv" using inv(3) by (intro mt_invI) (simp_all split: if_splits)
    with r show ?thesis by blast
  next
    case (3 a)
    let ?sv = "goto t Ready (sv\<lparr>conn_set := conn_set sv - {a}\<rparr>)"
    have r: "r = Fine ?sv" using assms(2) 3 by (simp add: mt_DeleteConnection_def)
    have "held ?sv = held sv" using 3 by (cases t) (simp_all add: fun_eq_iff held_def at_hand_def)
    moreover have "sockets_ok (socket_of sv) ((pos sv)(t := Ready)) (n_accepted sv) (closed_list sv) (epoll_tab sv)"
      by (rule sockets_move [OF inv(2)]) (simp_all add: 3)
    moreover have "objects sv b \<noteq> None \<or> (\<exists>u. ((pos sv)(t := Ready)) u = Erasing b)" if "b \<in> conn_set sv" "b \<noteq> a" for b
      by (rule erasing_other [OF inv(4) [OF that(1)]]) (use that(2) 3 in simp)
    ultimately have "mt_inv ?sv" using inv(1,3) by (intro mt_invI) simp_all
    with r show ?thesis by blast
  qed
qed

text \<open>Moving on with nothing new in hand.\<close>

lemma mt_inv_goto:
  assumes "mt_inv sv" "at_hand p = at_hand (pos sv t)" "\<And>s. pos sv t \<noteq> HasSocket s" "\<And>a. pos sv t \<noteq> Freeing a"
    "\<And>a. pos sv t \<noteq> Erasing a" "\<And>s. p \<noteq> HasSocket s" "\<And>a. p \<noteq> Freeing a"
  shows "mt_inv (goto t p sv)"
proof -
  note inv = mt_inv_parts [OF assms(1)]
  have "held (goto t p sv) = held sv" using assms(2) by (cases t) (simp_all add: fun_eq_iff held_def)
  moreover have "sockets_ok (socket_of sv) ((pos sv)(t := p)) (n_accepted sv) (closed_list sv) (epoll_tab sv)"
    by (rule sockets_move [OF inv(2) assms(3,4,6,7)])
  moreover have "objects sv b \<noteq> None \<or> (\<exists>u. ((pos sv)(t := p)) u = Erasing b)" if "b \<in> conn_set sv" for b
    by (rule erasing_other [OF inv(4) [OF that] assms(5)])
  ultimately show ?thesis using inv(1,3) by (intro mt_invI) simp_all
qed

text \<open>Writing to an object one holds, and to the storage.\<close>

lemma mt_inv_write:
  assumes "mt_inv sv" "objects sv a = Some (c, s)" "\<not> c_locked c'"
  shows "mt_inv (sv\<lparr>objects := (objects sv)(a \<mapsto> (c', s))\<rparr>)"
proof -
  note inv = mt_inv_parts [OF assms(1)]
  have "(socket_of sv)(a \<mapsto> s) = socket_of sv" using assms(2) by (auto simp: fun_eq_iff socket_of_def)
  then show ?thesis
    using inv assms(3) by (intro mt_invI) (simp_all split: if_splits)
qed

lemma mt_inv_storage: "mt_inv (sv\<lparr>mt_storage := x\<rparr>) = mt_inv sv"
  by (simp add: mt_inv_def)

text \<open>Registering an object and letting it go; taking its registration away.\<close>

lemma mt_inv_register:
  assumes "mt_inv sv" "objects sv a = Some (c, s)" "held sv t = a # r" "pos sv t \<noteq> Freeing a" "EPOLLONESHOT \<in> m"
    "held sv' = (held sv)(t := r)" "socket_of sv' = socket_of sv" "pos sv' = (pos sv)(t := p)" "p = Ready"
    "\<And>s. pos sv t \<noteq> HasSocket s" "\<And>a. pos sv t \<noteq> Freeing a" "\<And>a. pos sv t \<noteq> Erasing a"
    "n_accepted sv' = n_accepted sv" "closed_list sv' = closed_list sv" "epoll_tab sv' = (epoll_tab sv)(s \<mapsto> (a, m, True))"
    "\<And>a c s. objects sv' a = Some (c, s) \<Longrightarrow> \<not> c_locked c" "dom (objects sv') = dom (objects sv)" "conn_set sv' = conn_set sv"
  shows "mt_inv sv'"
proof -
  note inv = mt_inv_parts [OF assms(1)]
  from assms(3) have "a \<in> set (held sv t)" by simp
  from held_object [OF assms(1) this] assms(2,4) have s: "\<And>b. socket_of sv b = Some s \<Longrightarrow> b = a" "s \<notin> set (closed_list sv)" by auto
  have a: "socket_of sv a = Some s" by (simp add: socket_of_def assms(2))
  have "sockets_ok (socket_of sv) ((pos sv)(t := p)) (n_accepted sv) (closed_list sv) ((epoll_tab sv)(s \<mapsto> (a, m, True)))"
    by (rule sockets_table [OF sockets_move [OF inv(2) assms(10,11)]]) (use s(2) assms(9) in auto)
  moreover note owned_register [OF inv(1) a assms(3,5) s(1)]
  moreover have "objects sv' b \<noteq> None \<or> (\<exists>u. pos sv' u = Erasing b)" if "b \<in> conn_set sv'" for b
  proof -
    from that have "b \<in> conn_set sv" by (simp add: assms(18))
    from erasing_other [OF inv(4) [OF this] assms(12), of p] assms(8,17) show ?thesis by (auto simp: domIff set_eq_iff)
  qed
  ultimately show ?thesis using assms(6-8,13-16) by (intro mt_invI) simp_all
qed

lemma mt_inv_unregister:
  assumes "mt_inv sv" "objects sv a = Some (c, s)" "a \<in> set (held sv t)"
  shows "mt_inv (sv\<lparr>epoll_tab := (epoll_tab sv)(s := None)\<rparr>)"
proof -
  note inv = mt_inv_parts [OF assms(1)]
  have a: "socket_of sv a = Some s" by (simp add: socket_of_def assms(2))
  from held_object [OF assms(1,3)] assms(2) have s: "\<And>b. socket_of sv b = Some s \<Longrightarrow> b = a" by auto
  have "sockets_ok (socket_of sv) (pos sv) (n_accepted sv) (closed_list sv) ((epoll_tab sv)(s := None))"
    by (rule sockets_table [OF inv(2)]) simp
  with owned_unregister [OF inv(1) a assms(3) s] inv(3,4) show ?thesis by (intro mt_invI) simp_all
qed

lemma mt_inv_accept:
  assumes "mt_inv sv" "accept_connection add_ok a g n sv = Some r"
  shows "\<exists>sv'. r = Fine sv' \<and> mt_inv sv'"
proof -
  note inv = mt_inv_parts [OF assms(1)]
  let ?t = "Acceptor n"
  have H: "held sv ?t = at_hand (pos sv ?t)" by (simp add: held_def)
  from assms(2) consider "pos sv ?t = Ready" | s where "pos sv ?t = HasSocket s" "objects sv a = None"
    | b where "pos sv ?t = HasObject b" | b where "pos sv ?t = Inserted b"
    by (cases "pos sv ?t"; cases "objects sv a = None") (simp_all add: accept_connection_def Let_def del: not_None_eq)
  then show ?thesis
  proof cases
    case 1
    let ?sv = "goto ?t (HasSocket (n_accepted sv)) (sv\<lparr>n_accepted := Suc (n_accepted sv)\<rparr>)"
    have r: "r = Fine ?sv" using assms(2) 1 by (simp add: accept_connection_def)
    have "held ?sv = held sv" using H 1 by (simp add: fun_eq_iff at_hand_def)
    moreover note sockets_accept [OF inv(2) 1]
    moreover have "objects sv b \<noteq> None \<or> (\<exists>u. ((pos sv)(?t := HasSocket (n_accepted sv))) u = Erasing b)" if "b \<in> conn_set sv" for b
      by (rule erasing_other [OF inv(4) [OF that]]) (simp add: 1)
    ultimately have "mt_inv ?sv" using inv(1,3) by (intro mt_invI) simp_all
    with r show ?thesis by blast
  next
    case (2 s)
    obtain al x neg where g: "g = (al, x, neg)" by (cases g) auto
    let ?c = "new_connection al x neg"
    let ?sv = "goto ?t (HasObject a) (sv\<lparr>objects := (objects sv)(a \<mapsto> (?c, s))\<rparr>)"
    have r: "r = Fine ?sv" using assms(2) 2 by (simp add: accept_connection_def g)
    have S: "socket_of sv a = None" by (simp add: socket_of_def 2(2))
    have "pos sv u \<noteq> Freeing a" for u
    proof
      assume "pos sv u = Freeing a"
      then have "a \<in> set (held sv u)" by (simp add: held_def at_hand_def)
      with owned_parts(3) [OF inv(1)] S show False by fastforce
    qed
    from sockets_object [OF inv(2) 2(1) S this]
    have "sockets_ok ((socket_of sv)(a \<mapsto> s)) ((pos sv)(?t := HasObject a)) (n_accepted sv) (closed_list sv) (epoll_tab sv)" .
    moreover have "held ?sv = (held sv)(?t := a # held sv ?t)" using H 2(1) by (simp add: at_hand_def)
    moreover note owned_create [OF inv(1) S]
    moreover have "((objects sv)(a \<mapsto> (?c, s))) b \<noteq> None \<or> (\<exists>u. ((pos sv)(?t := HasObject a)) u = Erasing b)"
      if "b \<in> conn_set sv" for b
      using erasing_other [OF inv(4) [OF that], of ?t "HasObject a"] 2(1) by auto
    moreover have "\<not> c_locked ?c" by (simp add: new_connection_def)
    ultimately have "mt_inv ?sv" using inv(3) by (intro mt_invI) (simp_all split: if_splits)
    with r show ?thesis by blast
  next
    case (3 b)
    let ?sv = "goto ?t (Inserted b) (sv\<lparr>conn_set := insert b (conn_set sv)\<rparr>)"
    have r: "r = Fine ?sv" using assms(2) 3 by (simp add: accept_connection_def)
    have "b \<in> set (held sv ?t)" by (simp add: H 3 at_hand_def)
    from held_object [OF assms(1) this] have b: "objects sv b \<noteq> None" by auto
    have "mt_inv (goto ?t (Inserted b) sv)" by (rule mt_inv_goto [OF assms(1)]) (simp_all add: 3 at_hand_def)
    note go = mt_inv_parts [OF this]
    have "mt_inv ?sv"
    proof (rule mt_invI)
      fix x assume "x \<in> conn_set ?sv"
      then show "objects ?sv x \<noteq> None \<or> (\<exists>t. pos ?sv t = Erasing x)" using b go(4) [of x] by (cases "x = b") simp_all
    qed (use go(1,2,3) in simp_all)
    with r show ?thesis by blast
  next
    case (4 b)
    have a: "held sv ?t = [b]" by (simp add: H 4 at_hand_def)
    then have "b \<in> set (held sv ?t)" by simp
    from held_object [OF assms(1) this] obtain c s where c: "objects sv b = Some (c, s)" "\<not> c_locked c" by blast
    let ?c = "Start {EPOLLONESHOT} c" let ?d = "OnError ?c"
    have c': "EPOLLONESHOT \<in> c_events ?c" "\<not> c_locked ?c" "c_alive ?c" "\<not> c_locked ?d"
      using c(2) by (simp_all add: Start_def MASK_EPOLLRD_def OnError_def)
    have start: "mt_Start c = Some ?c" "mt_isAlive ?c = Some True" "mt_OnError ?c = Some ?d"
      using c(2) by (simp_all add: mt_Start_def mt_isAlive_def mt_OnError_def with_mu_def Start_def OnError_def)
    have same: "?c\<lparr>c_events := insert EPOLLONESHOT (c_events ?c)\<rparr> = ?c" using c'(1) by (simp add: insert_absorb)
    show ?thesis
    proof (cases add_ok)
      case True
      let ?sv = "goto ?t Ready (sv\<lparr>objects := (objects sv)(b \<mapsto> (?c, s)), epoll_tab := (epoll_tab sv)(s \<mapsto> (b, c_events ?c, True))\<rparr>)"
      have r: "r = Fine ?sv" using assms(2) 4 c start True same by (simp add: accept_connection_def Let_def)
      have "mt_inv ?sv"
      proof (rule mt_inv_register [OF assms(1) c(1) a, of "c_events ?c" ?sv Ready])
        show "socket_of ?sv = socket_of sv" using c(1) by (auto simp: fun_eq_iff socket_of_def)
      qed (use 4 c c' inv(3) in \<open>auto simp: at_hand_def split: if_splits\<close>)
      with r show ?thesis by blast
    next
      case False
      let ?sv = "goto ?t (Closing b) (sv\<lparr>objects := (objects sv)(b \<mapsto> (?d, s))\<rparr>)"
      have r: "r = Fine ?sv" using assms(2) 4 c start False same by (simp add: accept_connection_def Let_def)
      have "mt_inv ?sv"
        by (rule mt_inv_goto [OF mt_inv_write [OF assms(1) c(1) c'(4)]]) (simp_all add: 4 at_hand_def)
      with r show ?thesis by blast
    qed
  qed
qed

lemma conn_events_data_ptr: "conn_events (map (data_ptr T) evs) = map (\<lambda>s. fst (the (T s))) (conn_events evs)"
proof (induction evs)
  case (Cons e evs)
  then show ?case by (cases e) (auto simp: conn_events_def data_ptr_def)
qed (simp add: conn_events_def)

lemma mt_inv_wait:
  assumes "mt_inv sv" "wait_events w evs sv = Some sv'"
  shows "mt_inv sv'"
proof -
  note inv = mt_inv_parts [OF assms(1)]
  let ?socks = "conn_events evs"
  from assms(2) have w: "pos sv (Worker w) = Ready" "batches sv w = []" "distinct ?socks"
      "\<forall>s \<in> set ?socks. map_option (snd \<circ> snd) (epoll_tab sv s) = Some True"
    and sv': "sv' = sv\<lparr>batches := (batches sv)(w := map (data_ptr (epoll_tab sv)) evs),
                    epoll_tab := disable ?socks (epoll_tab sv)\<rparr>"
    by (simp_all add: wait_events_def split: if_splits)
  have H: "held sv (Worker w) = []" using w(1,2) by (simp add: held_def at_hand_def)
  have armed: "\<exists>a m. epoll_tab sv s = Some (a, m, True)" if "s \<in> set ?socks" for s
    using w(4) that by fastforce
  have "held sv' = (held sv)(Worker w := map (\<lambda>s. fst (the (epoll_tab sv s))) ?socks)"
    using w(1) by (simp add: sv' at_hand_def conn_events_data_ptr)
  moreover note owned_wait [OF inv(1) H w(3) armed]
  moreover have "sockets_ok (socket_of sv) (pos sv) (n_accepted sv) (closed_list sv) (disable ?socks (epoll_tab sv))"
    by (rule sockets_table [OF inv(2)]) (simp add: disable_def)
  ultimately show ?thesis using inv(3,4) by (intro mt_invI) (simp_all add: sv')
qed

lemma mt_inv_handle:
  assumes "mt_inv sv" "handle_next st running reads rn wr mod_ok w sv = Some r"
  shows "r \<noteq> Dangling \<and> (\<forall>sv'. r = Fine sv' \<longrightarrow> mt_inv sv')"
proof -
  note inv = mt_inv_parts [OF assms(1)]
  let ?t = "Worker w"
  from assms(2) obtain e rest where w: "pos sv ?t = Ready" and b: "batches sv w = e # rest"
    by (auto simp: handle_next_def split: list.splits if_splits)
  let ?sv = "sv\<lparr>batches := (batches sv)(w := rest)\<rparr>"
  show ?thesis
  proof (cases e)
    case None
    then have "held ?sv = held sv" using w b by (simp add: fun_eq_iff held_def at_hand_def)
    then have "mt_inv ?sv" using inv by (intro mt_invI) simp_all
    with assms(2) w b None show ?thesis by (auto simp: handle_next_def)
  next
    case (Some p)
    then obtain a fl where e: "e = Some (a, fl)" by (cases p) auto
    have H: "held sv ?t = a # conn_events rest" using w b e by (simp add: held_def at_hand_def)
    then have a: "a \<in> set (held sv ?t)" by simp
    from held_object [OF assms(1) a] obtain c s where c: "objects sv a = Some (c, s)" "\<not> c_locked c" by blast
    from assms(2) w b e have r: "r = handle_connection st running reads rn wr mod_ok w a fl ?sv" by (simp add: handle_next_def)
    show ?thesis
    proof (cases "mt_dispatch st running fl reads rn wr c (mt_storage sv)")
      case None
      with r c show ?thesis by (auto simp: handle_connection_def)
    next
      case (Some y)
      then obtain c1 x where d: "mt_dispatch st running fl reads rn wr c (mt_storage sv) = Some (c1, x)" by (cases y) auto
      have c1: "\<not> c_locked c1" by (rule mt_dispatch_unlocked [OF c(2) d])
      let ?c2 = "c1\<lparr>c_events := insert EPOLLONESHOT (c_events c1)\<rparr>"
      have c2: "\<not> c_locked ?c2" using c1 by simp
      \<comment> \<open>The event goes from the batch into the hands of the worker.\<close>
      have closing: "mt_inv (goto ?t (Closing a) (sv\<lparr>batches := (batches sv)(w := rest), mt_storage := x, objects := (objects sv)(a \<mapsto> (d, s))\<rparr>))"
        if "\<not> c_locked d" for d
      proof -
        let ?new = "goto ?t (Closing a) (sv\<lparr>batches := (batches sv)(w := rest), mt_storage := x, objects := (objects sv)(a \<mapsto> (d, s))\<rparr>)"
        note wr = mt_inv_parts [OF mt_inv_write [OF assms(1) c(1) that]]
        have "held ?new = held sv" using w b e by (auto simp: fun_eq_iff held_def at_hand_def split: thread.split)
        moreover have "sockets_ok (socket_of sv) ((pos sv)(?t := Closing a)) (n_accepted sv) (closed_list sv) (epoll_tab sv)"
          by (rule sockets_move [OF inv(2)]) (simp_all add: w)
        moreover have "socket_of ?new = socket_of sv" using c(1) by (auto simp: fun_eq_iff socket_of_def)
        moreover have "objects sv b \<noteq> None \<or> (\<exists>u. ((pos sv)(?t := Closing a)) u = Erasing b)" if "b \<in> conn_set sv" for b
          by (rule erasing_other [OF inv(4) [OF that]]) (simp add: w)
        ultimately show ?thesis using inv(1) wr(3) c(1) by (intro mt_invI) (simp_all split: if_splits)
      qed
      have "a \<in> set (held (goto ?t (Closing a) (sv\<lparr>batches := (batches sv)(w := rest), mt_storage := x, objects := (objects sv)(a \<mapsto> (c1, s))\<rparr>)) ?t)"
        by (simp add: at_hand_def)
      from mt_inv_unregister [OF closing [OF c1] _ this, of c1 s]
      moreover have "(goto ?t (Closing a) (sv\<lparr>batches := (batches sv)(w := rest), mt_storage := x, objects := (objects sv)(a \<mapsto> (c1, s))\<rparr>))
          \<lparr>epoll_tab := (epoll_tab sv)(s := None)\<rparr> =
        goto ?t (Closing a) (sv\<lparr>batches := (batches sv)(w := rest), mt_storage := x, objects := (objects sv)(a \<mapsto> (c1, s)),
          epoll_tab := (epoll_tab sv)(s := None)\<rparr>)" by (cases sv) (simp add: goto_def)
      ultimately have dead: "mt_inv (goto ?t (Closing a) (sv\<lparr>batches := (batches sv)(w := rest), mt_storage := x,
          objects := (objects sv)(a \<mapsto> (c1, s)), epoll_tab := (epoll_tab sv)(s := None)\<rparr>))" by simp
      have rearm: "mt_inv (sv\<lparr>batches := (batches sv)(w := rest), mt_storage := x, objects := (objects sv)(a \<mapsto> (?c2, s)),
          epoll_tab := (epoll_tab sv)(s \<mapsto> (a, c_events ?c2, True))\<rparr>)" (is "mt_inv ?new")
      proof (rule mt_inv_register [OF assms(1) c(1) H, of "c_events ?c2" ?new Ready])
        show "socket_of ?new = socket_of sv" using c(1) by (auto simp: fun_eq_iff socket_of_def)
        show "held ?new = (held sv)(?t := conn_events rest)"
          using w by (auto simp: fun_eq_iff held_def at_hand_def split: thread.split)
      qed (use w c c2 inv(3) in \<open>auto simp: at_hand_def split: if_splits\<close>)
      have err: "mt_OnError ?c2 = Some (OnError ?c2)" "\<not> c_locked (OnError ?c2)"
        using c2 by (simp_all add: mt_OnError_def with_mu_def OnError_def)
      from r c d closing [OF err(2)] dead rearm err(1) show ?thesis
        by (auto simp: handle_connection_def mt_isAlive_unlocked [OF c1] Let_def goto_def)
    qed
  qed
qed

interpretation epoll: step_invariant "mt_step st" mt_inv for st
proof unfold_locales
  fix s t :: "'a mt_server" assume "mt_step st s t" "mt_inv s"
  then show "mt_inv t" by cases (auto dest: mt_inv_accept mt_inv_delete mt_inv_wait mt_inv_handle)
qed

lemma mt_reachable_inv: "mt_reachable st s sv \<Longrightarrow> mt_inv sv"
  by (erule epoll.along) (rule mt_inv_fresh)

text \<open>
  C12. In every interleaving of the steps of acceptors and workers, with deletions in their three steps and
  addresses used again once they are free: no thread ever touches a connection that has been
  deleted, or deletes one twice; no two threads have the same connection in their hands, be it for
  creating, handling or deleting it; a connection that no thread has in hand is registered and
  enabled, so that its next event will be handled; every accepted socket is closed, at most once, or
  in the hands of an acceptor, or belongs to exactly one connection object, and closed ones only to
  an object about to be deleted; and \<open>conns\<close> has no dangling pointer but those some thread is about
  to erase. It may well lack a living connection: \<open>conns_loses_connection\<close>.
\<close>

theorem mt_connections_safe:
  assumes "mt_reachable st s sv"
  shows "handle_next st running reads rn wr mod_ok w sv \<noteq> Some Dangling \<and>
    accept_connection add_ok a garbage n sv \<noteq> Some Dangling \<and> mt_DeleteConnection t sv \<noteq> Some Dangling \<and>
    (\<forall>t u. t \<noteq> u \<longrightarrow> set (held sv t) \<inter> set (held sv u) = {}) \<and> (\<forall>t. distinct (held sv t)) \<and>
    (\<forall>a c s. objects sv a = Some (c, s) \<longrightarrow> (\<exists>t. a \<in> set (held sv t)) \<or> (\<exists>m. epoll_tab sv s = Some (a, m, True))) \<and>
    distinct (closed_list sv) \<and>
    {..<n_accepted sv} = set (closed_list sv) \<union> {s. \<exists>t. pos sv t = HasSocket s} \<union> {s. \<exists>a c. objects sv a = Some (c, s)} \<and>
    (\<forall>a b c d s. objects sv a = Some (c, s) \<and> objects sv b = Some (d, s) \<longrightarrow> a = b) \<and>
    (\<forall>a c s. objects sv a = Some (c, s) \<longrightarrow> (s \<in> set (closed_list sv) \<longleftrightarrow> (\<exists>t. pos sv t = Freeing a))) \<and>
    (\<forall>a \<in> conn_set sv. objects sv a \<noteq> None \<or> (\<exists>t. pos sv t = Erasing a))"
proof -
  from mt_reachable_inv [OF assms] have all: "mt_inv sv" .
  note inv = mt_inv_parts [OF all]
  note o = owned_parts [OF inv(1)] and k = sockets_parts [OF inv(2)]
  show ?thesis
  proof (intro conjI)
    show "handle_next st running reads rn wr mod_ok w sv \<noteq> Some Dangling" using mt_inv_handle [OF all] by blast
    show "accept_connection add_ok a garbage n sv \<noteq> Some Dangling" using mt_inv_accept [OF all] by blast
    show "mt_DeleteConnection t sv \<noteq> Some Dangling" using mt_inv_delete [OF all] by blast
    show "\<forall>t u. t \<noteq> u \<longrightarrow> set (held sv t) \<inter> set (held sv u) = {}" using o(2) by blast
    show "\<forall>t. distinct (held sv t)" using o(1) by blast
    show "\<forall>a c s. objects sv a = Some (c, s) \<longrightarrow> (\<exists>t. a \<in> set (held sv t)) \<or> (\<exists>m. epoll_tab sv s = Some (a, m, True))"
      using o(7) by (auto simp: socket_of_Some)
    show "distinct (closed_list sv)" by (rule k(1))
    show "{..<n_accepted sv} = set (closed_list sv) \<union> {s. \<exists>t. pos sv t = HasSocket s} \<union> {s. \<exists>a c. objects sv a = Some (c, s)}"
      using k(3) by (auto simp: socket_of_Some set_eq_iff)
    show "\<forall>a b c d s. objects sv a = Some (c, s) \<and> objects sv b = Some (d, s) \<longrightarrow> a = b"
      using k(2) by (auto simp: socket_of_Some)
    show "\<forall>a c s. objects sv a = Some (c, s) \<longrightarrow> (s \<in> set (closed_list sv) \<longleftrightarrow> (\<exists>t. pos sv t = Freeing a))"
      using k(7) by (auto simp: socket_of_Some)
    show "\<forall>a \<in> conn_set sv. objects sv a \<noteq> None \<or> (\<exists>t. pos sv t = Erasing a)" using inv(4) by blast
  qed
qed

text \<open>
  The race on \<open>conns\<close>: between \<open>delete pc\<close> and the erasure of the pointer another acceptor may get
  the same address for a new connection and insert it; the erasure then removes the new one. The
  connection is alive and registered, but \<open>conns\<close> does not have it: a worker that stops does not wait
  for it, and \<open>Join\<close> does not close it.
\<close>

lemma conns_loses_connection:
  "\<exists>sv c m. mt_reachable st s sv \<and> (\<forall>t. pos sv t = Ready) \<and> objects sv 7 = Some (c, 1) \<and> c_alive c \<and>
    epoll_tab sv 1 = Some (7, m, True) \<and> closed_list sv = [0] \<and> conn_set sv = {}"
proof -
  let ?g = "(False, 0, True)" and ?n = "new_connection False 0 True" and ?A = "Acceptor 0" and ?B = "Acceptor 1"
  let ?c = "Start {EPOLLONESHOT} ?n"
  let ?s0 = "fresh_mt_server s"
  let ?s1 = "goto ?A (HasSocket 0) (?s0\<lparr>n_accepted := 1\<rparr>)"
  let ?s2 = "goto ?A (HasObject 7) (?s1\<lparr>objects := [7 \<mapsto> (?n, 0)]\<rparr>)"
  let ?s3 = "goto ?A (Inserted 7) (?s2\<lparr>conn_set := {7}\<rparr>)"
  let ?s4 = "goto ?A (Closing 7) (?s3\<lparr>objects := [7 \<mapsto> (OnError ?c, 0)]\<rparr>)"
  let ?s5 = "goto ?A (Freeing 7) (?s4\<lparr>closed_list := [0], epoll_tab := Map.empty\<rparr>)"
  let ?s6 = "goto ?A (Erasing 7) (?s5\<lparr>objects := Map.empty\<rparr>)"
  let ?s7 = "goto ?B (HasSocket 1) (?s6\<lparr>n_accepted := 2\<rparr>)"
  let ?s8 = "goto ?B (HasObject 7) (?s7\<lparr>objects := [7 \<mapsto> (?n, 1)]\<rparr>)"
  let ?s9 = "goto ?B (Inserted 7) (?s8\<lparr>conn_set := {7}\<rparr>)"
  let ?s10 = "goto ?B Ready (?s9\<lparr>objects := [7 \<mapsto> (?c, 1)], epoll_tab := [1 \<mapsto> (7, c_events ?c, True)]\<rparr>)"
  let ?s11 = "goto ?A Ready (?s10\<lparr>conn_set := {}\<rparr>)"
  have start: "mt_Start ?n = Some ?c" "mt_isAlive ?c = Some True" "mt_OnError ?c = Some (OnError ?c)" "c_alive ?c"
    "?c\<lparr>c_events := insert EPOLLONESHOT (c_events ?c)\<rparr> = ?c"
    by (simp_all add: mt_Start_def mt_isAlive_def mt_OnError_def with_mu_def Start_def OnError_def new_connection_def
        MASK_EPOLLRD_def insert_absorb insert_commute)
  note acc = accept_connection_def Let_def start fresh_mt_server_def
  have "accept_connection True 7 ?g 0 ?s0 = Some (Fine ?s1)" by (simp add: acc)
  then have 1: "mt_step st ?s0 ?s1" by (rule step_accept)
  have "accept_connection True 7 ?g 0 ?s1 = Some (Fine ?s2)" by (simp add: acc)
  then have 2: "mt_step st ?s1 ?s2" by (rule step_accept)
  have "accept_connection True 7 ?g 0 ?s2 = Some (Fine ?s3)" by (simp add: acc)
  then have 3: "mt_step st ?s2 ?s3" by (rule step_accept)
  have "accept_connection False 7 ?g 0 ?s3 = Some (Fine ?s4)" by (simp add: acc)
  then have 4: "mt_step st ?s3 ?s4" by (rule step_accept)
  have "mt_DeleteConnection ?A ?s4 = Some (Fine ?s5)" by (simp add: mt_DeleteConnection_def fresh_mt_server_def)
  then have 5: "mt_step st ?s4 ?s5" by (rule step_delete)
  have "mt_DeleteConnection ?A ?s5 = Some (Fine ?s6)" by (simp add: mt_DeleteConnection_def)
  then have 6: "mt_step st ?s5 ?s6" by (rule step_delete)
  have "accept_connection True 7 ?g 1 ?s6 = Some (Fine ?s7)" by (simp add: acc)
  then have 7: "mt_step st ?s6 ?s7" by (rule step_accept)
  have "accept_connection True 7 ?g 1 ?s7 = Some (Fine ?s8)" by (simp add: acc)
  then have 8: "mt_step st ?s7 ?s8" by (rule step_accept)
  have "accept_connection True 7 ?g 1 ?s8 = Some (Fine ?s9)" by (simp add: acc)
  then have 9: "mt_step st ?s8 ?s9" by (rule step_accept)
  have "accept_connection True 7 ?g 1 ?s9 = Some (Fine ?s10)" by (simp add: acc)
  then have 10: "mt_step st ?s9 ?s10" by (rule step_accept)
  have "mt_DeleteConnection ?A ?s10 = Some (Fine ?s11)" by (simp add: mt_DeleteConnection_def)
  then have 11: "mt_step st ?s10 ?s11" by (rule step_delete)
  note next_step = reaches_step [where step = "mt_step st"]
  have "mt_reachable st s ?s3" by (rule next_step [OF next_step [OF next_step [OF reaches_refl 1] 2] 3])
  then have "mt_reachable st s ?s6" by (rule next_step [OF next_step [OF next_step [OF _ 4] 5] 6])
  then have "mt_reachable st s ?s9" by (rule next_step [OF next_step [OF next_step [OF _ 7] 8] 9])
  then have "mt_reachable st s ?s11" by (rule next_step [OF next_step [OF _ 10] 11])
  moreover have "\<forall>t. pos ?s11 t = Ready" by (simp add: fresh_mt_server_def)
  ultimately show ?thesis using start(4) by (intro exI [of _ ?s11] exI [of _ ?c] exI [of _ "c_events ?c"]) simp
qed

lemma mt_connections_safe_witness:
  "\<exists>sv c. mt_reachable simple_lru_ops (SimpleLRU 64) sv \<and> objects sv 7 = Some (c, 1) \<and>
    (1 \<in> set (closed_list sv) \<longleftrightarrow> (\<exists>t. pos sv t = Freeing 7)) \<and> 1 \<in> {..<n_accepted sv} \<and>
    mt_DeleteConnection (Acceptor 0) sv \<noteq> Some Dangling"
proof -
  obtain sv c where sv: "mt_reachable simple_lru_ops (SimpleLRU 64) sv" "objects sv 7 = Some (c, 1)"
    using conns_loses_connection [where st = simple_lru_ops and s = "SimpleLRU 64"] by blast
  note safe = mt_connections_safe [where running = "\<lambda>_. True" and reads = "[]" and rn = True and wr = WouldBlock and mod_ok = True
      and w = 0 and add_ok = True and a = 0 and garbage = "(False, 0, True)" and n = 0 and t = "Acceptor 0", OF sv(1)]
  have k: "{..<n_accepted sv} = set (closed_list sv) \<union> {s. \<exists>t. pos sv t = HasSocket s} \<union> {s. \<exists>a c. objects sv a = Some (c, s)}"
    using safe by (elim conjE) assumption
  have f: "\<forall>a c s. objects sv a = Some (c, s) \<longrightarrow> (s \<in> set (closed_list sv) \<longleftrightarrow> (\<exists>t. pos sv t = Freeing a))"
    using safe by (elim conjE) assumption
  have "mt_DeleteConnection (Acceptor 0) sv \<noteq> Some Dangling" using safe by (elim conjE) assumption
  moreover have "1 \<in> {..<n_accepted sv}" unfolding k using sv(2) by blast
  moreover have "1 \<in> set (closed_list sv) \<longleftrightarrow> (\<exists>t. pos sv t = Freeing 7)" using f sv(2) by blast
  ultimately show ?thesis using sv by blast
qed

section \<open>Acceptors that start late\<close>

abbreviation acc_steps :: "acceptors \<Rightarrow> acceptors \<Rightarrow> bool" where
  "acc_steps \<equiv> reaches acc_step"

text \<open>No step leads out of \<open>epoll_wait\<close> without descriptors.\<close>

interpretation deaf: step_invariant acc_step "\<lambda>s. apc s a = Waiting False" for a
proof unfold_locales
  fix s t assume "acc_step s t" "apc s a = Waiting False"
  then show "apc t a = Waiting False" by cases (auto simp: set_apc_def)
qed

definition all_begun :: "acceptors \<Rightarrow> bool" where
  "all_begun s \<longleftrightarrow> (\<forall>a. apc s a \<noteq> NotStarted \<and> apc s a \<noteq> Waiting False \<and>
     (apc s a = AtCheck False \<or> apc s a = Returned \<longrightarrow> \<not> run s))"

lemma all_begun_step: "acc_step s t \<Longrightarrow> all_begun s \<Longrightarrow> all_begun t \<and> (\<not> run s \<longrightarrow> \<not> run t)"
proof (induction rule: acc_step.induct)
  case (acc_begin s a)
  then show ?case by (simp add: all_begun_def)
next
  case (acc_check s a r)
  then show ?case by (cases r) (auto simp: all_begun_def set_apc_def)
qed (auto simp: all_begun_def set_apc_def)

interpretation begun: step_invariant acc_step all_begun
  by unfold_locales (auto dest: all_begun_step)

text \<open>
  C30. Stopping the acceptors is a race. When all of them run before \<open>Stop\<close>, none ever waits without
  its descriptors, and once one has taken the stop event every other one at the head of its loop
  returns. But an acceptor that starts after another has taken the stop event sets \<open>run\<close> again, and
  the other may then wait on an epoll set it has emptied: whatever happens afterwards it never
  returns, and neither does \<open>Join\<close>.
\<close>

theorem acceptors_stop_race:
  "(\<forall>s t a. (\<forall>b. apc s b = AtCheck True \<or> apc s b = Waiting True) \<and> acc_steps s t \<longrightarrow>
      apc t a \<noteq> Waiting False \<and> (apc t a = AtCheck False \<or> apc t a = Returned \<longrightarrow> \<not> run t)) \<and>
   (\<exists>t. acc_steps acceptors_created t \<and> signalled t \<and> (\<forall>u. acc_steps t u \<longrightarrow> apc u 0 \<noteq> Returned))"
proof (intro conjI allI impI)
  fix s t a assume s: "(\<forall>b. apc s b = AtCheck True \<or> apc s b = Waiting True) \<and> acc_steps s t"
  have "all_begun s" unfolding all_begun_def
  proof
    fix b
    from s have "apc s b = AtCheck True \<or> apc s b = Waiting True" by blast
    then show "apc s b \<noteq> NotStarted \<and> apc s b \<noteq> Waiting False \<and> (apc s b = AtCheck False \<or> apc s b = Returned \<longrightarrow> \<not> run s)"
      by auto
  qed
  with begun.along s have t: "all_begun t" by blast
  then show "apc t a \<noteq> Waiting False" by (simp add: all_begun_def)
  assume "apc t a = AtCheck False \<or> apc t a = Returned"
  with t show "\<not> run t" by (auto simp: all_begun_def)
next
  let ?s1 = "set_apc 0 (AtCheck True) (acceptors_created\<lparr>run := True\<rparr>)"
  let ?s2 = "set_apc 0 (Waiting True) ?s1"
  let ?s3 = "?s2\<lparr>signalled := True\<rparr>"
  let ?s4 = "set_apc 0 (AtCheck False) (?s3\<lparr>run := False\<rparr>)"
  let ?s5 = "set_apc 1 (AtCheck True) (?s4\<lparr>run := True\<rparr>)"
  let ?s6 = "set_apc 0 (Waiting False) ?s5"
  have 1: "acc_step acceptors_created ?s1" by (rule acc_begin) (simp add: acceptors_created_def)
  have 2: "acc_step ?s1 ?s2" using acc_check [of ?s1 0 True] by (simp add: set_apc_def)
  have 3: "acc_step ?s2 ?s3" by (rule acc_stop)
  have 4: "acc_step ?s3 ?s4" by (rule acc_signal) (simp_all add: set_apc_def)
  have 5: "acc_step ?s4 ?s5" by (rule acc_begin) (simp add: set_apc_def acceptors_created_def)
  have 6: "acc_step ?s5 ?s6" using acc_check [of ?s5 0 False] by (simp add: set_apc_def)
  have "acc_steps acceptors_created ?s6"
    by (rule reaches_step, rule reaches_step, rule reaches_step, rule reaches_step, rule reaches_step, rule reaches_one)
      (rule 1, rule 2, rule 3, rule 4, rule 5, rule 6)
  moreover have "signalled ?s6" by (simp add: set_apc_def)
  moreover have "apc u 0 \<noteq> Returned" if "acc_steps ?s6 u" for u
    using deaf.along [OF that, of 0] by (simp add: set_apc_def)
  ultimately show "\<exists>t. acc_steps acceptors_created t \<and> signalled t \<and> (\<forall>u. acc_steps t u \<longrightarrow> apc u 0 \<noteq> Returned)"
    by blast
qed

lemma acceptors_stop_race_witness:
  "\<exists>t. acc_steps acceptors_created t \<and> signalled t \<and> apc t 0 \<noteq> Returned"
proof -
  from acceptors_stop_race obtain t where t: "acc_steps acceptors_created t" "signalled t"
    "\<forall>u. acc_steps t u \<longrightarrow> apc u 0 \<noteq> Returned" by blast
  have "apc t 0 \<noteq> Returned" by (rule t(3) [rule_format], rule reaches_refl)
  with t(1,2) show ?thesis by iprover
qed

end
