(* ===== verification/Server_Setup.thy ===== *)
theory Server_Setup
  imports Epoll_Workers Executor Event_Loop
begin

text \<open>
  Setting the four servers up and shutting them down: \<open>Start\<close>, \<open>Stop\<close> and \<open>Join\<close> as far as they
  change descriptors, flags and threads, \<open>make_socket_non_blocking\<close>, and the acceptor loop of the
  multi-threaded blocking server. The results of the system calls are an input, and the
  descriptors the process has open are the state. Every \<open>Start\<close> ends by creating threads; the
  constructor of \<open>std::thread\<close> throws when the system has none left.
\<close>

section \<open>System calls\<close>

text \<open>
  The descriptors the calls would return (\<open>None\<close> for -1), whether the others succeed, and how many
  threads can be created before the constructor of \<open>std::thread\<close> throws.
\<close>

record syscalls =
  sigmask_ok :: bool
  socket_ret :: "nat option"
  setsockopt_ok :: bool
  bind_ok :: bool
  getfl_ok :: bool
  setfl_ok :: bool
  listen_ok :: bool
  epoll_ret :: "nat option"
  eventfd_ret :: "nat option"
  ctl_add_ok :: bool
  threads_ok :: nat

datatype setup_error = MaskFailed | SocketFailed | SetsockoptFailed | BindFailed | FcntlFailed
  | ListenFailed | EpollFailed | EventfdFailed | EpollAddFailed | ThreadFailed

type_synonym descriptors = "nat set"

definition make_socket_non_blocking :: "syscalls \<Rightarrow> setup_error + unit" where
  "make_socket_non_blocking sys =
     (if \<not> getfl_ok sys then Inl FcntlFailed else if \<not> setfl_ok sys then Inl FcntlFailed else Inr ())"

section \<open>The blocking servers\<close>

text \<open>What a started server keeps: its socket and the flag of its thread.\<close>

record blocking_server =
  b_socket :: nat
  b_running :: bool

definition st_block_Start :: "syscalls \<Rightarrow> descriptors \<Rightarrow> (setup_error + blocking_server) \<times> descriptors" where
  "st_block_Start sys fds =
     (if \<not> sigmask_ok sys then (Inl MaskFailed, fds)
      else case socket_ret sys of None \<Rightarrow> (Inl SocketFailed, fds)
      | Some s \<Rightarrow>
          (let fds = insert s fds in
           if \<not> setsockopt_ok sys then (Inl SetsockoptFailed, fds - {s})
           else if \<not> bind_ok sys then (Inl BindFailed, fds - {s})
           else if \<not> listen_ok sys then (Inl ListenFailed, fds - {s})
           else if threads_ok sys = 0 then (Inl ThreadFailed, fds)
           else (Inr \<lparr>b_socket = s, b_running = True\<rparr>, fds)))"

definition mt_block_Start :: "syscalls \<Rightarrow> descriptors \<Rightarrow> (setup_error + blocking_server) \<times> descriptors" where
  "mt_block_Start sys fds =
     (if \<not> sigmask_ok sys then (Inl MaskFailed, fds)
      else case socket_ret sys of None \<Rightarrow> (Inl SocketFailed, fds)
      | Some s \<Rightarrow>
          (let fds = insert s fds in
           if \<not> setsockopt_ok sys then (Inl SetsockoptFailed, fds - {s})
           else if \<not> bind_ok sys then (Inl BindFailed, fds - {s})
           else if \<not> listen_ok sys then (Inl ListenFailed, fds - {s})
           else if threads_ok sys = 0 then (Inl ThreadFailed, fds)
           else (Inr \<lparr>b_socket = s, b_running = True\<rparr>, fds)))"

definition st_block_Stop :: "blocking_server \<Rightarrow> blocking_server" where
  "st_block_Stop sv = sv\<lparr>b_running := False\<rparr>"

definition mt_block_Stop :: "blocking_server \<Rightarrow> blocking_server" where
  "mt_block_Stop sv = sv\<lparr>b_running := False\<rparr>"

definition st_block_Join :: "blocking_server \<Rightarrow> descriptors \<Rightarrow> descriptors" where
  "st_block_Join sv fds = fds - {b_socket sv}"

text \<open>
  The acceptor loop of \<open>mt_blocking\<close>. Each turn comes with the value of \<open>running\<close> and the result of
  \<open>accept\<close>; the task handed to the pool is the socket. Leaving the loop closes the server socket
  and stops the pool, as \<open>Join\<close> does once more.
\<close>

fun accept_loop :: "blocking_server \<Rightarrow> (bool \<times> nat option) list \<Rightarrow> nat pool \<Rightarrow> descriptors \<Rightarrow>
    bool \<times> nat pool \<times> descriptors" where
  "accept_loop sv [] p fds = (False, p, fds)"
| "accept_loop sv ((running, acc) # turns) p fds =
     (if \<not> running then (True, Stop p, fds - {b_socket sv})
      else case acc of None \<Rightarrow> accept_loop sv turns p fds
      | Some client_socket \<Rightarrow>
          (case Execute client_socket p of (ok, _, p) \<Rightarrow>
             accept_loop sv turns p (if ok then insert client_socket fds else insert client_socket fds - {client_socket})))"

definition mt_block_Join :: "nat pool \<Rightarrow> nat pool" where
  "mt_block_Join p = Stop p"

section \<open>The epoll servers\<close>

record epoll_server =
  ep_socket :: nat
  ep_event :: nat

definition st_nonblock_Start :: "syscalls \<Rightarrow> descriptors \<Rightarrow> (setup_error + epoll_server) \<times> descriptors" where
  "st_nonblock_Start sys fds =
     (if \<not> sigmask_ok sys then (Inl MaskFailed, fds)
      else case socket_ret sys of None \<Rightarrow> (Inl SocketFailed, fds)
      | Some s \<Rightarrow>
          (let fds = insert s fds in
           if \<not> setsockopt_ok sys then (Inl SetsockoptFailed, fds - {s})
           else if \<not> bind_ok sys then (Inl BindFailed, fds - {s})
           else (case make_socket_non_blocking sys of Inl e \<Rightarrow> (Inl e, fds)
             | Inr _ \<Rightarrow>
                 (if \<not> listen_ok sys then (Inl ListenFailed, fds - {s})
                  else (case eventfd_ret sys of None \<Rightarrow> (Inl EventfdFailed, fds)
                    | Some ev \<Rightarrow>
                        (if threads_ok sys = 0 then (Inl ThreadFailed, insert ev fds)
                         else (Inr \<lparr>ep_socket = s, ep_event = ev\<rparr>, insert ev fds)))))))"

text \<open>
  \<open>Start\<close> of the multi-threaded one: workers are created one after another on the epoll set, then the
  acceptor threads; \<open>k\<close> threads can still be created. The result tells whether all were made, how many
  more can be, and the workers, of which the last has no thread when its creation failed; a failed
  assertion is \<open>None\<close>.
\<close>

fun start_workers :: "nat \<Rightarrow> nat \<Rightarrow> nat \<Rightarrow> worker list \<Rightarrow> (bool \<times> nat \<times> worker list) option" where
  "start_workers ep 0 k ws = Some (True, k, ws)"
| "start_workers ep (Suc n) k ws = do {
     w \<leftarrow> Worker_Start ep new_worker;
     if k = 0 then Some (False, 0, ws @ [w\<lparr>w_thread := False\<rparr>])
     else start_workers ep n (k - 1) (ws @ [w]) }"

text \<open>The acceptors begun, \<open>m\<close> so far.\<close>

fun start_acceptors :: "nat \<Rightarrow> nat \<Rightarrow> nat \<Rightarrow> bool \<times> nat" where
  "start_acceptors 0 k m = (True, m)"
| "start_acceptors (Suc n) k m = (if k = 0 then (False, m) else start_acceptors n (k - 1) (Suc m))"

text \<open>What the members of the multi-threaded server are after \<open>Start\<close>, also when it throws.\<close>

record mt_threads =
  mt_workers :: "worker list"
  mt_acceptors :: nat

definition no_threads :: mt_threads where
  "no_threads = \<lparr>mt_workers = [], mt_acceptors = 0\<rparr>"

definition start_threads :: "syscalls \<Rightarrow> nat \<Rightarrow> nat \<Rightarrow> nat \<Rightarrow> (bool \<times> mt_threads) option" where
  "start_threads sys n_acceptors n_workers ep = do {
     (ok, k, ws) \<leftarrow> start_workers ep n_workers (threads_ok sys) [];
     if \<not> ok then Some (False, \<lparr>mt_workers = ws, mt_acceptors = 0\<rparr>)
     else (let (ok, m) = start_acceptors n_acceptors k 0 in Some (ok, \<lparr>mt_workers = ws, mt_acceptors = m\<rparr>)) }"

definition mt_nonblock_Start :: "syscalls \<Rightarrow> nat \<Rightarrow> nat \<Rightarrow> descriptors \<Rightarrow>
    ((setup_error + epoll_server) \<times> mt_threads \<times> descriptors) option" where
  "mt_nonblock_Start sys n_acceptors n_workers fds =
     (if \<not> sigmask_ok sys then Some (Inl MaskFailed, no_threads, fds)
      else case socket_ret sys of None \<Rightarrow> Some (Inl SocketFailed, no_threads, fds)
      | Some s \<Rightarrow>
          (let fds = insert s fds in
           if \<not> setsockopt_ok sys then Some (Inl SetsockoptFailed, no_threads, fds - {s})
           else if \<not> bind_ok sys then Some (Inl BindFailed, no_threads, fds - {s})
           else (case make_socket_non_blocking sys of Inl e \<Rightarrow> Some (Inl e, no_threads, fds)
             | Inr _ \<Rightarrow>
                 (if \<not> listen_ok sys then Some (Inl ListenFailed, no_threads, fds - {s})
                  else (case epoll_ret sys of None \<Rightarrow> Some (Inl EpollFailed, no_threads, fds)
                    | Some ep \<Rightarrow>
                        (let fds = insert ep fds in
                         case eventfd_ret sys of None \<Rightarrow> Some (Inl EventfdFailed, no_threads, fds)
                         | Some ev \<Rightarrow>
                             (let fds = insert ev fds in
                              if \<not> ctl_add_ok sys then Some (Inl EpollAddFailed, no_threads, fds)
                              else do {
                                (ok, ts) \<leftarrow> start_threads sys n_acceptors n_workers ep;
                                Some (if ok then Inr \<lparr>ep_socket = s, ep_event = ev\<rparr> else Inl ThreadFailed, ts, fds) })))))))"

definition epoll_Join_fds :: "epoll_server \<Rightarrow> descriptors \<Rightarrow> descriptors" where
  "epoll_Join_fds sv fds = fds - {ep_socket sv}"

section \<open>Descriptors after a failed start\<close>

text \<open>The calls return descriptors that are not in use.\<close>

definition fresh_descriptors :: "syscalls \<Rightarrow> descriptors \<Rightarrow> bool" where
  "fresh_descriptors sys fds \<longleftrightarrow>
     (\<forall>s. socket_ret sys = Some s \<longrightarrow> s \<notin> fds \<and> epoll_ret sys \<noteq> Some s \<and> eventfd_ret sys \<noteq> Some s) \<and>
     (\<forall>e. epoll_ret sys = Some e \<longrightarrow> e \<notin> fds \<and> eventfd_ret sys \<noteq> Some e) \<and>
     (\<forall>e. eventfd_ret sys = Some e \<longrightarrow> e \<notin> fds)"

text \<open>What an exception of \<open>Start\<close> leaves open in the epoll servers.\<close>

definition leaked :: "syscalls \<Rightarrow> setup_error \<Rightarrow> descriptors" where
  "leaked sys e = (case e of
      FcntlFailed \<Rightarrow> set_option (socket_ret sys)
    | EpollFailed \<Rightarrow> set_option (socket_ret sys)
    | EventfdFailed \<Rightarrow> set_option (socket_ret sys) \<union> set_option (epoll_ret sys)
    | EpollAddFailed \<Rightarrow> set_option (socket_ret sys) \<union> set_option (epoll_ret sys) \<union> set_option (eventfd_ret sys)
    | ThreadFailed \<Rightarrow> set_option (socket_ret sys) \<union> set_option (epoll_ret sys) \<union> set_option (eventfd_ret sys)
    | _ \<Rightarrow> {})"

lemma insert_remove: "s \<notin> fds \<Longrightarrow> insert s fds - {s} = fds"
  by auto

definition started_worker :: "nat \<Rightarrow> worker" where
  "started_worker ep = \<lparr>isRunning = True, w_epoll = Some ep, w_thread = True\<rparr>"

lemma start_workers_all:
  "start_workers ep n k ws =
     (if n \<le> k then Some (True, k - n, ws @ replicate n (started_worker ep))
      else Some (False, 0, ws @ replicate k (started_worker ep) @ [(started_worker ep)\<lparr>w_thread := False\<rparr>]))"
proof (induction n arbitrary: k ws)
  case (Suc n)
  then show ?case
    by (cases k) (simp_all add: Worker_Start_def new_worker_def started_worker_def replicate_append_same [symmetric])
qed simp

lemma start_acceptors_all: "start_acceptors n k m = (n \<le> k, m + min n k)"
  by (induction n k m rule: start_acceptors.induct) auto

text \<open>The threads that exist, all of them joinable.\<close>

definition threads_of :: "mt_threads \<Rightarrow> nat" where
  "threads_of ts = length (filter w_thread (mt_workers ts)) + mt_acceptors ts"

lemma start_threads_all:
  "\<exists>ok ts. start_threads sys n_acceptors n_workers ep = Some (ok, ts) \<and> (ok \<longleftrightarrow> n_workers + n_acceptors \<le> threads_ok sys) \<and>
    threads_of ts = min (threads_ok sys) (n_workers + n_acceptors) \<and>
    (ok \<longrightarrow> ts = \<lparr>mt_workers = replicate n_workers (started_worker ep), mt_acceptors = n_acceptors\<rparr>)"
  by (auto simp: start_threads_def start_workers_all start_acceptors_all threads_of_def started_worker_def)

text \<open>
  C39. Every \<open>Start\<close> that fails before it creates threads leaves no thread behind; the blocking
  servers then leave no descriptor open either, while the epoll servers close their socket only on
  the errors the blocking ones have too: when the socket cannot be made nonblocking, or the epoll or
  event descriptor cannot be made or registered, everything opened so far stays open. When a thread
  cannot be created, all four leave everything they have opened, and the multi-threaded epoll server
  as many running threads as could be created. A successful start opens exactly the descriptors it
  keeps and starts all the workers and acceptors asked for.
\<close>

theorem start_descriptors:
  assumes "fresh_descriptors sys fds"
  shows "(case st_block_Start sys fds of
       (Inl e, fds') \<Rightarrow> fds' = (if e = ThreadFailed then fds \<union> set_option (socket_ret sys) else fds) \<and>
         (e = ThreadFailed \<longrightarrow> threads_ok sys = 0)
     | (Inr sv, fds') \<Rightarrow> fds' = insert (b_socket sv) fds \<and> 0 < threads_ok sys) \<and>
    (case mt_block_Start sys fds of
       (Inl e, fds') \<Rightarrow> fds' = (if e = ThreadFailed then fds \<union> set_option (socket_ret sys) else fds) \<and>
         (e = ThreadFailed \<longrightarrow> threads_ok sys = 0)
     | (Inr sv, fds') \<Rightarrow> fds' = insert (b_socket sv) fds \<and> 0 < threads_ok sys) \<and>
    (case st_nonblock_Start sys fds of
       (Inl e, fds') \<Rightarrow> fds' = fds \<union> leaked (sys\<lparr>epoll_ret := None\<rparr>) e \<and> (e = ThreadFailed \<longrightarrow> threads_ok sys = 0)
     | (Inr sv, fds') \<Rightarrow> fds' = {ep_socket sv, ep_event sv} \<union> fds \<and> 0 < threads_ok sys) \<and>
    (case mt_nonblock_Start sys n_acceptors n_workers fds of
       None \<Rightarrow> False
     | Some (Inl e, ts, fds') \<Rightarrow> fds' = fds \<union> leaked sys e \<and>
         threads_of ts = (if e = ThreadFailed then threads_ok sys else 0) \<and>
         (e = ThreadFailed \<longrightarrow> threads_ok sys < n_workers + n_acceptors)
     | Some (Inr sv, ts, fds') \<Rightarrow> n_workers + n_acceptors \<le> threads_ok sys \<and>
         (\<exists>ep. epoll_ret sys = Some ep \<and> fds' = {ep_socket sv, ep_event sv, ep} \<union> fds \<and>
           ts = \<lparr>mt_workers = replicate n_workers \<lparr>isRunning = True, w_epoll = Some ep, w_thread = True\<rparr>, mt_acceptors = n_acceptors\<rparr>))"
proof -
  have s: "s \<notin> fds" if "socket_ret sys = Some s" for s
    using assms that by (simp add: fresh_descriptors_def)
  show ?thesis
  proof (intro conjI)
    show "case mt_nonblock_Start sys n_acceptors n_workers fds of
       None \<Rightarrow> False
     | Some (Inl e, ts, fds') \<Rightarrow> fds' = fds \<union> leaked sys e \<and>
         threads_of ts = (if e = ThreadFailed then threads_ok sys else 0) \<and>
         (e = ThreadFailed \<longrightarrow> threads_ok sys < n_workers + n_acceptors)
     | Some (Inr sv, ts, fds') \<Rightarrow> n_workers + n_acceptors \<le> threads_ok sys \<and>
         (\<exists>ep. epoll_ret sys = Some ep \<and> fds' = {ep_socket sv, ep_event sv, ep} \<union> fds \<and>
           ts = \<lparr>mt_workers = replicate n_workers \<lparr>isRunning = True, w_epoll = Some ep, w_thread = True\<rparr>, mt_acceptors = n_acceptors\<rparr>)"
    proof -
      obtain ok ts where t: "start_threads sys n_acceptors n_workers (the (epoll_ret sys)) = Some (ok, ts)"
          "ok \<longleftrightarrow> n_workers + n_acceptors \<le> threads_ok sys" "threads_of ts = min (threads_ok sys) (n_workers + n_acceptors)"
          "ok \<Longrightarrow> ts = \<lparr>mt_workers = replicate n_workers (started_worker (the (epoll_ret sys))), mt_acceptors = n_acceptors\<rparr>"
        using start_threads_all [of sys n_acceptors n_workers "the (epoll_ret sys)"] by blast
      have none: "threads_of no_threads = 0" by (simp add: threads_of_def no_threads_def)
      show ?thesis
        using t none
        by (cases ok) (auto simp: mt_nonblock_Start_def insert_remove Let_def leaked_def make_socket_non_blocking_def
            started_worker_def dest: s split: option.splits)
    qed
  qed (auto simp: st_block_Start_def mt_block_Start_def st_nonblock_Start_def insert_remove Let_def leaked_def
        make_socket_non_blocking_def dest: s split: option.splits)
qed

lemma start_descriptors_witness:
  "\<exists>ts. mt_nonblock_Start \<lparr>sigmask_ok = True, socket_ret = Some 3, setsockopt_ok = True, bind_ok = True, getfl_ok = True,
     setfl_ok = True, listen_ok = True, epoll_ret = Some 4, eventfd_ret = Some 5, ctl_add_ok = True, threads_ok = 3\<rparr> 2 2 {0, 1, 2} =
   Some (Inl ThreadFailed, ts, {0, 1, 2, 3, 4, 5}) \<and> threads_of ts = 3"
proof -
  let ?sys = "\<lparr>sigmask_ok = True, socket_ret = Some 3, setsockopt_ok = True, bind_ok = True, getfl_ok = True,
     setfl_ok = True, listen_ok = True, epoll_ret = Some 4, eventfd_ret = Some 5, ctl_add_ok = True, threads_ok = 3\<rparr>"
  have "fresh_descriptors ?sys {0, 1, 2}" by (simp add: fresh_descriptors_def)
  note start = conjunct2 [OF conjunct2 [OF conjunct2 [OF start_descriptors [OF this, of 2 2]]]]
  have "\<exists>ts fds'. mt_nonblock_Start ?sys 2 2 {0, 1, 2} = Some (Inl ThreadFailed, ts, fds')"
    by (simp add: mt_nonblock_Start_def make_socket_non_blocking_def start_threads_def start_workers_all start_acceptors_all)
  with start show ?thesis by (auto simp: leaked_def)
qed

section \<open>Accepted sockets of the multi-threaded blocking server\<close>

text \<open>
  Every socket the acceptor loop accepts is either handed to the thread pool, which then has it
  at the end of its queue, or closed at once; when the loop ends the server socket is closed and
  the pool no longer accepts tasks. The queue keeps its order and bound.
\<close>

theorem accept_loop_sockets:
  assumes "accept_loop sv turns p fds = (ended, p', fds')" "distinct (List.map_filter snd turns)"
    "set (List.map_filter snd turns) \<inter> insert (b_socket sv) fds = {}" "length (tasks p) \<le> unat (max_queue_size p)"
  shows "\<exists>taken. tasks p' = tasks p @ taken \<and> set taken \<subseteq> set (List.map_filter snd turns) \<and>
    fds' = (if ended then fds \<union> set taken - {b_socket sv} else fds \<union> set taken) \<and>
    (ended \<longrightarrow> e_state p' = kStopping) \<and> length (tasks p') \<le> unat (max_queue_size p')"
  using assms
proof (induction turns arbitrary: p fds)
  case (Cons t turns)
  obtain running acc where t: "t = (running, acc)" by (cases t) auto
  show ?case
  proof (cases running)
    case False
    with Cons.prems show ?thesis by (auto simp: t Stop_def)
  next
    case True
    show ?thesis
    proof (cases acc)
      case None
      with Cons True show ?thesis by (simp add: t map_filter_simps)
    next
      case (Some c)
      obtain ok spawn p1 where x: "Execute c p = (ok, spawn, p1)" by (cases "Execute c p") auto
      have p1: "tasks p1 = tasks p @ (if ok then [c] else []) \<and> max_queue_size p1 = max_queue_size p \<and>
          length (tasks p1) \<le> unat (max_queue_size p1)"
        using x Cons.prems(4) by (auto simp: Execute_def Let_def split: if_splits)
      let ?fds = "if ok then insert c fds else insert c fds - {c}"
      have c: "c \<notin> fds" "c \<notin> set (List.map_filter snd turns)" "c \<noteq> b_socket sv"
        using Cons.prems(2,3) by (auto simp: t Some map_filter_simps)
      have run: "accept_loop sv turns p1 ?fds = (ended, p', fds')"
        using Cons.prems(1) True by (simp add: t Some x)
      have "distinct (List.map_filter snd turns)" "set (List.map_filter snd turns) \<inter> insert (b_socket sv) ?fds = {}"
        using Cons.prems(2,3) c by (auto simp: t Some map_filter_simps)
      from Cons.IH [OF run this conjunct2 [OF conjunct2 [OF p1]]] obtain taken where taken:
        "tasks p' = tasks p1 @ taken" "set taken \<subseteq> set (List.map_filter snd turns)"
        "fds' = (if ended then ?fds \<union> set taken - {b_socket sv} else ?fds \<union> set taken)"
        "ended \<longrightarrow> e_state p' = kStopping" "length (tasks p') \<le> unat (max_queue_size p')" by blast
      show ?thesis
        by (rule exI [of _ "(if ok then [c] else []) @ taken"])
          (use taken p1 c in \<open>auto simp: t Some map_filter_simps\<close>)
    qed
  qed
qed auto

lemma accept_loop_sockets_witness:
  "\<exists>p'. accept_loop \<lparr>b_socket = 3, b_running = True\<rparr> [(True, Some 4), (True, None), (True, Some 5), (False, None)]
     (Executor_new 1 1 1 1000) {3} = (True, p', {4}) \<and> tasks p' = [4]"
proof -
  let ?run = "accept_loop \<lparr>b_socket = 3, b_running = True\<rparr> [(True, Some 4), (True, None), (True, Some 5), (False, None)]
     (Executor_new 1 1 1 1000) {3}"
  obtain ended p' fds' where r: "?run = (ended, p', fds')" by (cases ?run) auto
  have "ended" "tasks p' = [4]" using r by (auto simp: Executor_new_def Execute_def Stop_def)
  with accept_loop_sockets [OF r] r show ?thesis by (auto simp: map_filter_simps Executor_new_def)
qed

end
