(* ===== verification/Application.thy ===== *)
theory Application
  imports Logging_Facts
begin

text \<open>
  The program (\<open>src/main.cpp\<close>): the configuration out of the command line options, the order in
  which the services are started and stopped, the wait for a signal, and how an exception ends it.
  The options are those the parser found, the services are parameters that may throw.
\<close>

section \<open>Configuration\<close>

datatype storage_type = SimpleLRU_storage | ThreadSafeSimplLRU_storage

datatype network_type = STblocking_server | MTblocking_server | STnonblock_server | MTnonblock_server

record application =
  logConfig :: log_config
  storage :: storage_type
  server :: network_type

datatype configure_error = UnknownStorageType | UnknownNetworkType

definition console_appender :: "appender \<Rightarrow> appender" where
  "console_appender a = a\<lparr>type_of := STDOUT, color := True\<rparr>"

definition root_logger :: logger_config where
  "root_logger = \<lparr>level = DEBUG, format = ''[%H:%M:%S %z] [thread %t] [%n] [%l] %v'', appenders = [''console'']\<rparr>"

definition Configure :: "appender \<Rightarrow> (string \<rightharpoonup> string) \<Rightarrow> configure_error + application" where
  "Configure a options =
     (let cfg = \<lparr>cfg_appenders = [(''console'', console_appender a)], cfg_loggers = [(''root'', root_logger)]\<rparr>;
          storage_type = (case options ''storage'' of None \<Rightarrow> ''st_lru'' | Some s \<Rightarrow> s);
          network_type = (case options ''network'' of None \<Rightarrow> ''st_block'' | Some s \<Rightarrow> s)
      in if storage_type \<noteq> ''st_lru'' \<and> storage_type \<noteq> ''mt_lru'' then Inl UnknownStorageType
         else
          (let st = (if storage_type = ''st_lru'' then SimpleLRU_storage else ThreadSafeSimplLRU_storage) in
           if network_type = ''st_block'' then Inr \<lparr>logConfig = cfg, storage = st, server = STblocking_server\<rparr>
           else if network_type = ''mt_block'' then Inr \<lparr>logConfig = cfg, storage = st, server = MTblocking_server\<rparr>
           else if network_type = ''st_nonblock'' then Inr \<lparr>logConfig = cfg, storage = st, server = STnonblock_server\<rparr>
           else if network_type = ''mt_nonblock'' then Inr \<lparr>logConfig = cfg, storage = st, server = MTnonblock_server\<rparr>
           else Inl UnknownNetworkType))"

section \<open>Running\<close>

datatype service_call = LogStart | LogSelect | StorageStart | ServerStart
  | ServerStop | ServerJoin | StorageStop | LogStop

text \<open>
  What the run of the program leaves behind: the calls made to the services, and whether the server
  owns a thread that has not been joined. \<open>std::thread\<close> is joinable from its construction in the
  server's \<open>Start\<close> until its \<open>Join\<close>.
\<close>

record app_state =
  calls :: "service_call list"
  joinable :: bool

definition app_created :: app_state where
  "app_created = \<lparr>calls = [], joinable = False\<rparr>"

text \<open>
  One call of a service; \<open>Inl\<close> is an exception, with the state it leaves. \<open>throws\<close> tells which calls
  throw and \<open>workers_left\<close> whether a failing \<open>Start\<close> of the server has begun threads by then, as the
  multi-threaded epoll server may.
\<close>

definition invoke :: "(service_call \<Rightarrow> bool) \<Rightarrow> bool \<Rightarrow> service_call \<Rightarrow> app_state \<Rightarrow> app_state + app_state" where
  "invoke throws workers_left c st =
     (let st = st\<lparr>calls := calls st @ [c]\<rparr> in
      case c of
        ServerStart \<Rightarrow> if throws c then Inl (st\<lparr>joinable := workers_left\<rparr>) else Inr (st\<lparr>joinable := True\<rparr>)
      | ServerJoin \<Rightarrow> if throws c then Inl st else Inr (st\<lparr>joinable := False\<rparr>)
      | _ \<Rightarrow> if throws c then Inl st else Inr st)"

fun and_then :: "'e + 'a \<Rightarrow> ('a \<Rightarrow> 'e + 'b) \<Rightarrow> 'e + 'b" where
  "and_then (Inl e) f = Inl e"
| "and_then (Inr x) f = f x"

definition Application_Start :: "(service_call \<Rightarrow> bool) \<Rightarrow> bool \<Rightarrow> app_state \<Rightarrow> app_state + app_state" where
  "Application_Start throws workers_left st =
     and_then (and_then (and_then (
       invoke throws workers_left LogStart st)
      (invoke throws workers_left LogSelect))
      (invoke throws workers_left StorageStart))
      (invoke throws workers_left ServerStart)"

definition Application_Stop :: "(service_call \<Rightarrow> bool) \<Rightarrow> app_state \<Rightarrow> app_state + app_state" where
  "Application_Stop throws st =
     and_then (and_then (and_then (and_then (
       invoke throws False LogSelect st)
      (invoke throws False ServerStop))
      (invoke throws False ServerJoin))
      (invoke throws False StorageStop))
      (invoke throws False LogStop)"

text \<open>
  The wait for a signal. Every turn comes with the value of \<open>stop_reason\<close> and the result of
  \<open>sem_wait\<close>; the result is whether the loop was left.
\<close>

datatype sem_result = Posted | Interrupted | SemError

fun wait_for_signal :: "(int \<times> sem_result) list \<Rightarrow> bool" where
  "wait_for_signal [] = False"
| "wait_for_signal ((stop_reason, r) # turns) =
     (if stop_reason = 0 \<and> r = Interrupted then wait_for_signal turns else True)"

text \<open>
  How the program ends: by \<open>return\<close>, by \<open>std::terminate\<close> (an exception nobody catches, or the
  destructor of a thread that is joinable), or not yet.
\<close>

datatype program_end = Returns int | Terminates | StillWaiting

datatype parsed_options = ParseError | Options "string \<rightharpoonup> string"

text \<open>\<open>return 0\<close> at the end of \<open>main\<close> destroys \<open>app\<close>, and with it the server and its threads.\<close>

definition return_0 :: "app_state \<Rightarrow> program_end \<times> service_call list" where
  "return_0 st = (if joinable st then Terminates else Returns 0, calls st)"

text \<open>\<open>start_throws\<close> and \<open>stop_throws\<close> tell which calls of the services throw in \<open>Start\<close> and in \<open>Stop\<close>.\<close>

definition main :: "parsed_options \<Rightarrow> appender \<Rightarrow> bool \<Rightarrow> (service_call \<Rightarrow> bool) \<Rightarrow> bool \<Rightarrow> (service_call \<Rightarrow> bool) \<Rightarrow>
    (int \<times> sem_result) list \<Rightarrow> program_end \<times> service_call list" where
  "main parsed a sem_ok start_throws workers_left stop_throws turns =
     (case parsed of ParseError \<Rightarrow> (Returns 1, [])
      | Options options \<Rightarrow>
         (if options ''help'' \<noteq> None then (Returns 0, [])
          else (case Configure a options of Inl _ \<Rightarrow> (Terminates, [])
            | Inr app \<Rightarrow>
               (if \<not> sem_ok then (Terminates, [])
                else (case Application_Start start_throws workers_left app_created of
                    Inl st \<Rightarrow> return_0 st
                  | Inr st \<Rightarrow>
                     (if \<not> wait_for_signal turns then (StillWaiting, calls st)
                      else (case Application_Stop stop_throws st of Inl st \<Rightarrow> return_0 st | Inr st \<Rightarrow> return_0 st)))))))"

section \<open>The life of the program\<close>

lemma Application_start_cases:
  "Application_Start throws workers_left app_created =
     (if throws LogStart then Inl \<lparr>calls = [LogStart], joinable = False\<rparr>
      else if throws LogSelect then Inl \<lparr>calls = [LogStart, LogSelect], joinable = False\<rparr>
      else if throws StorageStart then Inl \<lparr>calls = [LogStart, LogSelect, StorageStart], joinable = False\<rparr>
      else if throws ServerStart
        then Inl \<lparr>calls = [LogStart, LogSelect, StorageStart, ServerStart], joinable = workers_left\<rparr>
      else Inr \<lparr>calls = [LogStart, LogSelect, StorageStart, ServerStart], joinable = True\<rparr>)"
  by (simp add: Application_Start_def invoke_def app_created_def)

lemma Application_stop_cases:
  "Application_Stop throws st =
     (if throws LogSelect then Inl (st\<lparr>calls := calls st @ [LogSelect]\<rparr>)
      else if throws ServerStop then Inl (st\<lparr>calls := calls st @ [LogSelect, ServerStop]\<rparr>)
      else if throws ServerJoin then Inl (st\<lparr>calls := calls st @ [LogSelect, ServerStop, ServerJoin]\<rparr>)
      else if throws StorageStop
        then Inl (st\<lparr>calls := calls st @ [LogSelect, ServerStop, ServerJoin, StorageStop], joinable := False\<rparr>)
      else (if throws LogStop then Inl else Inr)
        (st\<lparr>calls := calls st @ [LogSelect, ServerStop, ServerJoin, StorageStop, LogStop], joinable := False\<rparr>))"
  by (simp add: Application_Stop_def invoke_def)

lemma wait_for_signal_iff:
  "wait_for_signal turns \<longleftrightarrow> (\<exists>(reason, r) \<in> set turns. reason \<noteq> 0 \<or> r \<noteq> Interrupted)"
  by (induction turns) auto

lemma Configure_total:
  "(\<exists>app. Configure a options = Inr app) \<longleftrightarrow>
     (case options ''storage'' of None \<Rightarrow> True | Some s \<Rightarrow> s \<in> {''st_lru'', ''mt_lru''}) \<and>
     (case options ''network'' of None \<Rightarrow> True | Some n \<Rightarrow> n \<in> {''st_block'', ''mt_block'', ''st_nonblock'', ''mt_nonblock''})"
  by (auto simp: Configure_def Let_def split: option.splits if_splits)

text \<open>The calls of a run in their order, and which of them throws.\<close>

definition call_order :: "service_call list" where
  "call_order = [LogStart, LogSelect, StorageStart, ServerStart, LogSelect, ServerStop, ServerJoin, StorageStop, LogStop]"

definition call_throws :: "(service_call \<Rightarrow> bool) \<Rightarrow> (service_call \<Rightarrow> bool) \<Rightarrow> nat \<Rightarrow> bool" where
  "call_throws start_throws stop_throws i = (if i < 4 then start_throws (call_order ! i) else stop_throws (call_order ! i))"

lemma call_throws_simps:
  "start_throws LogStart = call_throws start_throws stop_throws 0"
  "start_throws LogSelect = call_throws start_throws stop_throws 1"
  "start_throws StorageStart = call_throws start_throws stop_throws 2"
  "start_throws ServerStart = call_throws start_throws stop_throws 3"
  "stop_throws LogSelect = call_throws start_throws stop_throws 4"
  "stop_throws ServerStop = call_throws start_throws stop_throws 5"
  "stop_throws ServerJoin = call_throws start_throws stop_throws 6"
  "stop_throws StorageStop = call_throws start_throws stop_throws 7"
  "stop_throws LogStop = call_throws start_throws stop_throws 8"
  by (simp_all add: call_throws_def call_order_def)

lemma life_cases:
  assumes "(case Application_Start start_throws workers_left app_created of Inl st \<Rightarrow> return_0 st
        | Inr st \<Rightarrow> if \<not> woken then (StillWaiting, calls st)
            else (case Application_Stop stop_throws st of Inl st \<Rightarrow> return_0 st | Inr st \<Rightarrow> return_0 st)) = (outcome, made)"
  shows "\<exists>n. made = take n call_order \<and> 0 < n \<and> n \<le> 9 \<and> (\<forall>i < n - 1. \<not> call_throws start_throws stop_throws i) \<and>
    (4 < n \<longrightarrow> woken) \<and>
    (if outcome = StillWaiting then n = 4 \<and> \<not> call_throws start_throws stop_throws 3 \<and> \<not> woken
     else (call_throws start_throws stop_throws (n - 1) \<or> n = 9) \<and>
       outcome = (if n = 4 \<and> workers_left \<or> n \<in> {5, 6, 7} then Terminates else Returns 0))"
proof -
  have less: "(\<forall>i < Suc n. P i) \<longleftrightarrow> (\<forall>i < n. P i) \<and> P n" for n and P :: "nat \<Rightarrow> bool" by (auto simp: less_Suc_eq)
  have below: "(\<forall>i < numeral k. P i) \<longleftrightarrow> (\<forall>i < pred_numeral k. P i) \<and> P (pred_numeral k)" for k and P :: "nat \<Rightarrow> bool"
    using less [of "pred_numeral k" P] by (simp only: numeral_eq_Suc)
  note m = assms [unfolded Application_start_cases Application_stop_cases return_0_def
      call_throws_simps [of start_throws stop_throws] call_throws_simps(5-9) [of stop_throws start_throws]]
  define t where "t = call_throws start_throws stop_throws"
  note m = m [folded t_def]
  have "\<exists>n. made = take n call_order \<and> 0 < n \<and> n \<le> 9 \<and> (\<forall>i < n - 1. \<not> t i) \<and>
    (4 < n \<longrightarrow> woken) \<and>
    (if outcome = StillWaiting then n = 4 \<and> \<not> t 3 \<and> \<not> woken
     else (t (n - 1) \<or> n = 9) \<and>
       outcome = (if n = 4 \<and> workers_left \<or> n \<in> {5, 6, 7} then Terminates else Returns 0))" (is "\<exists>n. ?P n")
  proof -
    consider "t 0" | "\<not> t 0" "t 1" | "\<not> t 0" "\<not> t 1" "t 2" | "\<not> t 0" "\<not> t 1" "\<not> t 2" "t 3"
      | "\<not> t 0" "\<not> t 1" "\<not> t 2" "\<not> t 3" "\<not> woken"
      | "\<not> t 0" "\<not> t 1" "\<not> t 2" "\<not> t 3" "woken" "t 4"
      | "\<not> t 0" "\<not> t 1" "\<not> t 2" "\<not> t 3" "woken" "\<not> t 4" "t 5"
      | "\<not> t 0" "\<not> t 1" "\<not> t 2" "\<not> t 3" "woken" "\<not> t 4" "\<not> t 5" "t 6"
      | "\<not> t 0" "\<not> t 1" "\<not> t 2" "\<not> t 3" "woken" "\<not> t 4" "\<not> t 5" "\<not> t 6" "t 7"
      | "\<not> t 0" "\<not> t 1" "\<not> t 2" "\<not> t 3" "woken" "\<not> t 4" "\<not> t 5" "\<not> t 6" "\<not> t 7"
      by blast
    then show ?thesis
    proof cases
      case 1 then have "?P 1" using m by (auto simp: call_order_def) then show ?thesis ..
    next
      case 2 then have "?P 2" using m by (auto simp: call_order_def less) then show ?thesis ..
    next
      case 3 then have "?P 3" using m by (auto simp: call_order_def below less) then show ?thesis ..
    next
      case 4 then have "?P 4" using m by (auto simp: call_order_def below less split: if_splits) then show ?thesis ..
    next
      case 5 then have "?P 4" using m by (auto simp: call_order_def below less) then show ?thesis ..
    next
      case 6 then have "?P 5" using m by (auto simp: call_order_def below less) then show ?thesis ..
    next
      case 7 then have "?P 6" using m by (auto simp: call_order_def below less) then show ?thesis ..
    next
      case 8 then have "?P 7" using m by (auto simp: call_order_def below less) then show ?thesis ..
    next
      case 9 then have "?P 8" using m by (auto simp: call_order_def below less) then show ?thesis ..
    next
      case 10 then have "?P 9" using m by (auto simp: call_order_def below less split: if_splits) then show ?thesis ..
    qed
  qed
  then show ?thesis by (simp only: t_def)
qed

text \<open>
  C40. With known names for storage and network the calls the program makes are an initial part of
  one sequence: start logging, select a logger, start the storage, start the server, and, only after
  a signal or a failing \<open>sem_wait\<close>, select a logger, stop the server, join it, stop the storage, stop
  logging. Every call but the last made has returned; the sequence is cut short exactly where a call
  throws, and nothing is stopped after that. The program then returns 0 as if nothing had happened,
  except that it ends in \<open>std::terminate\<close> when the server's threads are still joinable: when the
  server's \<open>Start\<close> throws having begun threads, or when the log, the server's \<open>Stop\<close> or its \<open>Join\<close>
  throws on the way down. An unknown name ends it by an uncaught exception before any call.
\<close>

theorem main_lifecycle:
  assumes "options ''help'' = None"
    and "main (Options options) a True start_throws workers_left stop_throws turns = (outcome, made)"
  shows "(if \<exists>app. Configure a options = Inr app then
      (let order = [LogStart, LogSelect, StorageStart, ServerStart, LogSelect, ServerStop, ServerJoin, StorageStop, LogStop];
           throws = (\<lambda>i. if i < 4 then start_throws (order ! i) else stop_throws (order ! i));
           n = length made
       in made = take n order \<and> 0 < n \<and> n \<le> 9 \<and> (\<forall>i < n - 1. \<not> throws i) \<and>
          (4 < n \<longrightarrow> (\<exists>(reason, r) \<in> set turns. reason \<noteq> 0 \<or> r \<noteq> Interrupted)) \<and>
          (if outcome = StillWaiting
           then n = 4 \<and> \<not> throws 3 \<and> (\<forall>(reason, r) \<in> set turns. reason = 0 \<and> r = Interrupted)
           else (throws (n - 1) \<or> n = 9) \<and>
             outcome = (if n = 4 \<and> workers_left \<or> n \<in> {5, 6, 7} then Terminates else Returns 0)))
     else outcome = Terminates \<and> made = []) \<and>
    ((\<exists>app. Configure a options = Inr app) \<longleftrightarrow>
      (case options ''storage'' of None \<Rightarrow> True | Some s \<Rightarrow> s \<in> {''st_lru'', ''mt_lru''}) \<and>
      (case options ''network'' of None \<Rightarrow> True | Some n \<Rightarrow> n \<in> {''st_block'', ''mt_block'', ''st_nonblock'', ''mt_nonblock''}))"
    (is "?life \<and> _")
proof (intro conjI Configure_total)
  have nth: "(\<forall>i < Suc n. P i) \<longleftrightarrow> (\<forall>i < n. P i) \<and> P n" for n and P :: "nat \<Rightarrow> bool" by (auto simp: less_Suc_eq)
  note woken = wait_for_signal_iff [of turns]
  show ?life
  proof (cases "Configure a options")
    case (Inl e)
    with assms show ?thesis by (auto simp: main_def)
  next
    case (Inr app)
    with assms(2) have m: "(case Application_Start start_throws workers_left app_created of Inl st \<Rightarrow> return_0 st
        | Inr st \<Rightarrow> if \<not> wait_for_signal turns then (StillWaiting, calls st)
            else (case Application_Stop stop_throws st of Inl st \<Rightarrow> return_0 st | Inr st \<Rightarrow> return_0 st)) = (outcome, made)"
      by (simp add: main_def assms(1))
    from life_cases [OF m] obtain n where n: "made = take n call_order" "0 < n" "n \<le> 9"
        "\<forall>i < n - 1. \<not> call_throws start_throws stop_throws i" "4 < n \<longrightarrow> wait_for_signal turns"
        "if outcome = StillWaiting then n = 4 \<and> \<not> call_throws start_throws stop_throws 3 \<and> \<not> wait_for_signal turns
         else (call_throws start_throws stop_throws (n - 1) \<or> n = 9) \<and>
           outcome = (if n = 4 \<and> workers_left \<or> n \<in> {5, 6, 7} then Terminates else Returns 0)" by blast
    then have len: "length made = n" by (simp add: call_order_def)
    have waits: "(\<forall>(reason, r) \<in> set turns. reason = 0 \<and> r = Interrupted) \<longleftrightarrow> \<not> wait_for_signal turns"
      unfolding woken by auto
    have "\<exists>app. Configure a options = Inr app" using Inr by blast
    then show ?thesis
      unfolding Let_def call_order_def [symmetric] call_throws_def [symmetric] len woken [symmetric] waits
      using n by (simp only: if_True)
  qed
qed

lemma main_lifecycle_witness:
  "\<forall>a. main (Options [''network'' \<mapsto> ''mt_block'']) a True (\<lambda>_. False) False (\<lambda>c. c = ServerStop) [(0, Interrupted), (2, Posted)] =
     (Terminates, [LogStart, LogSelect, StorageStart, ServerStart, LogSelect, ServerStop])"
proof
  fix a
  let ?o = "[''network'' \<mapsto> ''mt_block'']"
  obtain outcome made where m: "main (Options ?o) a True (\<lambda>_. False) False (\<lambda>c. c = ServerStop) [(0, Interrupted), (2, Posted)] = (outcome, made)"
    by fastforce
  have "?o ''help'' = None" by simp
  note life = main_lifecycle [of ?o, OF this m]
  have "\<exists>app. Configure a ?o = Inr app" by (simp add: Configure_total)
  with life have n: "made = take (length made) [LogStart, LogSelect, StorageStart, ServerStart, LogSelect, ServerStop, ServerJoin, StorageStop, LogStop]"
    and stop: "\<forall>i < length made - 1. \<not> (4 \<le> i \<and> [LogStart, LogSelect, StorageStart, ServerStart, LogSelect, ServerStop, ServerJoin, StorageStop, LogStop] ! i = ServerStop)"
    and le: "0 < length made" "length made \<le> 9"
    and cut_short: "outcome \<noteq> StillWaiting \<Longrightarrow> (4 < length made \<and> [LogStart, LogSelect, StorageStart, ServerStart, LogSelect, ServerStop, ServerJoin, StorageStop, LogStop] ! (length made - 1) = ServerStop \<or> length made = 9)
      \<and> outcome = (if length made \<in> {5, 6, 7} then Terminates else Returns 0)"
    and out: "outcome \<noteq> StillWaiting"
    by (auto simp: Let_def split: if_splits)
  have "length made = 6"
  proof -
    consider "length made = 1" | "length made = 2" | "length made = 3" | "length made = 4" | "length made = 5"
      | "length made = 6" | "length made = 7" | "length made = 8" | "length made = 9" using le by linarith
    then show ?thesis using cut_short [OF out] stop [rule_format, of 5] by cases simp_all
  qed
  with n cut_short [OF out] m
  show "main (Options ?o) a True (\<lambda>_. False) False (\<lambda>c. c = ServerStop) [(0, Interrupted), (2, Posted)] =
     (Terminates, [LogStart, LogSelect, StorageStart, ServerStart, LogSelect, ServerStop])" by simp
qed

section \<open>Logging as configured\<close>

text \<open>
  The logging configuration of the program is valid: \<open>Start\<close> fails only if the colouring sink
  cannot be made, and afterwards every name any component asks for selects the logger \<open>root\<close>,
  which writes messages of level debug and above to the console.
\<close>

theorem configured_logging:
  assumes "Configure a options = Inr app" "can_make (ColorSink (Some 0))"
  shows "\<exists>st lg. Start_service can_make (logConfig app) new_service = (None, st) \<and>
    (\<forall>name. select_logger name st = Some lg) \<and> lg_name lg = ''root'' \<and> lg_level lg = spd_debug \<and>
    targets (sinks st) lg = [Some (ColorSink (Some 0))]"
proof -
  have cfg: "logConfig app = \<lparr>cfg_appenders = [(''console'', console_appender a)], cfg_loggers = [(''root'', root_logger)]\<rparr>"
    using assms(1) by (auto simp: Configure_def Let_def split: if_splits)
  let ?lg = "\<lparr>lg_name = ''root'', lg_sinks = [Some 2], lg_level = spd_debug, lg_pattern = format root_logger, lg_flush_on = spd_err\<rparr>"
  let ?st = "\<lparr>sinks = [StdoutSink, StderrSink, ColorSink (Some 0)], registry = [(''root'', ?lg)], root = Some ?lg\<rparr>"
  have "Start_service can_make (logConfig app) new_service = (None, ?st)"
    using assms(2)
    by (simp add: cfg Start_service_def new_service_def build_appender_def console_appender_def console_sink_def make_sink_def
        root_logger_def build_sink_def spd_level_of_def)
  moreover have "select_logger name ?st = Some ?lg" for name
  proof (cases "\<exists>p. candidate name p \<and> map_of (registry ?st) p \<noteq> None")
    case True
    then have "candidate name ''root''" by (auto split: if_splits)
    have "select_loop (map_of (registry ?st)) (Some ?lg) name = Some ?lg"
      by (rule select_loop_Some [OF \<open>candidate name ''root''\<close>]) (auto split: if_splits)
    then show ?thesis by (simp add: select_logger_def)
  next
    case False
    with select_loop_None [of name "map_of (registry ?st)" "Some ?lg"] show ?thesis by (auto simp: select_logger_def)
  qed
  moreover have "targets (sinks ?st) ?lg = [Some (ColorSink (Some 0))]" by (simp add: targets_def sink_at_def)
  ultimately show ?thesis by (intro exI [of _ ?st] exI [of _ ?lg]) simp
qed

lemma configured_logging_witness:
  "\<forall>a. \<exists>app st lg. Configure a Map.empty = Inr app \<and> Start_service (\<lambda>_. True) (logConfig app) new_service = (None, st) \<and>
    select_logger ''network.worker'' st = Some lg \<and> lg_name lg = ''root''"
proof
  fix a
  have "\<exists>app. Configure a Map.empty = Inr app" by (simp add: Configure_total)
  then obtain app where app: "Configure a Map.empty = Inr app" by blast
  from configured_logging [OF app, of "\<lambda>_. True"] app
  show "\<exists>app st lg. Configure a Map.empty = Inr app \<and> Start_service (\<lambda>_. True) (logConfig app) new_service = (None, st) \<and>
    select_logger ''network.worker'' st = Some lg \<and> lg_name lg = ''root''" by auto
qed

end
