(* ===== verification/Echo_Server.thy ===== *)
theory Echo_Server
  imports Afina_Prelude
begin

text \<open>
  The epoll echo server of the course material
  (\<open>materials/05-non-blocking-network/code/echo.c\<close>, \<open>echo.h\<close>): the state of a connection, the
  handling of its read and write events with the results of \<open>read\<close> and \<open>write\<close> as inputs, and what
  the client gets back.
\<close>

section \<open>State of a connection\<close>

definition MAXLEN :: nat where
  "MAXLEN = 255"

datatype interest = EpollIn | EpollOut

record EchoEvent =
  ev :: "interest option"
  data :: string
  msg_length :: int
  offset :: int

text \<open>\<open>calloc\<close> clears the structure.\<close>

definition new_event :: EchoEvent where
  "new_event = \<lparr>ev = None, data = replicate MAXLEN (CHR 0x00), msg_length = 0, offset = 0\<rparr>"

text \<open>
  The connection has been closed and its structure freed, or it is registered again for one event.
\<close>

datatype echo_outcome = Freed | Armed interest EchoEvent

section \<open>handle\<close>

text \<open>
  \<open>read\<close> returned -1 (\<open>None\<close>), 0 or bytes. The bytes overwrite the beginning of \<open>data\<close>, which is
  then printed as a string: without a zero byte in it that reads past the array.
\<close>

definition handle_read :: "string option \<Rightarrow> EchoEvent \<Rightarrow> echo_outcome option" where
  "handle_read r e = (case r of
      None \<Rightarrow> Some Freed
    | Some bs \<Rightarrow>
        (if bs = [] then Some Freed
         else if MAXLEN < length bs then None
         else
          (let e = e\<lparr>data := bs @ drop (length bs) (data e), msg_length := int (length bs)\<rparr>
           in if CHR 0x00 \<notin> set (data e) then None else Some (Armed EpollOut e))))"

text \<open>
  \<open>write\<close> is offered \<open>msg_length\<close> bytes from \<open>offset\<close>, which is undefined past the array, and
  returned \<open>ret\<close>. The second component is what went out.
\<close>

definition handle_write :: "int \<Rightarrow> bool \<Rightarrow> EchoEvent \<Rightarrow> (echo_outcome \<times> string) option" where
  "handle_write ret eintr e =
     (if int MAXLEN < offset e + msg_length e then None
      else
       (let out = take (nat ret) (drop (nat (offset e)) (data e)) in
        if (ret = -1 \<and> eintr) \<or> ret < msg_length e then
          Some (Armed EpollOut (if ret \<noteq> -1 then e\<lparr>msg_length := msg_length e - ret, offset := offset e + ret\<rparr> else e), out)
        else if ret = -1 then Some (Freed, out)
        else Some (Armed EpollIn e, out)))"

section \<open>The main loop\<close>

text \<open>What \<open>epoll_wait\<close> reports for a connection; other combinations of flags are ignored.\<close>

datatype reported = HupOrErr | OnlyIn "string option" | OnlyOut int bool | Other

definition connection_event :: "reported \<Rightarrow> interest \<Rightarrow> EchoEvent \<Rightarrow> (echo_outcome \<times> string) option" where
  "connection_event r i e = (case r of
      HupOrErr \<Rightarrow> Some (Freed, [])
    | OnlyIn rd \<Rightarrow> map_option (\<lambda>x. (x, [])) (handle_read rd (e\<lparr>ev := Some EpollIn\<rparr>))
    | OnlyOut ret eintr \<Rightarrow> handle_write ret eintr (e\<lparr>ev := Some EpollOut\<rparr>)
    | Other \<Rightarrow> Some (Armed i e, []))"

text \<open>A sequence of events of one connection, with the bytes sent.\<close>

fun echo_run :: "reported list \<Rightarrow> echo_outcome \<Rightarrow> string \<Rightarrow> (echo_outcome \<times> string) option" where
  "echo_run [] x sent = Some (x, sent)"
| "echo_run (r # rs) Freed sent = None"
| "echo_run (r # rs) (Armed i e) sent = do {
     (x, out) \<leftarrow> connection_event r i e;
     echo_run rs x (sent @ out) }"

section \<open>The program\<close>

text \<open>\<open>Inl\<close> is \<open>exit\<close> with a status. \<open>epoll_ctl\<close>, \<open>fcntl\<close> and the other calls fail or succeed as given.\<close>

definition modifyEpollContext :: "bool \<Rightarrow> int + unit" where
  "modifyEpollContext done_ok = (if done_ok then Inr () else Inl 1)"

definition makeSocketNonBlocking :: "int \<Rightarrow> bool \<Rightarrow> int + unit" where
  "makeSocketNonBlocking flags set_ok = (if flags = -1 then Inl 1 else if \<not> set_ok then Inl 1 else Inr ())"

text \<open>
  The connections by the addresses of their structures, which are numbered in the order of the calls of
  \<open>calloc\<close>: what each is registered for and its structure, until it is freed. \<open>es_sent\<close> is what
  each client has been sent.
\<close>

record echo_server =
  es_clients :: "nat \<Rightarrow> (interest \<times> EchoEvent) option"
  es_next :: nat
  es_sent :: "nat \<Rightarrow> string"

definition echo_setup :: "int \<Rightarrow> bool \<Rightarrow> bool \<Rightarrow> int \<Rightarrow> bool \<Rightarrow> int + echo_server" where
  "echo_setup serverfd bind_ok listen_ok epollfd add_ok =
     (if serverfd = -1 then Inl 1
      else if \<not> bind_ok then Inl 1
      else if \<not> listen_ok then Inl 1
      else if epollfd = -1 then Inl 1
      else case modifyEpollContext add_ok of Inl e \<Rightarrow> Inl e
        | Inr _ \<Rightarrow> Inr \<lparr>es_clients = Map.empty, es_next = 0, es_sent = (\<lambda>_. [])\<rparr>)"

text \<open>
  What \<open>epoll_wait\<close> reports: for the listening socket with the results of \<open>accept\<close> and what follows, or for a
  client with the results of removing and adding its registration.
\<close>

datatype main_event =
    ServerHup
  | ServerReady int int bool bool
  | ClientReady nat reported bool bool

definition accept_client :: "int \<Rightarrow> int \<Rightarrow> bool \<Rightarrow> bool \<Rightarrow> echo_server \<Rightarrow> int + echo_server" where
  "accept_client connfd flags set_ok add_ok s =
     (if connfd = -1 then Inl 1
      else case makeSocketNonBlocking flags set_ok of Inl e \<Rightarrow> Inl e
        | Inr _ \<Rightarrow> (case modifyEpollContext add_ok of Inl e \<Rightarrow> Inl e
            | Inr _ \<Rightarrow> Inr (s\<lparr>es_clients := (es_clients s)(es_next s \<mapsto> (EpollIn, new_event)), es_next := es_next s + 1\<rparr>)))"

definition serve_client :: "nat \<Rightarrow> reported \<Rightarrow> bool \<Rightarrow> bool \<Rightarrow> echo_server \<Rightarrow> (int + echo_server) option" where
  "serve_client i r del_ok readd_ok s = do {
     (reg, e) \<leftarrow> es_clients s i;
     case (if r = HupOrErr \<or> r = Other then Inr () else modifyEpollContext del_ok) of Inl e \<Rightarrow> Some (Inl e)
     | Inr _ \<Rightarrow> do {
         (x, out) \<leftarrow> connection_event r reg e;
         let s = s\<lparr>es_sent := (es_sent s)(i := es_sent s i @ out)\<rparr>;
         case x of Freed \<Rightarrow> Some (Inr (s\<lparr>es_clients := (es_clients s)(i := None)\<rparr>))
         | Armed reg e \<Rightarrow>
             (case (if r = Other then Inr () else modifyEpollContext readd_ok) of Inl e \<Rightarrow> Some (Inl e)
              | Inr _ \<Rightarrow> Some (Inr (s\<lparr>es_clients := (es_clients s)(i \<mapsto> (reg, e))\<rparr>))) } }"

fun main_step :: "main_event \<Rightarrow> echo_server \<Rightarrow> (int + echo_server) option" where
  "main_step ServerHup s = Some (Inl 1)"
| "main_step (ServerReady fd flags set_ok add_ok) s = Some (accept_client fd flags set_ok add_ok s)"
| "main_step (ClientReady i r del_ok readd_ok) s = serve_client i r del_ok readd_ok s"

text \<open>The events in the order in which the waits report them; \<open>None\<close> is a wait that fails.\<close>

fun main_loop :: "main_event option list \<Rightarrow> echo_server \<Rightarrow> (int + echo_server) option" where
  "main_loop [] s = Some (Inr s)"
| "main_loop (None # es) s = Some (Inl 1)"
| "main_loop (Some e # es) s = do {
     r \<leftarrow> main_step e s;
     case r of Inl x \<Rightarrow> Some (Inl x) | Inr s \<Rightarrow> main_loop es s }"

section \<open>One message\<close>

text \<open>The results of \<open>write\<close>: an error, or so many of the bytes that are left.\<close>

fun writes_ok :: "(int \<times> bool) list \<Rightarrow> int \<Rightarrow> bool" where
  "writes_ok [] n \<longleftrightarrow> n = 0"
| "writes_ok ((ret, eintr) # ws) n \<longleftrightarrow>
     0 < n \<and> (if ret = -1 then writes_ok ws n else 0 \<le> ret \<and> ret \<le> n \<and> writes_ok ws (n - ret))"

lemma take_drop_append: "take n (drop k xs) @ take m (drop (k + n) xs) = take (n + m) (drop k xs)"
  by (simp add: take_add add.commute [of k n])

lemma echo_writes:
  assumes "writes_ok ws (msg_length e)" "ws \<noteq> []" "0 \<le> offset e" "offset e + msg_length e \<le> int MAXLEN"
  shows "\<exists>e'. echo_run (map (\<lambda>(ret, eintr). OnlyOut ret eintr) ws) (Armed EpollOut e) sent =
      Some (Armed EpollIn e', sent @ take (nat (msg_length e)) (drop (nat (offset e)) (data e))) \<and>
    data e' = data e \<and> offset e' = offset e + msg_length e - fst (last ws)"
  using assms
proof (induction ws arbitrary: e sent)
  case (Cons w ws)
  obtain ret eintr where w: "w = (ret, eintr)" by (cases w)
  let ?e = "e\<lparr>ev := Some EpollOut\<rparr>"
  have len: "0 < msg_length e" using Cons.prems(1) by (simp add: w)
  show ?case
  proof (cases "ret = -1")
    case True
    with Cons.prems len have ws: "writes_ok ws (msg_length ?e)" "ws \<noteq> []" by (auto simp: w)
    with Cons.IH [OF ws, of sent] Cons.prems(3,4) len True show ?thesis
      by (auto simp: w connection_event_def handle_write_def)
  next
    case False
    with Cons.prems(1) have r: "0 \<le> ret" "ret \<le> msg_length e" "writes_ok ws (msg_length e - ret)" by (auto simp: w)
    show ?thesis
    proof (cases "ret = msg_length e")
      case True
      with r(3) have "ws = []" by (cases ws) auto
      with True False r Cons.prems(3,4) show ?thesis
        by (auto simp: w connection_event_def handle_write_def)
    next
      case short: False
      let ?e' = "?e\<lparr>msg_length := msg_length e - ret, offset := offset e + ret\<rparr>"
      from r short have ws: "writes_ok ws (msg_length ?e')" "ws \<noteq> []" by auto
      from Cons.IH [OF ws, of "sent @ take (nat ret) (drop (nat (offset e)) (data e))"] Cons.prems(3,4) r
      obtain e' where e': "echo_run (map (\<lambda>(ret, eintr). OnlyOut ret eintr) ws) (Armed EpollOut ?e')
          (sent @ take (nat ret) (drop (nat (offset e)) (data e))) =
          Some (Armed EpollIn e', (sent @ take (nat ret) (drop (nat (offset e)) (data e))) @
            take (nat (msg_length e - ret)) (drop (nat (offset e + ret)) (data e)))"
        "data e' = data e" "offset e' = offset e + msg_length e - fst (last ws)" by auto
      have "take (nat ret) (drop (nat (offset e)) (data e)) @ take (nat (msg_length e - ret)) (drop (nat (offset e + ret)) (data e)) =
          take (nat (msg_length e)) (drop (nat (offset e)) (data e))"
        using take_drop_append [of "nat ret" "nat (offset e)" "data e" "nat (msg_length e - ret)"] r Cons.prems(3)
        by (simp add: nat_add_distrib nat_diff_distrib)
      with e' False short r Cons.prems(3,4) ws(2) show ?thesis
        by (auto simp: w connection_event_def handle_write_def)
    qed
  qed
qed simp

text \<open>
  A message that was read is answered, in any pattern of short and failed writes, by the bytes of
  the array between the offset at that time and the length of the message. With offset 0, as for
  the first message, that is the message itself; but the offset is never reset, and stays at what
  the writes before the last one had sent, so that after a short write every later answer starts in
  the middle of its message and ends with bytes of older messages.
\<close>

theorem echo_message:
  assumes "length (data e) = MAXLEN" "bs \<noteq> []" "CHR 0x00 \<in> set (drop (length bs) (data e))" "0 \<le> offset e"
    "offset e + int (length bs) \<le> int MAXLEN" "writes_ok ws (int (length bs))"
  shows "\<exists>e'. echo_run (OnlyIn (Some bs) # map (\<lambda>(ret, eintr). OnlyOut ret eintr) ws) (Armed EpollIn e) [] =
      Some (Armed EpollIn e', take (length bs) (drop (nat (offset e)) (bs @ drop (length bs) (data e)))) \<and>
    (offset e = 0 \<longrightarrow> take (length bs) (drop (nat (offset e)) (bs @ drop (length bs) (data e))) = bs) \<and>
    offset e' = offset e + int (length bs) - fst (last ws)"
proof -
  let ?e = "e\<lparr>ev := Some EpollIn, data := bs @ drop (length bs) (data e), msg_length := int (length bs)\<rparr>"
  have len: "length bs \<le> MAXLEN" using assms(4,5) by simp
  have ws: "writes_ok ws (msg_length ?e)" "ws \<noteq> []" using assms(2,6) by auto
  from echo_writes [OF ws, of "[]"] assms(4,5) obtain e' where
    "echo_run (map (\<lambda>(ret, eintr). OnlyOut ret eintr) ws) (Armed EpollOut ?e) [] =
      Some (Armed EpollIn e', take (length bs) (drop (nat (offset e)) (bs @ drop (length bs) (data e))))"
    "offset e' = offset e + int (length bs) - fst (last ws)" by auto
  with assms(2,3) len show ?thesis
    by (auto simp: connection_event_def handle_read_def)
qed

lemma echo_message_witness:
  "\<exists>e1 e2. echo_run (OnlyIn (Some ''hello'') # map (\<lambda>(ret, eintr). OnlyOut ret eintr) [(3, False), (-1, True), (2, False)])
       (Armed EpollIn new_event) [] = Some (Armed EpollIn e1, ''hello'') \<and> offset e1 = 3 \<and>
     echo_run (OnlyIn (Some ''world'') # map (\<lambda>(ret, eintr). OnlyOut ret eintr) [(5, False)])
       (Armed EpollIn (new_event\<lparr>data := ''hello'' @ replicate 250 (CHR 0x00), offset := 3\<rparr>)) [] =
     Some (Armed EpollIn e2, ''ld'' @ replicate 3 (CHR 0x00))"
proof -
  have 1: "length (data new_event) = MAXLEN" "offset new_event = 0"
    "CHR 0x00 \<in> set (drop (length ''hello'') (data new_event))" by (simp_all add: new_event_def MAXLEN_def)
  from echo_message [OF 1(1) _ 1(3), of "[(3, False), (-1, True), (2, False)]"] obtain e1 where
    e1: "echo_run (OnlyIn (Some ''hello'') # map (\<lambda>(ret, eintr). OnlyOut ret eintr) [(3, False), (-1, True), (2, False)])
       (Armed EpollIn new_event) [] = Some (Armed EpollIn e1, ''hello'')" "offset e1 = 3"
    by (auto simp: 1(2) MAXLEN_def)
  let ?e = "new_event\<lparr>data := ''hello'' @ replicate 250 (CHR 0x00), offset := 3\<rparr>"
  have 2: "length (data ?e) = MAXLEN" "CHR 0x00 \<in> set (drop (length ''world'') (data ?e))"
    by (simp_all add: MAXLEN_def)
  have out: "take (length ''world'') (drop (nat (offset ?e)) (''world'' @ drop (length ''world'') (data ?e))) =
      ''ld'' @ replicate 3 (CHR 0x00)" by (simp add: numeral_eq_Suc)
  from echo_message [OF 2(1) _ 2(2), of "[(5, False)]"] obtain e2 where
    "echo_run (OnlyIn (Some ''world'') # map (\<lambda>(ret, eintr). OnlyOut ret eintr) [(5, False)]) (Armed EpollIn ?e) [] =
     Some (Armed EpollIn e2, ''ld'' @ replicate 3 (CHR 0x00))"
    unfolding out by (auto simp: MAXLEN_def)
  with e1 show ?thesis by blast
qed


section \<open>Many clients\<close>

text \<open>What has been reported for one client, and what has become of it.\<close>

fun reports :: "nat \<Rightarrow> main_event option list \<Rightarrow> reported list" where
  "reports i [] = []"
| "reports i (Some (ClientReady j r _ _) # es) = (if j = i then r # reports i es else reports i es)"
| "reports i (_ # es) = reports i es"

definition client_state :: "nat \<Rightarrow> echo_server \<Rightarrow> echo_outcome" where
  "client_state i s = (case es_clients s i of None \<Rightarrow> Freed | Some (reg, e) \<Rightarrow> Armed reg e)"

definition echo_inv :: "echo_server \<Rightarrow> bool" where
  "echo_inv s \<longleftrightarrow> (\<forall>i \<ge> es_next s. es_clients s i = None \<and> es_sent s i = [])"

lemma accept_client_Inr:
  assumes "accept_client fd flags set_ok add_ok s = Inr t"
  shows "t = s\<lparr>es_clients := (es_clients s)(es_next s \<mapsto> (EpollIn, new_event)), es_next := es_next s + 1\<rparr>"
  using assms by (auto simp: accept_client_def makeSocketNonBlocking_def modifyEpollContext_def split: if_splits)

lemma serve_client_Inr:
  assumes "serve_client i r d a s = Some (Inr t)"
  obtains reg e out where "es_clients s i = Some (reg, e)" "connection_event r reg e = Some (client_state i t, out)"
    "es_sent t = (es_sent s)(i := es_sent s i @ out)" "es_next t = es_next s"
    "\<And>j. j \<noteq> i \<Longrightarrow> es_clients t j = es_clients s j"
proof -
  from assms obtain reg e where c: "es_clients s i = Some (reg, e)" by (auto simp: serve_client_def split: Option.bind_splits)
  with assms obtain x out where x: "connection_event r reg e = Some (x, out)"
    by (auto simp: serve_client_def modifyEpollContext_def split: Option.bind_splits if_splits)
  from assms c x show ?thesis
    by (cases x; intro that [of reg e out])
      (auto simp: serve_client_def modifyEpollContext_def client_state_def split: if_splits)
qed

lemma main_step_inv:
  assumes "main_step e s = Some (Inr t)" "echo_inv s"
  shows "echo_inv t"
proof (cases e)
  case (ClientReady i r d a)
  with assms(1) have "serve_client i r d a s = Some (Inr t)" by simp
  then show ?thesis
  proof (rule serve_client_Inr)
    fix reg e' out
    assume h: "es_clients s i = Some (reg, e')" "es_sent t = (es_sent s)(i := es_sent s i @ out)" "es_next t = es_next s"
      "\<And>j. j \<noteq> i \<Longrightarrow> es_clients t j = es_clients s j"
    from assms(2) h(1) have "i < es_next s" by (metis echo_inv_def not_le option.distinct(1))
    with assms(2) h(2-4) show ?thesis by (auto simp: echo_inv_def)
  qed
qed (use assms in \<open>auto simp: echo_inv_def dest!: accept_client_Inr\<close>)

text \<open>A client that is known sees only its own events.\<close>

lemma main_loop_known:
  "main_loop es s = Some (Inr t) \<Longrightarrow> i < es_next s \<Longrightarrow>
    echo_run (reports i es) (client_state i s) (es_sent s i) = Some (client_state i t, es_sent t i) \<and> i < es_next t"
proof (induction es arbitrary: s)
  case (Cons e es)
  then obtain ev s1 where ev: "e = Some ev" "main_step ev s = Some (Inr s1)" "main_loop es s1 = Some (Inr t)"
    by (cases e) (auto split: Option.bind_splits sum.splits)
  show ?case
  proof (cases ev)
    case (ServerReady fd flags st ad)
    with ev(2) have "s1 = s\<lparr>es_clients := (es_clients s)(es_next s \<mapsto> (EpollIn, new_event)), es_next := es_next s + 1\<rparr>"
      by (auto dest: accept_client_Inr)
    with Cons.IH [OF ev(3)] Cons.prems(2) ServerReady ev(1) show ?thesis by (simp add: client_state_def)
  next
    case (ClientReady j r d a)
    with ev(2) have "serve_client j r d a s = Some (Inr s1)" by simp
    then show ?thesis
    proof (rule serve_client_Inr)
      fix reg e' out
      assume h: "es_clients s j = Some (reg, e')" "connection_event r reg e' = Some (client_state j s1, out)"
        "es_sent s1 = (es_sent s)(j := es_sent s j @ out)" "es_next s1 = es_next s"
        "\<And>k. k \<noteq> j \<Longrightarrow> es_clients s1 k = es_clients s k"
      from Cons.IH [OF ev(3)] Cons.prems(2) h(4)
      have "echo_run (reports i es) (client_state i s1) (es_sent s1 i) = Some (client_state i t, es_sent t i) \<and> i < es_next t"
        by simp
      with h ClientReady ev(1) show ?thesis by (cases "j = i") (auto simp: client_state_def)
    qed
  qed (use ev in simp)
qed (simp add: client_state_def)

lemma main_loop_new:
  "main_loop es s = Some (Inr t) \<Longrightarrow> echo_inv s \<Longrightarrow> es_next s \<le> i \<Longrightarrow> i < es_next t \<Longrightarrow>
    echo_run (reports i es) (Armed EpollIn new_event) [] = Some (client_state i t, es_sent t i)"
proof (induction es arbitrary: s)
  case (Cons e es)
  then obtain ev s1 where ev: "e = Some ev" "main_step ev s = Some (Inr s1)" "main_loop es s1 = Some (Inr t)"
    by (cases e) (auto split: Option.bind_splits sum.splits)
  note inv = main_step_inv [OF ev(2) Cons.prems(2)]
  show ?case
  proof (cases ev)
    case (ServerReady fd flags st ad)
    with ev(2) have s1: "s1 = s\<lparr>es_clients := (es_clients s)(es_next s \<mapsto> (EpollIn, new_event)), es_next := es_next s + 1\<rparr>"
      by (auto dest: accept_client_Inr)
    show ?thesis
    proof (cases "i = es_next s")
      case True
      with main_loop_known [OF ev(3), of i] s1 ServerReady ev(1) Cons.prems(2) show ?thesis
        by (simp add: client_state_def echo_inv_def)
    next
      case False
      with Cons.IH [OF ev(3) inv] Cons.prems(3,4) s1 ServerReady ev(1) show ?thesis by simp
    qed
  next
    case (ClientReady j r d a)
    with ev(2) have "serve_client j r d a s = Some (Inr s1)" by simp
    then show ?thesis
    proof (rule serve_client_Inr)
      assume h: "es_next s1 = es_next s"
      fix reg e' assume "es_clients s j = Some (reg, e')"
      with Cons.prems(2,3) have "j \<noteq> i" by (auto simp: echo_inv_def)
      with Cons.IH [OF ev(3) inv] Cons.prems(3,4) h ClientReady ev(1) show ?thesis by simp
    qed
  qed (use ev in simp)
qed simp

text \<open>
  C33. The clients of the echo server do not disturb each other: however the events of the clients
  are reported among each other and among new connections, as long as the program runs each client has
  been sent, and its connection has become, what its own events alone give, starting from a
  connection just accepted.
\<close>

theorem echo_clients_independent:
  assumes "echo_setup serverfd bind_ok listen_ok epollfd add_ok = Inr s" "main_loop es s = Some (Inr t)" "i < es_next t"
  shows "echo_run (reports i es) (Armed EpollIn new_event) [] = Some (client_state i t, es_sent t i)"
proof -
  from assms(1) have s: "s = \<lparr>es_clients = Map.empty, es_next = 0, es_sent = (\<lambda>_. [])\<rparr>"
    by (auto simp: echo_setup_def modifyEpollContext_def split: if_splits)
  then have "echo_inv s" by (simp add: echo_inv_def)
  from main_loop_new [OF assms(2) this _ assms(3)] s show ?thesis by simp
qed


lemma echo_clients_independent_witness:
  "\<exists>s t. echo_setup 3 True True 4 True = Inr s \<and>
    main_loop [Some (ServerReady 5 2 True True), Some (ServerReady 6 2 True True),
      Some (ClientReady 0 (OnlyIn (Some ''ab'')) True True), Some (ClientReady 1 HupOrErr True True),
      Some (ClientReady 0 (OnlyOut 2 False) True True)] s = Some (Inr t) \<and>
    es_sent t 0 = ''ab'' \<and>
    echo_run [OnlyIn (Some ''ab''), OnlyOut 2 False] (Armed EpollIn new_event) [] = Some (client_state 0 t, es_sent t 0)"
proof -
  let ?es = "[Some (ServerReady 5 2 True True), Some (ServerReady 6 2 True True),
      Some (ClientReady 0 (OnlyIn (Some ''ab'')) True True), Some (ClientReady 1 HupOrErr True True),
      Some (ClientReady 0 (OnlyOut 2 False) True True)]"
  have z: "CHR 0x00 \<in> set (drop 2 (data new_event))" by (simp add: new_event_def MAXLEN_def)
  let ?s = "\<lparr>es_clients = Map.empty, es_next = 0, es_sent = (\<lambda>_. [])\<rparr>"
  have s: "echo_setup 3 True True 4 True = Inr ?s" by (simp add: echo_setup_def modifyEpollContext_def)
  obtain t where t: "main_loop ?es ?s = Some (Inr t)" "es_next t = 2" "es_sent t 0 = ''ab''"
    using z by (auto simp: accept_client_def makeSocketNonBlocking_def modifyEpollContext_def serve_client_def connection_event_def
      handle_read_def handle_write_def MAXLEN_def new_event_def numeral_eq_Suc)
  from echo_clients_independent [OF s t(1), of 0] t s show ?thesis
    by (intro exI [of _ ?s] exI [of _ t]) simp
qed

end
