(* ===== verification/Epoll_Example.thy ===== *)
theory Epoll_Example
  imports Afina_Prelude
begin

text \<open>
  The edge-triggered example of the course material
  (\<open>materials/05-non-blocking-network/code/epoll-example.c\<close>): a program that prints what its clients send. Results
  of system calls are inputs; \<open>None\<close> is \<open>abort\<close>. Messages to \<open>stderr\<close> and the lines about accepted and closed
  connections are left out of the output.
\<close>

section \<open>Setting up\<close>

text \<open>\<open>make_socket_non_blocking\<close> with the results of its two calls of \<open>fcntl\<close>.\<close>

definition example_non_blocking :: "int \<Rightarrow> int \<Rightarrow> int" where
  "example_non_blocking flags setfl = (if flags = -1 then -1 else if setfl = -1 then -1 else 0)"

text \<open>
  The loop over the addresses: for each the result of \<open>socket\<close> and whether \<open>bind\<close> succeeds. The second
  component is what has been closed.
\<close>

fun bind_loop :: "(int \<times> bool) list \<Rightarrow> int option \<times> int list" where
  "bind_loop [] = (None, [])"
| "bind_loop ((sfd, bound) # as) =
     (if sfd = -1 then bind_loop as
      else if bound then (Some sfd, [])
      else apsnd ((#) sfd) (bind_loop as))"

definition create_and_bind :: "(int \<times> bool) list option \<Rightarrow> int \<times> int list" where
  "create_and_bind addresses = (case addresses of None \<Rightarrow> (-1, [])
     | Some as \<Rightarrow> (case bind_loop as of (None, closed) \<Rightarrow> (-1, closed) | (Some sfd, closed) \<Rightarrow> (sfd, closed)))"

text \<open>The open descriptors that are registered, those that were closed, and standard output.\<close>

record example =
  ex_registered :: "int set"
  ex_closed :: "int list"
  ex_stdout :: string

definition example_setup :: "(int \<times> bool) list option \<Rightarrow> int \<Rightarrow> int \<Rightarrow> int \<Rightarrow> int \<Rightarrow> int \<Rightarrow> (int \<times> example) option" where
  "example_setup addresses flags setfl lst efd ctl =
     (let (sfd, closed) = create_and_bind addresses in
      if sfd = -1 then None
      else if example_non_blocking flags setfl = -1 then None
      else if lst = -1 then None
      else if efd = -1 then None
      else if ctl = -1 then None
      else Some (sfd, \<lparr>ex_registered = {sfd}, ex_closed = closed, ex_stdout = []\<rparr>))"

section \<open>The event loop\<close>

text \<open>
  One \<open>accept\<close> that succeeds: the descriptor, the results of \<open>fcntl\<close> and of \<open>epoll_ctl\<close>. After the last one
  \<open>accept\<close> fails, with any error.
\<close>

fun example_accept :: "(int \<times> int \<times> int \<times> int) list \<Rightarrow> example \<Rightarrow> example option" where
  "example_accept [] s = Some s"
| "example_accept ((infd, flags, setfl, ctl) # as) s =
     (if example_non_blocking flags setfl = -1 then None
      else if ctl = -1 then None
      else example_accept as (s\<lparr>ex_registered := insert infd (ex_registered s)\<rparr>))"

text \<open>The reads of at most 512 bytes with the results of \<open>write\<close>, and how the last \<open>read\<close> ended.\<close>

datatype last_read = Again | ReadFailed | EndOfFile

fun example_read :: "(string \<times> int) list \<Rightarrow> last_read \<Rightarrow> example \<Rightarrow> (bool \<times> example) option" where
  "example_read [] e s = Some (e \<noteq> Again, s)"
| "example_read ((buf, written) # rs) e s =
     (if written = -1 then None
      else example_read rs e (s\<lparr>ex_stdout := ex_stdout s @ take (nat written) buf\<rparr>))"

definition example_close :: "int \<Rightarrow> example \<Rightarrow> example" where
  "example_close fd s = s\<lparr>ex_registered := ex_registered s - {fd}, ex_closed := ex_closed s @ [fd]\<rparr>"

datatype example_calls = Accepts "(int \<times> int \<times> int \<times> int) list" | Reads "(string \<times> int) list" last_read

record example_event =
  xe_fd :: int
  xe_err :: bool
  xe_hup :: bool
  xe_in :: bool
  xe_calls :: example_calls

definition example_handle :: "int \<Rightarrow> example_event \<Rightarrow> example \<Rightarrow> example option" where
  "example_handle sfd ev s =
     (if xe_err ev \<or> xe_hup ev \<or> \<not> xe_in ev then Some (example_close (xe_fd ev) s)
      else if sfd = xe_fd ev then (case xe_calls ev of Accepts as \<Rightarrow> example_accept as s | Reads _ _ \<Rightarrow> Some s)
      else (case xe_calls ev of Accepts _ \<Rightarrow> Some s
        | Reads rs e \<Rightarrow> do {
            (finished, s) \<leftarrow> example_read rs e s;
            Some (if finished then example_close (xe_fd ev) s else s) }))"

text \<open>The events of all waits in order; a wait that fails brings none.\<close>

fun example_loop :: "int \<Rightarrow> example_event list \<Rightarrow> example \<Rightarrow> example option" where
  "example_loop sfd [] s = Some s"
| "example_loop sfd (ev # evs) s = do { s \<leftarrow> example_handle sfd ev s; example_loop sfd evs s }"

section \<open>What is printed\<close>

text \<open>The bytes that an event takes from its socket.\<close>

definition bytes_read :: "int \<Rightarrow> example_event \<Rightarrow> (string \<times> int) list" where
  "bytes_read sfd ev = (case xe_calls ev of
      Reads rs e \<Rightarrow> if xe_err ev \<or> xe_hup ev \<or> \<not> xe_in ev \<or> sfd = xe_fd ev then [] else rs
    | Accepts _ \<Rightarrow> [])"

definition printed :: "(string \<times> int) list \<Rightarrow> string" where
  "printed rs = concat (map (\<lambda>(buf, written). take (nat written) buf) rs)"

lemma example_read_stdout: "example_read rs e s = Some (b, t) \<Longrightarrow>
    t = s\<lparr>ex_stdout := ex_stdout s @ printed rs\<rparr> \<and> (b \<longleftrightarrow> e \<noteq> Again)"
proof (induction rs arbitrary: s)
  case (Cons r rs)
  obtain buf written where r: "r = (buf, written)" by (cases r)
  with Cons.prems have "example_read rs e (s\<lparr>ex_stdout := ex_stdout s @ take (nat written) buf\<rparr>) = Some (b, t)"
    by (simp split: if_splits)
  from Cons.IH [OF this] r show ?case by (simp add: printed_def)
qed (auto simp: printed_def)

lemma example_accept_registered: "example_accept as s = Some t \<Longrightarrow>
    t = s\<lparr>ex_registered := ex_registered s \<union> fst ` set as\<rparr>"
proof (induction as arbitrary: s)
  case (Cons a as)
  obtain fd flags setfl ctl where a: "a = (fd, flags, setfl, ctl)" by (cases a)
  with Cons.prems have "example_accept as (s\<lparr>ex_registered := insert fd (ex_registered s)\<rparr>) = Some t"
    by (simp split: if_splits)
  from Cons.IH [OF this] a show ?case by simp
qed simp

lemma example_handle_stdout:
  "example_handle sfd ev s = Some t \<Longrightarrow> ex_stdout t = ex_stdout s @ printed (bytes_read sfd ev)"
  by (cases "xe_calls ev")
    (auto simp: example_handle_def example_close_def bytes_read_def printed_def split: if_splits Option.bind_splits
      dest!: example_accept_registered dest: example_read_stdout [unfolded printed_def])

text \<open>
  The output is what \<open>write\<close> took of the bytes read, in their order; nothing retries the rest of a
  short write, so that with any short write bytes are lost.
\<close>

theorem example_output:
  assumes "example_loop sfd evs s = Some t"
  shows "ex_stdout t = ex_stdout s @ printed (concat (map (bytes_read sfd) evs)) \<and>
    ((\<forall>ev \<in> set evs. \<forall>(buf, written) \<in> set (bytes_read sfd ev). int (length buf) \<le> written) \<longrightarrow>
      ex_stdout t = ex_stdout s @ concat (map fst (concat (map (bytes_read sfd) evs))))"
proof -
  have out: "ex_stdout t = ex_stdout s @ printed (concat (map (bytes_read sfd) evs))"
    using assms
  proof (induction evs arbitrary: s)
    case (Cons ev evs)
    then obtain s1 where "example_handle sfd ev s = Some s1" "example_loop sfd evs s1 = Some t"
      by (auto split: Option.bind_splits)
    with Cons.IH [OF this(2)] example_handle_stdout [OF this(1)] show ?case by (simp add: printed_def)
  qed (simp add: printed_def)
  have all: "printed rs = concat (map fst rs)" if "\<forall>(buf, written) \<in> set rs. int (length buf) \<le> written" for rs
    using that by (induction rs) (auto simp: printed_def)
  show ?thesis using out all [of "concat (map (bytes_read sfd) evs)"] by auto
qed

text \<open>
  An error on the listening socket closes it like a client's: the program goes on without ever
  accepting again, unless \<open>accept\<close> itself returned that descriptor, which needs the socket.
\<close>

lemma example_loses_listener:
  assumes "example_loop sfd evs s = Some t" "sfd \<notin> ex_registered s" "\<forall>ev \<in> set evs. xe_fd ev \<noteq> sfd"
  shows "ex_registered t \<subseteq> ex_registered s"
  using assms
proof (induction evs arbitrary: s)
  case (Cons ev evs)
  then obtain s1 where s1: "example_handle sfd ev s = Some s1" "example_loop sfd evs s1 = Some t"
    by (auto split: Option.bind_splits)
  have "ex_registered s1 \<subseteq> ex_registered s"
    using s1(1) Cons.prems(3)
    by (cases "xe_calls ev") (auto simp: example_handle_def example_close_def split: if_splits Option.bind_splits
        dest!: example_read_stdout)
  with Cons.IH [OF s1(2)] Cons.prems(2,3) show ?case by auto
qed simp

end
