(* ===== verification/Shared_Mutex.thy ===== *)
theory Shared_Mutex
  imports Transition_Systems
begin

text \<open>
  The readers-writer mutex of the course material
  (\<open>materials/09-advanced-synchronization/code/shared_mutex.h\<close>, \<open>shared_mutex.cpp\<close>): its state word
  with the bit of the writer and the number of readers, one definition per critical section, the
  two condition variables with their sleeping threads, and the mutual exclusion it is for.
\<close>

unbundle bit_operations_syntax

section \<open>The state word\<close>

definition write_entered :: u32 where
  "write_entered = push_bit 31 1"

definition n_readers :: u32 where
  "n_readers = NOT write_entered"

text \<open>The first half of \<open>lock\<close>: \<open>None\<close> as long as a writer has entered; its second half waits.\<close>

definition lock_enter :: "u32 \<Rightarrow> u32 option" where
  "lock_enter state = (if state AND write_entered \<noteq> 0 then None else Some (state OR write_entered))"

definition drained :: "u32 \<Rightarrow> bool" where
  "drained state \<longleftrightarrow> state AND n_readers = 0"

text \<open>\<open>try_lock\<close> when it gets the inner mutex.\<close>

definition try_lock_state :: "u32 \<Rightarrow> u32 option" where
  "try_lock_state state = (if state = 0 then Some write_entered else None)"

definition unlock_state :: "u32 \<Rightarrow> u32" where
  "unlock_state state = 0"

definition lock_shared_state :: "u32 \<Rightarrow> u32 option" where
  "lock_shared_state state =
     (if state AND write_entered \<noteq> 0 \<or> state AND n_readers = n_readers then None
      else (let num_readers = (state AND n_readers) + 1
            in Some ((state AND NOT n_readers) OR num_readers)))"

definition try_lock_shared_state :: "u32 \<Rightarrow> u32 option" where
  "try_lock_shared_state state =
     (let num_readers = state AND n_readers
      in if state AND write_entered = 0 \<and> num_readers \<noteq> n_readers
         then Some ((state AND NOT n_readers) OR (num_readers + 1)) else None)"

datatype notification = NotifyNone | NotifyGate1 | NotifyGate2

definition unlock_shared_state :: "u32 \<Rightarrow> u32 \<times> notification" where
  "unlock_shared_state state =
     (let num_readers = (state AND n_readers) - 1;
          state = (state AND NOT n_readers) OR num_readers
      in (state, if state AND write_entered \<noteq> 0 then (if num_readers = 0 then NotifyGate2 else NotifyNone)
                 else (if num_readers = n_readers - 1 then NotifyGate1 else NotifyNone)))"

section \<open>Threads\<close>

text \<open>
  A thread is outside, about to test the condition of \<open>gate1_\<close> or asleep on it (as a writer or as a
  reader), about to test that of \<open>gate2_\<close> or asleep on it, inside as a writer or as a reader, or
  between the critical section of \<open>unlock\<close> and its notification.
\<close>

datatype mutex_pc = Outside | WantWrite | SleepWrite | Draining | SleepDrain | Writing | Notifying
  | WantRead | SleepRead | Reading

record mutex_system =
  m_state :: u32
  pcs :: "mutex_pc list"

fun wake_gate1 :: "mutex_pc \<Rightarrow> mutex_pc" where
  "wake_gate1 SleepWrite = WantWrite"
| "wake_gate1 SleepRead = WantRead"
| "wake_gate1 p = p"

fun wake_gate2 :: "mutex_pc \<Rightarrow> mutex_pc" where
  "wake_gate2 SleepDrain = Draining"
| "wake_gate2 p = p"

text \<open>\<open>notify_one\<close> wakes some sleeping thread, if there is one.\<close>

definition wakes_one :: "(mutex_pc \<Rightarrow> mutex_pc) \<Rightarrow> mutex_pc list \<Rightarrow> mutex_pc list \<Rightarrow> bool" where
  "wakes_one wake ps ps' \<longleftrightarrow>
     (if \<forall>p \<in> set ps. wake p = p then ps' = ps
      else \<exists>j < length ps. wake (ps ! j) \<noteq> ps ! j \<and> ps' = ps[j := wake (ps ! j)])"

definition after_notification :: "notification \<Rightarrow> mutex_pc list \<Rightarrow> mutex_pc list \<Rightarrow> bool" where
  "after_notification n ps ps' = (case n of NotifyNone \<Rightarrow> ps' = ps
     | NotifyGate1 \<Rightarrow> wakes_one wake_gate1 ps ps' | NotifyGate2 \<Rightarrow> wakes_one wake_gate2 ps ps')"

text \<open>
  What thread \<open>i\<close> does next. A wait may end without a notification. Only a thread that holds the
  mutex unlocks it. The \<open>try_\<close> functions are steps when they succeed; a failed one changes nothing.
  (\<open>try_lock_shared\<close> reads the state before it asks whether it got the inner mutex: when it did not,
  the value it read without the mutex is not used.)
\<close>

inductive mutex_step :: "nat \<Rightarrow> mutex_system \<Rightarrow> mutex_system \<Rightarrow> bool" where
  call_lock: "i < length (pcs s) \<Longrightarrow> pcs s ! i = Outside \<Longrightarrow> p = WantWrite \<or> p = WantRead \<Longrightarrow>
    mutex_step i s (s\<lparr>pcs := (pcs s)[i := p]\<rparr>)"
| lock_gate1: "i < length (pcs s) \<Longrightarrow> pcs s ! i = WantWrite \<Longrightarrow> lock_enter (m_state s) = None \<Longrightarrow>
    mutex_step i s (s\<lparr>pcs := (pcs s)[i := SleepWrite]\<rparr>)"
| lock_entered: "i < length (pcs s) \<Longrightarrow> pcs s ! i = WantWrite \<Longrightarrow> lock_enter (m_state s) = Some st \<Longrightarrow>
    mutex_step i s (s\<lparr>m_state := st, pcs := (pcs s)[i := if drained st then Writing else SleepDrain]\<rparr>)"
| lock_gate2: "i < length (pcs s) \<Longrightarrow> pcs s ! i = Draining \<Longrightarrow>
    mutex_step i s (s\<lparr>pcs := (pcs s)[i := if drained (m_state s) then Writing else SleepDrain]\<rparr>)"
| try_lock: "i < length (pcs s) \<Longrightarrow> pcs s ! i = Outside \<Longrightarrow> try_lock_state (m_state s) = Some st \<Longrightarrow>
    mutex_step i s (s\<lparr>m_state := st, pcs := (pcs s)[i := Writing]\<rparr>)"
| unlock: "i < length (pcs s) \<Longrightarrow> pcs s ! i = Writing \<Longrightarrow>
    mutex_step i s (s\<lparr>m_state := unlock_state (m_state s), pcs := (pcs s)[i := Notifying]\<rparr>)"
| unlock_notify: "i < length (pcs s) \<Longrightarrow> pcs s ! i = Notifying \<Longrightarrow>
    mutex_step i s (s\<lparr>pcs := map wake_gate1 ((pcs s)[i := Outside])\<rparr>)"
| shared_gate1: "i < length (pcs s) \<Longrightarrow> pcs s ! i = WantRead \<Longrightarrow> lock_shared_state (m_state s) = None \<Longrightarrow>
    mutex_step i s (s\<lparr>pcs := (pcs s)[i := SleepRead]\<rparr>)"
| shared_entered: "i < length (pcs s) \<Longrightarrow> pcs s ! i = WantRead \<Longrightarrow> lock_shared_state (m_state s) = Some st \<Longrightarrow>
    mutex_step i s (s\<lparr>m_state := st, pcs := (pcs s)[i := Reading]\<rparr>)"
| try_shared: "i < length (pcs s) \<Longrightarrow> pcs s ! i = Outside \<Longrightarrow> try_lock_shared_state (m_state s) = Some st \<Longrightarrow>
    mutex_step i s (s\<lparr>m_state := st, pcs := (pcs s)[i := Reading]\<rparr>)"
| unlock_shared: "i < length (pcs s) \<Longrightarrow> pcs s ! i = Reading \<Longrightarrow> unlock_shared_state (m_state s) = (st, n) \<Longrightarrow>
    after_notification n ((pcs s)[i := Outside]) ps \<Longrightarrow> mutex_step i s (s\<lparr>m_state := st, pcs := ps\<rparr>)"
| spurious: "i < length (pcs s) \<Longrightarrow> p = wake_gate1 (pcs s ! i) \<or> p = wake_gate2 (pcs s ! i) \<Longrightarrow>
    mutex_step i s (s\<lparr>pcs := (pcs s)[i := p]\<rparr>)"

definition any_step :: "mutex_system \<Rightarrow> mutex_system \<Rightarrow> bool" where
  "any_step s s' \<longleftrightarrow> (\<exists>i < length (pcs s). mutex_step i s s')"

abbreviation mutex_reachable :: "nat \<Rightarrow> mutex_system \<Rightarrow> bool" where
  "mutex_reachable threads \<equiv> reaches any_step \<lparr>m_state = 0, pcs = replicate threads Outside\<rparr>"

section \<open>The state word counts\<close>

definition enc :: "bool \<Rightarrow> nat \<Rightarrow> u32" where
  "enc w r = (if w then write_entered else 0) OR of_nat r"

lemma bit_small: "r < 2 ^ 31 \<Longrightarrow> bit (of_nat r :: u32) n \<longleftrightarrow> n < 31 \<and> bit r n"
proof -
  assume "r < 2 ^ 31"
  then have "take_bit 31 r = r" by (simp add: take_bit_nat_eq_self)
  then have "bit r n \<Longrightarrow> n < 31" by (metis bit_take_bit_iff)
  then show ?thesis by (auto simp: bit_simps)
qed

lemma bit_write_entered: "bit write_entered n \<longleftrightarrow> n = 31"
  unfolding write_entered_def bit_push_bit_iff bit_1_iff by auto

lemma bit_n_readers: "bit n_readers n \<longleftrightarrow> n < 31"
  by (auto simp: n_readers_def bit_simps bit_write_entered)

lemma enc_parts:
  assumes "r < 2 ^ 31"
  shows "enc w r AND write_entered = (if w then write_entered else 0)" "enc w r AND n_readers = of_nat r"
    "enc w r OR write_entered = enc True r" "(enc w r AND NOT n_readers) = (if w then write_entered else 0)"
proof -
  have small: "bit (of_nat r :: u32) n \<longleftrightarrow> n < 31 \<and> bit r n" for n by (rule bit_small [OF assms])
  show "enc w r AND write_entered = (if w then write_entered else 0)" "enc w r AND n_readers = of_nat r"
    "enc w r OR write_entered = enc True r" "(enc w r AND NOT n_readers) = (if w then write_entered else 0)"
    by (rule bit_word_eqI;
        auto simp: enc_def bit_and_iff bit_or_iff bit_not_iff bit_write_entered bit_n_readers small)+
qed

lemma write_entered_nonzero: "write_entered \<noteq> 0"
  using bit_write_entered [of 31] by auto

lemma n_readers_value: "n_readers = of_nat (2 ^ 31 - 1)"
  by (simp add: n_readers_def write_entered_def)

lemma of_nat_u32_inj: "a < 2 ^ 32 \<Longrightarrow> b < 2 ^ 32 \<Longrightarrow> (of_nat a :: u32) = of_nat b \<longleftrightarrow> a = b"
  by (metis u32_of_nat)

lemma of_nat_zero_u32: "r < 2 ^ 31 \<Longrightarrow> (of_nat r :: u32) = 0 \<longleftrightarrow> r = 0"
  using of_nat_u32_inj [of r 0] by simp

lemma enc_eq_0: "r < 2 ^ 31 \<Longrightarrow> enc w r = 0 \<longleftrightarrow> \<not> w \<and> r = 0"
proof -
  assume r: "r < 2 ^ 31"
  have "enc w r = 0 \<Longrightarrow> \<not> w \<and> r = 0"
    using enc_parts(1,2) [OF r, of w] write_entered_nonzero of_nat_zero_u32 [OF r] by (auto split: if_splits)
  then show ?thesis by (auto simp: enc_def)
qed

lemma enc_plus: "(if w then write_entered else 0) OR of_nat r = enc w r"
  by (simp add: enc_def)

lemma state_ops:
  assumes small: "r < 2 ^ 31 - 1"
  shows "lock_enter (enc w r) = (if w then None else Some (enc True r))"
  "drained (enc w r) \<longleftrightarrow> r = 0"
  "try_lock_state (enc w r) = (if \<not> w \<and> r = 0 then Some (enc True 0) else None)"
  "lock_shared_state (enc w r) = (if w then None else Some (enc False (Suc r)))"
  "try_lock_shared_state (enc w r) = (if w then None else Some (enc False (Suc r)))"
proof -
  have r31: "r < 2 ^ 31" using small by simp
  note parts = enc_parts [OF r31]
  have max: "(of_nat r :: u32) \<noteq> n_readers" using small unfolding n_readers_value by (subst of_nat_u32_inj) auto
  have suc: "of_nat r + 1 = (of_nat (Suc r) :: u32)" by simp
  show "lock_enter (enc w r) = (if w then None else Some (enc True r))"
    by (simp add: lock_enter_def parts write_entered_nonzero)
  show "drained (enc w r) \<longleftrightarrow> r = 0" by (simp add: drained_def parts of_nat_zero_u32 [OF r31])
  show "try_lock_state (enc w r) = (if \<not> w \<and> r = 0 then Some (enc True 0) else None)"
    by (simp add: try_lock_state_def enc_eq_0 [OF r31]) (simp add: enc_def)
  show "lock_shared_state (enc w r) = (if w then None else Some (enc False (Suc r)))"
    using enc_plus [of False "Suc r"] by (simp add: lock_shared_state_def parts write_entered_nonzero max suc Let_def)
  show "try_lock_shared_state (enc w r) = (if w then None else Some (enc False (Suc r)))"
    using enc_plus [of False "Suc r"] by (simp add: try_lock_shared_state_def parts write_entered_nonzero max suc Let_def)
qed

lemma unlock_shared_op:
  assumes small: "r < 2 ^ 31 - 1" and "0 < r"
  shows "unlock_shared_state (enc w r) = (enc w (r - 1),
    if w then (if r = 1 then NotifyGate2 else NotifyNone) else NotifyNone)"
proof -
  have r31: "r < 2 ^ 31" using small by simp
  note parts = enc_parts [OF r31]
  have pred: "(of_nat r - 1 :: u32) = of_nat (r - 1)" using assms(2) by (cases r) auto
  have r1: "r - 1 < 2 ^ 31" using r31 by simp
  have zero: "(of_nat (r - 1) :: u32) = 0 \<longleftrightarrow> r = 1" unfolding of_nat_zero_u32 [OF r1] using assms(2) by auto
  have max: "(of_nat (r - 1) :: u32) \<noteq> n_readers - 1"
  proof -
    have "n_readers - 1 = of_nat (2 ^ 31 - 2)" by (simp add: n_readers_value)
    moreover have "(of_nat (r - 1) :: u32) \<noteq> of_nat (2 ^ 31 - 2)"
      using small assms(2) by (subst of_nat_u32_inj) auto
    ultimately show ?thesis by metis
  qed
  show ?thesis
    unfolding unlock_shared_state_def Let_def parts pred enc_plus enc_parts(1) [OF r1]
    using max zero write_entered_nonzero by (cases w) (simp_all del: of_nat_diff)
qed

section \<open>The invariant\<close>

definition count_pc :: "mutex_pc set \<Rightarrow> mutex_pc list \<Rightarrow> nat" where
  "count_pc P ps = count_if (\<lambda>p. p \<in> P) ps"

lemma count_pc_update:
  "i < length ps \<Longrightarrow> count_pc P (ps[i := q]) + (if ps ! i \<in> P then 1 else 0) = count_pc P ps + (if q \<in> P then 1 else 0)"
  unfolding count_pc_def by (rule count_if_update)

lemma count_pc_zero: "count_pc P ps = 0 \<longleftrightarrow> set ps \<inter> P = {}"
  by (auto simp: count_pc_def count_if_def filter_empty_conv)

lemma count_pc_map: "count_pc P (map f ps) = count_pc (f -` P) ps"
  by (induction ps) (simp_all add: count_pc_def)

lemma count_pc_le: "count_pc P ps \<le> length ps"
  by (simp add: count_pc_def count_if_def)

text \<open>
  The word is the encoding of the entered writer and the number of readers; a writer inside
  excludes readers; who sleeps on \<open>gate2_\<close> waits for a reader, and who sleeps on \<open>gate1_\<close> for a
  writer or for a notification that is still to come.
\<close>

definition mutex_inv :: "mutex_system \<Rightarrow> bool" where
  "mutex_inv s \<longleftrightarrow>
     (let W = count_pc {Draining, SleepDrain, Writing} (pcs s); R = count_pc {Reading} (pcs s) in
      length (pcs s) < 2 ^ 31 - 1 \<and> W \<le> 1 \<and> m_state s = enc (W = 1) R \<and>
      (count_pc {Writing} (pcs s) > 0 \<longrightarrow> R = 0) \<and>
      (count_pc {SleepDrain} (pcs s) > 0 \<longrightarrow> R > 0) \<and>
      (count_pc {SleepWrite, SleepRead} (pcs s) > 0 \<longrightarrow> W = 1 \<or> count_pc {Notifying} (pcs s) > 0))"

lemmas updates =
  count_pc_update [of _ _ "{Draining, SleepDrain, Writing}"] count_pc_update [of _ _ "{Reading}"]
  count_pc_update [of _ _ "{Writing}"] count_pc_update [of _ _ "{SleepDrain}"]
  count_pc_update [of _ _ "{SleepWrite, SleepRead}"] count_pc_update [of _ _ "{Notifying}"]

lemma count_pc_mono: "P \<subseteq> Q \<Longrightarrow> count_pc P ps \<le> count_pc Q ps"
  unfolding count_pc_def by (rule count_if_mono) auto

lemma writing_le: "count_pc {Writing} ps \<le> count_pc {Draining, SleepDrain, Writing} ps"
  "count_pc {SleepDrain} ps \<le> count_pc {Draining, SleepDrain, Writing} ps"
  by (rule count_pc_mono; auto)+

lemma mutex_invD:
  assumes "mutex_inv s"
  shows "length (pcs s) < 2 ^ 31 - 1" "count_pc {Draining, SleepDrain, Writing} (pcs s) \<le> 1"
    "m_state s = enc (count_pc {Draining, SleepDrain, Writing} (pcs s) = 1) (count_pc {Reading} (pcs s))"
    "count_pc {Writing} (pcs s) > 0 \<Longrightarrow> count_pc {Reading} (pcs s) = 0"
    "count_pc {SleepDrain} (pcs s) > 0 \<Longrightarrow> count_pc {Reading} (pcs s) > 0"
    "count_pc {SleepWrite, SleepRead} (pcs s) > 0 \<Longrightarrow>
      count_pc {Draining, SleepDrain, Writing} (pcs s) = 1 \<or> count_pc {Notifying} (pcs s) > 0"
    "count_pc {Reading} (pcs s) < 2 ^ 31 - 1"
  using assms count_pc_le [of "{Reading}" "pcs s"] unfolding mutex_inv_def Let_def by auto

lemma mutex_invI:
  assumes "length (pcs s) < 2 ^ 31 - 1" "W = count_pc {Draining, SleepDrain, Writing} (pcs s)" "R = count_pc {Reading} (pcs s)"
    "W \<le> 1" "m_state s = enc (W = 1) R"
    "count_pc {Writing} (pcs s) > 0 \<Longrightarrow> R = 0" "count_pc {SleepDrain} (pcs s) > 0 \<Longrightarrow> R > 0"
    "count_pc {SleepWrite, SleepRead} (pcs s) > 0 \<Longrightarrow> W = 1 \<or> count_pc {Notifying} (pcs s) > 0"
  shows "mutex_inv s"
  using assms unfolding mutex_inv_def Let_def by auto

text \<open>One thread changes its place; the six counts before and after.\<close>

lemma mutex_inv_move:
  assumes inv: "mutex_inv s" and i: "i < length (pcs s)" "pcs s ! i = p" and st: "st = enc w R"
    and W: "(if w then 1 else 0) + (if p \<in> {Draining, SleepDrain, Writing} then 1 else 0) =
      count_pc {Draining, SleepDrain, Writing} (pcs s) + (if q \<in> {Draining, SleepDrain, Writing} then 1 else 0)"
    and R: "R + (if p = Reading then 1 else 0) = count_pc {Reading} (pcs s) + (if q = Reading then 1 else 0)"
    and wr: "q = Writing \<or> (p \<noteq> Writing \<and> count_pc {Writing} (pcs s) > 0) \<Longrightarrow> R = 0"
    and dr: "q = SleepDrain \<or> (p \<noteq> SleepDrain \<and> count_pc {SleepDrain} (pcs s) > 0) \<Longrightarrow> R > 0"
    and sl: "q = SleepWrite \<or> q = SleepRead \<or> count_pc {SleepWrite, SleepRead} (pcs s) > 0 \<Longrightarrow>
      w \<or> q = Notifying \<or> (p \<noteq> Notifying \<and> count_pc {Notifying} (pcs s) > 0)"
  shows "mutex_inv (s\<lparr>m_state := st, pcs := (pcs s)[i := q]\<rparr>)"
proof -
  note u = updates [OF i(1), of q, unfolded i(2)]
  have w: "count_pc {Draining, SleepDrain, Writing} ((pcs s)[i := q]) = (if w then 1 else 0)" using u(1) W by auto
  have r: "count_pc {Reading} ((pcs s)[i := q]) = R" using u(2) R by simp
  have pos: "p \<in> P \<Longrightarrow> count_pc P (pcs s) > 0" for P
    unfolding count_pc_def using i by (auto intro: count_if_pos)
  show ?thesis
  proof (rule mutex_invI [where W = "if w then 1 else 0" and R = R])
    assume "count_pc {Writing} (pcs (s\<lparr>m_state := st, pcs := (pcs s)[i := q]\<rparr>)) > 0"
    then have c: "count_pc {Writing} ((pcs s)[i := q]) > 0" by simp
    show "R = 0"
    proof (cases "q = Writing")
      case False
      with c u(3) have "count_pc {Writing} (pcs s) > (if p = Writing then 1 else 0)" by auto
      moreover have "count_pc {Writing} (pcs s) \<le> 1" using writing_le(1) [of "pcs s"] mutex_invD(2) [OF inv] by simp
      ultimately show ?thesis using wr by (auto split: if_splits)
    qed (use wr in simp)
  next
    assume "count_pc {SleepDrain} (pcs (s\<lparr>m_state := st, pcs := (pcs s)[i := q]\<rparr>)) > 0"
    then have c: "count_pc {SleepDrain} ((pcs s)[i := q]) > 0" by simp
    show "R > 0"
    proof (cases "q = SleepDrain")
      case False
      with c u(4) have "count_pc {SleepDrain} (pcs s) > (if p = SleepDrain then 1 else 0)" by auto
      moreover have "count_pc {SleepDrain} (pcs s) \<le> 1" using writing_le(2) [of "pcs s"] mutex_invD(2) [OF inv] by simp
      ultimately show ?thesis using dr by (auto split: if_splits)
    qed (use dr in simp)
  next
    assume "count_pc {SleepWrite, SleepRead} (pcs (s\<lparr>m_state := st, pcs := (pcs s)[i := q]\<rparr>)) > 0"
    then have "q = SleepWrite \<or> q = SleepRead \<or> count_pc {SleepWrite, SleepRead} (pcs s) > 0" using u(5) by (auto split: if_splits)
    from sl [OF this] u(6) pos [of "{Notifying}"] show "(if w then 1 else 0) = (1 :: nat) \<or> count_pc {Notifying} (pcs (s\<lparr>m_state := st, pcs := (pcs s)[i := q]\<rparr>)) > 0"
      by (auto split: if_splits)
  qed (use w r st mutex_invD(1) [OF inv] in simp_all)
qed

lemma mutex_inv_wake:
  assumes inv: "mutex_inv s" and i: "i < length (pcs s)" and q: "q = wake_gate1 (pcs s ! i) \<or> q = wake_gate2 (pcs s ! i)"
  shows "mutex_inv (s\<lparr>pcs := (pcs s)[i := q]\<rparr>)"
proof (cases "q = pcs s ! i")
  case True
  with inv i show ?thesis by simp
next
  case False
  with q consider "pcs s ! i = SleepWrite" "q = WantWrite" | "pcs s ! i = SleepRead" "q = WantRead"
    | "pcs s ! i = SleepDrain" "q = Draining"
    by (cases "pcs s ! i") auto
  then have "mutex_inv (s\<lparr>m_state := m_state s, pcs := (pcs s)[i := q]\<rparr>)"
  proof cases
    case 1
    show ?thesis
      by (rule mutex_inv_move [OF inv i 1(1) mutex_invD(3) [OF inv]]) (use mutex_invD [OF inv] 1 in auto)
  next
    case 2
    show ?thesis
      by (rule mutex_inv_move [OF inv i 2(1) mutex_invD(3) [OF inv]]) (use mutex_invD [OF inv] 2 in auto)
  next
    case 3
    show ?thesis
      by (rule mutex_inv_move [OF inv i 3(1) mutex_invD(3) [OF inv]]) (use mutex_invD [OF inv] 3 in auto)
  qed
  then show ?thesis by simp
qed

lemma mutex_inv_notify_all:
  assumes inv: "mutex_inv s" and i: "i < length (pcs s)" "pcs s ! i = Notifying"
  shows "mutex_inv (s\<lparr>pcs := map wake_gate1 ((pcs s)[i := Outside])\<rparr>)"
proof -
  have v: "wake_gate1 -` {Draining, SleepDrain, Writing} = {Draining, SleepDrain, Writing}"
    "wake_gate1 -` {Reading} = {Reading}" "wake_gate1 -` {Writing} = {Writing}" "wake_gate1 -` {SleepDrain} = {SleepDrain}"
    "wake_gate1 -` {SleepWrite, SleepRead} = {}"
    by (auto elim: wake_gate1.elims)
  note u = updates [OF i(1), of Outside, unfolded i(2)]
  have e: "count_pc {} ps = 0" for ps by (simp add: count_pc_zero)
  show ?thesis
    by (rule mutex_invI [OF _ refl refl]) (use mutex_invD [OF inv] u in \<open>simp_all add: count_pc_map v e\<close>)
qed

lemma wakes_one_cases:
  assumes "wakes_one wake ps ps'"
  obtains "\<forall>p \<in> set ps. wake p = p" "ps' = ps"
    | j where "j < length ps" "wake (ps ! j) \<noteq> ps ! j" "ps' = ps[j := wake (ps ! j)]"
  using assms by (auto simp: wakes_one_def split: if_splits)

lemma mutex_inv_unlock_shared:
  assumes inv: "mutex_inv s" and i: "i < length (pcs s)" "pcs s ! i = Reading"
    and op: "unlock_shared_state (m_state s) = (st, n)" and after: "after_notification n ((pcs s)[i := Outside]) ps"
  shows "mutex_inv (s\<lparr>m_state := st, pcs := ps\<rparr>)"
proof -
  let ?W = "count_pc {Draining, SleepDrain, Writing} (pcs s)" and ?R = "count_pc {Reading} (pcs s)"
  have R: "0 < ?R" unfolding count_pc_def using i by (auto intro: count_if_pos)
  have ro: "mutex_inv t \<Longrightarrow> pcs t ! i = Reading \<Longrightarrow> length (pcs t) = length (pcs s) \<Longrightarrow> count_pc {Reading} (pcs t) = ?R \<Longrightarrow>
      count_pc {Draining, SleepDrain, Writing} (pcs t) = ?W \<Longrightarrow> (count_pc {SleepDrain} (pcs t) > 0 \<Longrightarrow> ?R > 1) \<Longrightarrow>
      mutex_inv (t\<lparr>m_state := enc (?W = 1) (?R - 1), pcs := (pcs t)[i := Outside]\<rparr>)" for t
    by (rule mutex_inv_move [where w = "?W = 1" and R = "?R - 1" and p = Reading])
      (use i R mutex_invD [OF inv] mutex_invD(4,6) [of t] in auto)
  from op have st: "st = enc (?W = 1) (?R - 1)" "n = (if ?W = 1 \<and> ?R = 1 then NotifyGate2 else NotifyNone)"
    unfolding mutex_invD(3) [OF inv] unlock_shared_op [OF mutex_invD(7) [OF inv] R] by (auto split: if_splits)
  show ?thesis
  proof (cases "?W = 1 \<and> ?R = 1 \<and> SleepDrain \<in> set (pcs s)")
    case False
    have "count_pc {SleepDrain} (pcs s) > 0 \<Longrightarrow> ?R > 1"
    proof -
      assume pos: "count_pc {SleepDrain} (pcs s) > 0"
      then have "SleepDrain \<in> set (pcs s)" using count_pc_zero [of "{SleepDrain}" "pcs s"] by auto
      moreover have "?W = 1" using pos writing_le(2) [of "pcs s"] mutex_invD(2) [OF inv] by simp
      ultimately show "?R > 1" using False R by auto
    qed
    from ro [OF inv i(2) refl refl refl this] have "mutex_inv (s\<lparr>m_state := st, pcs := (pcs s)[i := Outside]\<rparr>)"
      using st(1) by simp
    moreover have "ps = (pcs s)[i := Outside]"
    proof (cases "?W = 1 \<and> ?R = 1")
      case True
      with False have no: "SleepDrain \<notin> set (pcs s)" by simp
      have "wake_gate2 p = p" if "p \<in> set ((pcs s)[i := Outside])" for p
      proof -
        from that set_update_subset_insert [of "pcs s" i Outside] have "p \<in> insert Outside (set (pcs s))" by blast
        with no show ?thesis by (cases p) auto
      qed
      with after st(2) True show ?thesis by (simp add: after_notification_def wakes_one_def)
    qed (use after st(2) in \<open>auto simp: after_notification_def\<close>)
    ultimately show ?thesis by simp
  next
    case True
    with st(2) after have one: "wakes_one wake_gate2 ((pcs s)[i := Outside]) ps" by (simp add: after_notification_def)
    from True obtain k where k: "k < length (pcs s)" "pcs s ! k = SleepDrain" by (auto simp: in_set_conv_nth)
    from k i have "k \<noteq> i" by auto
    then have "SleepDrain \<in> set ((pcs s)[i := Outside])"
      using k by (auto simp: in_set_conv_nth intro!: exI [of _ k])
    with one obtain j where j: "j < length (pcs s)" "wake_gate2 ((pcs s)[i := Outside] ! j) \<noteq> (pcs s)[i := Outside] ! j"
      "ps = (pcs s)[i := Outside, j := wake_gate2 ((pcs s)[i := Outside] ! j)]"
      by (cases rule: wakes_one_cases) force+
    from j(2) i(1) have ji: "j \<noteq> i" by (cases "j = i") auto
    with j(2) have pj: "pcs s ! j = SleepDrain" by (cases "pcs s ! j") auto
    let ?t = "s\<lparr>pcs := (pcs s)[j := Draining]\<rparr>"
    have t: "mutex_inv ?t" by (rule mutex_inv_wake [OF inv j(1)]) (simp add: pj)
    note u = updates [OF j(1), of Draining, unfolded pj]
    have "count_pc {SleepDrain} (pcs ?t) = 0" using u(4) True writing_le(2) [of "pcs s"] by simp
    then have "mutex_inv (?t\<lparr>m_state := enc (?W = 1) (?R - 1), pcs := (pcs ?t)[i := Outside]\<rparr>)"
      by (intro ro t) (use i ji u in simp_all)
    moreover have "ps = (pcs ?t)[i := Outside]" using j(3) ji pj by (simp add: list_update_swap)
    ultimately show ?thesis using st(1) by simp
  qed
qed

lemma mutex_step_inv: "mutex_step i s s' \<Longrightarrow> mutex_inv s \<Longrightarrow> mutex_inv s'"
proof (induction rule: mutex_step.induct)
  case (call_lock i s p)
  have "mutex_inv (s\<lparr>m_state := m_state s, pcs := (pcs s)[i := p]\<rparr>)"
    by (rule mutex_inv_move [OF call_lock(4,1,2) mutex_invD(3) [OF call_lock(4)]])
      (use mutex_invD [OF call_lock(4)] call_lock(3) in auto)
  then show ?case by simp
next
  case (lock_gate1 i s)
  note inv = lock_gate1(4)
  have W: "count_pc {Draining, SleepDrain, Writing} (pcs s) = 1"
    using lock_gate1(3) unfolding mutex_invD(3) [OF inv] state_ops [OF mutex_invD(7) [OF inv]] by (simp split: if_splits)
  have "mutex_inv (s\<lparr>m_state := m_state s, pcs := (pcs s)[i := SleepWrite]\<rparr>)"
    by (rule mutex_inv_move [OF inv lock_gate1(1,2) mutex_invD(3) [OF inv]]) (use mutex_invD [OF inv] W in auto)
  then show ?case by simp
next
  case (lock_entered i s st)
  note inv = lock_entered(4)
  have W: "count_pc {Draining, SleepDrain, Writing} (pcs s) = 0" and st: "st = enc True (count_pc {Reading} (pcs s))"
    using lock_entered(3) mutex_invD(2) [OF inv]
    unfolding mutex_invD(3) [OF inv] state_ops [OF mutex_invD(7) [OF inv]] by (auto split: if_splits)
  have d: "drained st \<longleftrightarrow> count_pc {Reading} (pcs s) = 0" unfolding st state_ops [OF mutex_invD(7) [OF inv]] ..
  show ?case
    by (rule mutex_inv_move [OF inv lock_entered(1,2) st]) (use mutex_invD [OF inv] W d in auto)
next
  case (lock_gate2 i s)
  note inv = lock_gate2(3)
  have d: "drained (m_state s) \<longleftrightarrow> count_pc {Reading} (pcs s) = 0"
    unfolding mutex_invD(3) [OF inv] state_ops [OF mutex_invD(7) [OF inv]] ..
  have "mutex_inv (s\<lparr>m_state := m_state s, pcs := (pcs s)[i := if drained (m_state s) then Writing else SleepDrain]\<rparr>)"
    by (rule mutex_inv_move [OF inv lock_gate2(1,2) mutex_invD(3) [OF inv]]) (use mutex_invD [OF inv] d in auto)
  then show ?case by simp
next
  case (try_lock i s st)
  note inv = try_lock(4)
  have W: "count_pc {Draining, SleepDrain, Writing} (pcs s) = 0" "count_pc {Reading} (pcs s) = 0" and st: "st = enc True 0"
    using try_lock(3) mutex_invD(2) [OF inv]
    unfolding mutex_invD(3) [OF inv] state_ops [OF mutex_invD(7) [OF inv]] by (auto split: if_splits)
  show ?case
    by (rule mutex_inv_move [OF inv try_lock(1,2) st]) (use mutex_invD [OF inv] W in auto)
next
  case (unlock i s)
  note inv = unlock(3)
  have "count_pc {Writing} (pcs s) > 0" unfolding count_pc_def using unlock(1,2) by (auto intro: count_if_pos)
  with mutex_invD(2,4) [OF inv] writing_le(1) [of "pcs s"]
  have W: "count_pc {Draining, SleepDrain, Writing} (pcs s) = 1" "count_pc {Reading} (pcs s) = 0" by auto
  have st: "unlock_state (m_state s) = enc False 0" by (simp add: unlock_state_def enc_def)
  have "count_pc {SleepDrain} (pcs s) = 0" using mutex_invD(5) [OF inv] W(2) by auto
  show ?case
    by (rule mutex_inv_move [OF inv unlock(1,2) st]) (use mutex_invD [OF inv] W \<open>count_pc {SleepDrain} (pcs s) = 0\<close> in auto)
next
  case (unlock_notify i s)
  show ?case by (rule mutex_inv_notify_all [OF unlock_notify(3,1,2)])
next
  case (shared_gate1 i s)
  note inv = shared_gate1(4)
  have W: "count_pc {Draining, SleepDrain, Writing} (pcs s) = 1"
    using shared_gate1(3) unfolding mutex_invD(3) [OF inv] state_ops [OF mutex_invD(7) [OF inv]] by (simp split: if_splits)
  have "mutex_inv (s\<lparr>m_state := m_state s, pcs := (pcs s)[i := SleepRead]\<rparr>)"
    by (rule mutex_inv_move [OF inv shared_gate1(1,2) mutex_invD(3) [OF inv]]) (use mutex_invD [OF inv] W in auto)
  then show ?case by simp
next
  case (shared_entered i s st)
  note inv = shared_entered(4)
  have W: "count_pc {Draining, SleepDrain, Writing} (pcs s) = 0" and st: "st = enc False (Suc (count_pc {Reading} (pcs s)))"
    using shared_entered(3) mutex_invD(2) [OF inv]
    unfolding mutex_invD(3) [OF inv] state_ops [OF mutex_invD(7) [OF inv]] by (auto split: if_splits)
  have wr: "count_pc {Writing} (pcs s) = 0" using W writing_le(1) [of "pcs s"] by simp
  show ?case
    by (rule mutex_inv_move [OF inv shared_entered(1,2) st]) (use mutex_invD [OF inv] W wr in auto)
next
  case (try_shared i s st)
  note inv = try_shared(4)
  have W: "count_pc {Draining, SleepDrain, Writing} (pcs s) = 0" and st: "st = enc False (Suc (count_pc {Reading} (pcs s)))"
    using try_shared(3) mutex_invD(2) [OF inv]
    unfolding mutex_invD(3) [OF inv] state_ops [OF mutex_invD(7) [OF inv]] by (auto split: if_splits)
  have wr: "count_pc {Writing} (pcs s) = 0" using W writing_le(1) [of "pcs s"] by simp
  show ?case
    by (rule mutex_inv_move [OF inv try_shared(1,2) st]) (use mutex_invD [OF inv] W wr in auto)
next
  case (unlock_shared i s st n ps)
  show ?case by (rule mutex_inv_unlock_shared [OF unlock_shared(5,1-4)])
next
  case (spurious i s p)
  show ?case by (rule mutex_inv_wake [OF spurious(3,1,2)])
qed

interpretation mutex: step_invariant any_step mutex_inv
  by unfold_locales (auto simp: any_step_def intro: mutex_step_inv)

lemma mutex_reachable_inv: "mutex_reachable threads s \<Longrightarrow> threads < 2 ^ 31 - 1 \<Longrightarrow> mutex_inv s"
  by (erule mutex.along) (simp_all add: mutex_inv_def Let_def count_pc_def enc_def)

section \<open>Mutual exclusion and progress\<close>

definition asleep :: "mutex_pc \<Rightarrow> bool" where
  "asleep p \<longleftrightarrow> p = SleepWrite \<or> p = SleepRead \<or> p = SleepDrain"

definition inside :: "mutex_pc \<Rightarrow> bool" where
  "inside p \<longleftrightarrow> p = Writing \<or> p = Reading"

text \<open>
  C26. The readers-writer mutex excludes: at most one thread is inside as a writer, and then none as a
  reader; the lower bits of the state count the readers inside. And no notification is missed:
  as long as a thread sleeps, some thread is inside or awake on its way in or out.
\<close>

theorem shared_mutex_correct:
  assumes "mutex_reachable threads s" "threads < 2 ^ 31 - 1"
  shows "count_pc {Writing} (pcs s) \<le> 1 \<and>
    (Writing \<in> set (pcs s) \<longrightarrow> Reading \<notin> set (pcs s)) \<and>
    m_state s AND n_readers = of_nat (count_pc {Reading} (pcs s)) \<and>
    ((\<exists>p \<in> set (pcs s). asleep p) \<longrightarrow> (\<exists>p \<in> set (pcs s). inside p \<or> (p \<noteq> Outside \<and> \<not> asleep p)))"
proof (intro conjI impI)
  note inv = mutex_reachable_inv [OF assms]
  show "count_pc {Writing} (pcs s) \<le> 1" using mutex_invD(2) [OF inv] writing_le(1) [of "pcs s"] by simp
  show "m_state s AND n_readers = of_nat (count_pc {Reading} (pcs s))"
    unfolding mutex_invD(3) [OF inv] by (rule enc_parts) (use mutex_invD(7) [OF inv] in simp)
  show "Reading \<notin> set (pcs s)" if "Writing \<in> set (pcs s)"
    using that mutex_invD(4) [OF inv] count_pc_zero [of "{Writing}" "pcs s"] count_pc_zero [of "{Reading}" "pcs s"] by auto
  show "\<exists>p \<in> set (pcs s). inside p \<or> (p \<noteq> Outside \<and> \<not> asleep p)" if "\<exists>p \<in> set (pcs s). asleep p"
  proof (rule ccontr)
    assume no: "\<not> (\<exists>p \<in> set (pcs s). inside p \<or> (p \<noteq> Outside \<and> \<not> asleep p))"
    have none: "count_pc {q} (pcs s) = 0" if "inside q \<or> (q \<noteq> Outside \<and> \<not> asleep q)" for q
      using no that by (auto simp: count_pc_zero)
    have "count_pc {SleepDrain} (pcs s) = 0"
      using mutex_invD(5) [OF inv] none [of Reading] by (auto simp: inside_def)
    then have W: "count_pc {Draining, SleepDrain, Writing} (pcs s) = 0"
      using none [of Writing] none [of Draining] by (auto simp: inside_def asleep_def count_pc_zero)
    then have "count_pc {SleepWrite, SleepRead} (pcs s) = 0"
      using mutex_invD(6) [OF inv] none [of Notifying] by (auto simp: inside_def asleep_def)
    with \<open>count_pc {SleepDrain} (pcs s) = 0\<close> that show False by (auto simp: count_pc_zero asleep_def)
  qed
qed

lemma shared_mutex_correct_witness:
  "\<exists>s. mutex_reachable 2 s \<and> pcs s = [Writing, SleepRead] \<and> m_state s AND n_readers = 0"
proof -
  let ?s0 = "\<lparr>m_state = 0, pcs = replicate 2 Outside\<rparr>"
  let ?s1 = "?s0\<lparr>m_state := enc True 0, pcs := [Writing, Outside]\<rparr>"
  let ?s2 = "?s1\<lparr>pcs := [Writing, WantRead]\<rparr>"
  let ?s3 = "?s2\<lparr>pcs := [Writing, SleepRead]\<rparr>"
  have z: "enc False 0 = 0" by (simp add: enc_def)
  have rep: "replicate 2 Outside = [Outside, Outside]" by (simp add: numeral_2_eq_2)
  have "try_lock_state 0 = Some (enc True 0)" using state_ops(3) [of 0 False] by (simp add: z)
  then have 1: "mutex_step 0 ?s0 ?s1"
    using try_lock [of 0 ?s0 "enc True 0"] by (simp add: rep)
  have 2: "mutex_step 1 ?s1 ?s2" using call_lock [of 1 ?s1 WantRead] by simp
  have 3: "mutex_step 1 ?s2 ?s3" using shared_gate1 [of 1 ?s2] state_ops(4) [of 0 True] by simp
  have r: "mutex_reachable 2 ?s3"
    by (rule reaches_step [OF reaches_step [OF reaches_one]]) (use 1 2 3 rep in \<open>auto simp: any_step_def\<close>)
  from shared_mutex_correct [OF r] have "m_state ?s3 AND n_readers = of_nat (count_pc {Reading} (pcs ?s3))" by simp
  then have "m_state ?s3 AND n_readers = 0" by (simp add: count_pc_def)
  with r show ?thesis by (intro exI [of _ ?s3]) simp
qed

end
