(* ===== verification/Shared_Lock.thy ===== *)
theory Shared_Lock
  imports Shared_Mutex
begin

text \<open>
  The RAII wrapper \<open>shared_lock\<close> of the course material
  (\<open>materials/09-advanced-synchronization/code/shared_mutex.h\<close>): a mutex pointer and a flag, one
  definition per member function over the operations of any mutex with shared ownership, and what
  the wrappers of a program hold between them.
\<close>

section \<open>Mutexes with shared ownership\<close>

record 'm shared_ops =
  so_lock_shared :: "'m \<Rightarrow> 'm option"
  so_try_lock_shared :: "bool \<Rightarrow> 'm \<Rightarrow> bool \<times> 'm"
  so_unlock_shared :: "'m \<Rightarrow> 'm"

text \<open>
  \<open>lock_shared\<close> is \<open>None\<close> while the mutex makes the caller wait. \<open>try_lock_shared\<close> may fail for want of
  an inner lock, which is its first argument.
\<close>

locale shared_ownership =
  fixes so :: "'m shared_ops" and valid :: "'m \<Rightarrow> bool" and readers :: "'m \<Rightarrow> nat"
  assumes lock_shared: "valid m \<Longrightarrow> so_lock_shared so m = Some m' \<Longrightarrow> valid m' \<and> readers m' = Suc (readers m)"
    and try_lock_shared: "valid m \<Longrightarrow> so_try_lock_shared so inner m = (b, m') \<Longrightarrow>
      valid m' \<and> readers m' = readers m + (if b then 1 else 0)"
    and unlock_shared: "valid m \<Longrightarrow> 0 < readers m \<Longrightarrow>
      valid (so_unlock_shared so m) \<and> readers (so_unlock_shared so m) = readers m - 1"

section \<open>The wrapper\<close>

record shared_lock =
  sl_pm :: "nat option"
  sl_owns :: bool

datatype lock_error = NoLock | DeadlockError | NotOwned

text \<open>
  The mutexes are an array that wrappers point into. A member function that throws leaves the wrapper
  and the mutexes as they are; the result is \<open>None\<close> when it waits for ever or does something
  undefined.
\<close>

type_synonym 'm locking = "(lock_error + bool) \<times> shared_lock \<times> (nat \<Rightarrow> 'm)"

definition empty_lock :: shared_lock where
  "empty_lock = \<lparr>sl_pm = None, sl_owns = False\<rparr>"

definition lock_deferred :: "nat \<Rightarrow> shared_lock" where
  "lock_deferred p = \<lparr>sl_pm = Some p, sl_owns = False\<rparr>"

definition lock_adopted :: "nat \<Rightarrow> shared_lock" where
  "lock_adopted p = \<lparr>sl_pm = Some p, sl_owns = True\<rparr>"

definition lock_constructed :: "'m shared_ops \<Rightarrow> nat \<Rightarrow> (nat \<Rightarrow> 'm) \<Rightarrow> (shared_lock \<times> (nat \<Rightarrow> 'm)) option" where
  "lock_constructed so p ms = do {
     m \<leftarrow> so_lock_shared so (ms p);
     Some (\<lparr>sl_pm = Some p, sl_owns = True\<rparr>, ms(p := m)) }"

definition lock_tried :: "'m shared_ops \<Rightarrow> bool \<Rightarrow> nat \<Rightarrow> (nat \<Rightarrow> 'm) \<Rightarrow> shared_lock \<times> (nat \<Rightarrow> 'm)" where
  "lock_tried so inner p ms =
     (let (b, m) = so_try_lock_shared so inner (ms p) in (\<lparr>sl_pm = Some p, sl_owns = b\<rparr>, ms(p := m)))"

text \<open>\<open>_M_lockable\<close>: the exception, or the mutex.\<close>

definition lockable :: "shared_lock \<Rightarrow> lock_error + nat" where
  "lockable l = (case sl_pm l of None \<Rightarrow> Inl NoLock | Some p \<Rightarrow> if sl_owns l then Inl DeadlockError else Inr p)"

definition sl_lock :: "'m shared_ops \<Rightarrow> shared_lock \<Rightarrow> (nat \<Rightarrow> 'm) \<Rightarrow> 'm locking option" where
  "sl_lock so l ms = (case lockable l of
      Inl e \<Rightarrow> Some (Inl e, l, ms)
    | Inr p \<Rightarrow> do {
        m \<leftarrow> so_lock_shared so (ms p);
        Some (Inr True, l\<lparr>sl_owns := True\<rparr>, ms(p := m)) })"

definition sl_try_lock :: "'m shared_ops \<Rightarrow> bool \<Rightarrow> shared_lock \<Rightarrow> (nat \<Rightarrow> 'm) \<Rightarrow> 'm locking option" where
  "sl_try_lock so inner l ms = (case lockable l of
      Inl e \<Rightarrow> Some (Inl e, l, ms)
    | Inr p \<Rightarrow> (let (b, m) = so_try_lock_shared so inner (ms p) in Some (Inr b, l\<lparr>sl_owns := b\<rparr>, ms(p := m))))"

definition sl_unlock :: "'m shared_ops \<Rightarrow> shared_lock \<Rightarrow> (nat \<Rightarrow> 'm) \<Rightarrow> 'm locking option" where
  "sl_unlock so l ms =
     (if \<not> sl_owns l then Some (Inl NotOwned, l, ms)
      else do {
        p \<leftarrow> sl_pm l;
        Some (Inr True, l\<lparr>sl_owns := False\<rparr>, ms(p := so_unlock_shared so (ms p))) })"

definition sl_destroy :: "'m shared_ops \<Rightarrow> shared_lock \<Rightarrow> (nat \<Rightarrow> 'm) \<Rightarrow> (nat \<Rightarrow> 'm) option" where
  "sl_destroy so l ms =
     (if sl_owns l then do { p \<leftarrow> sl_pm l; Some (ms(p := so_unlock_shared so (ms p))) } else Some ms)"

definition sl_swap :: "shared_lock \<Rightarrow> shared_lock \<Rightarrow> shared_lock \<times> shared_lock" where
  "sl_swap l u = (\<lparr>sl_pm = sl_pm u, sl_owns = sl_owns u\<rparr>, \<lparr>sl_pm = sl_pm l, sl_owns = sl_owns l\<rparr>)"

definition sl_release :: "shared_lock \<Rightarrow> nat option \<times> shared_lock" where
  "sl_release l = (sl_pm l, l\<lparr>sl_owns := False, sl_pm := None\<rparr>)"

text \<open>The new object, and what is left of the one it was moved from.\<close>

definition move_constructed :: "shared_lock \<Rightarrow> shared_lock \<times> shared_lock" where
  "move_constructed u = sl_swap empty_lock u"

section \<open>The wrappers of a program\<close>

text \<open>
  \<open>handed\<close> counts the shared locks nobody wraps: \<open>release\<close> hands one out, and \<open>std::adopt_lock\<close> requires
  one.
\<close>

record 'm wrapped =
  mutexes :: "nat \<Rightarrow> 'm"
  wrappers :: "nat \<Rightarrow> shared_lock option"
  handed :: "nat \<Rightarrow> nat"

datatype wrapper_op = MakeEmpty nat | MakeLocked nat nat | MakeDeferred nat nat | MakeTried nat nat bool
  | MakeAdopted nat nat | MoveConstruct nat nat | MoveAssign nat nat | LockIt nat | TryIt nat bool
  | UnlockIt nat | SwapThem nat nat | ReleaseIt nat | DestroyIt nat

definition created :: "nat \<Rightarrow> shared_lock \<Rightarrow> 'm wrapped \<Rightarrow> 'm wrapped option" where
  "created i l w = (if wrappers w i = None then Some (w\<lparr>wrappers := (wrappers w)(i \<mapsto> l)\<rparr>) else None)"

definition updated :: "nat \<Rightarrow> 'm locking \<Rightarrow> 'm wrapped \<Rightarrow> 'm wrapped" where
  "updated i r w = (case r of (_, l, ms) \<Rightarrow> w\<lparr>mutexes := ms, wrappers := (wrappers w)(i \<mapsto> l)\<rparr>)"

text \<open>
  \<open>operator=\<close> makes a temporary from the source, swaps it with the target and destroys it; source and
  target can be the same object.
\<close>

definition move_assigned :: "'m shared_ops \<Rightarrow> nat \<Rightarrow> nat \<Rightarrow> 'm wrapped \<Rightarrow> 'm wrapped option" where
  "move_assigned so i j w = do {
     u \<leftarrow> wrappers w j;
     let (tmp, rest) = move_constructed u;
     let w = w\<lparr>wrappers := (wrappers w)(j \<mapsto> rest)\<rparr>;
     l \<leftarrow> wrappers w i;
     let (tmp, l) = sl_swap tmp l;
     ms \<leftarrow> sl_destroy so tmp (mutexes w);
     Some (w\<lparr>mutexes := ms, wrappers := (wrappers w)(i \<mapsto> l)\<rparr>) }"

fun wrapper_step :: "'m shared_ops \<Rightarrow> wrapper_op \<Rightarrow> 'm wrapped \<Rightarrow> 'm wrapped option" where
  "wrapper_step so (MakeEmpty i) w = created i empty_lock w"
| "wrapper_step so (MakeLocked i p) w = do {
     (l, ms) \<leftarrow> lock_constructed so p (mutexes w);
     created i l (w\<lparr>mutexes := ms\<rparr>) }"
| "wrapper_step so (MakeDeferred i p) w = created i (lock_deferred p) w"
| "wrapper_step so (MakeTried i p inner) w =
     (let (l, ms) = lock_tried so inner p (mutexes w) in created i l (w\<lparr>mutexes := ms\<rparr>))"
| "wrapper_step so (MakeAdopted i p) w =
     (if handed w p = 0 then None
      else created i (lock_adopted p) (w\<lparr>handed := (handed w)(p := handed w p - 1)\<rparr>))"
| "wrapper_step so (MoveConstruct i j) w = do {
     u \<leftarrow> wrappers w j;
     let (l, rest) = move_constructed u;
     created i l (w\<lparr>wrappers := (wrappers w)(j \<mapsto> rest)\<rparr>) }"
| "wrapper_step so (MoveAssign i j) w = move_assigned so i j w"
| "wrapper_step so (LockIt i) w = do {
     l \<leftarrow> wrappers w i;
     r \<leftarrow> sl_lock so l (mutexes w);
     Some (updated i r w) }"
| "wrapper_step so (TryIt i inner) w = do {
     l \<leftarrow> wrappers w i;
     r \<leftarrow> sl_try_lock so inner l (mutexes w);
     Some (updated i r w) }"
| "wrapper_step so (UnlockIt i) w = do {
     l \<leftarrow> wrappers w i;
     r \<leftarrow> sl_unlock so l (mutexes w);
     Some (updated i r w) }"
| "wrapper_step so (SwapThem i j) w = do {
     l \<leftarrow> wrappers w i;
     u \<leftarrow> wrappers w j;
     let (l, u) = sl_swap l u;
     Some (w\<lparr>wrappers := (wrappers w)(j \<mapsto> u, i \<mapsto> l)\<rparr>) }"
| "wrapper_step so (ReleaseIt i) w = do {
     l \<leftarrow> wrappers w i;
     let (pm, l') = sl_release l;
     Some (w\<lparr>wrappers := (wrappers w)(i \<mapsto> l'),
       handed := (case pm of Some p \<Rightarrow> if sl_owns l then (handed w)(p := handed w p + 1) else handed w | None \<Rightarrow> handed w)\<rparr>) }"
| "wrapper_step so (DestroyIt i) w = do {
     l \<leftarrow> wrappers w i;
     ms \<leftarrow> sl_destroy so l (mutexes w);
     Some (w\<lparr>mutexes := ms, wrappers := (wrappers w)(i := None)\<rparr>) }"

fun wrapper_run :: "'m shared_ops \<Rightarrow> wrapper_op list \<Rightarrow> 'm wrapped \<Rightarrow> 'm wrapped option" where
  "wrapper_run so [] w = Some w"
| "wrapper_run so (x # xs) w = do { w \<leftarrow> wrapper_step so x w; wrapper_run so xs w }"


section \<open>What the wrappers hold\<close>

definition owners :: "(nat \<Rightarrow> shared_lock option) \<Rightarrow> nat \<Rightarrow> nat set" where
  "owners ws p = {i. \<exists>l. ws i = Some l \<and> sl_owns l \<and> sl_pm l = Some p}"

definition held :: "shared_lock option \<Rightarrow> nat \<Rightarrow> nat" where
  "held x p = (case x of None \<Rightarrow> 0 | Some l \<Rightarrow> if sl_owns l \<and> sl_pm l = Some p then 1 else 0)"

definition wrapped_inv :: "('m \<Rightarrow> bool) \<Rightarrow> ('m \<Rightarrow> nat) \<Rightarrow> 'm wrapped \<Rightarrow> bool" where
  "wrapped_inv valid readers w \<longleftrightarrow> finite (dom (wrappers w)) \<and>
     (\<forall>i l. wrappers w i = Some l \<longrightarrow> sl_owns l \<longrightarrow> sl_pm l \<noteq> None) \<and>
     (\<forall>p. valid (mutexes w p) \<and> readers (mutexes w p) = card (owners (wrappers w) p) + handed w p)"

lemma owners_update: "owners (ws(i := x)) p = (if held x p = 1 then insert i (owners ws p) else owners ws p - {i})"
  by (auto simp: owners_def held_def split: option.splits if_splits)

lemma card_owners_update:
  assumes "finite (dom ws)"
  shows "card (owners (ws(i := x)) p) + held (ws i) p = card (owners ws p) + held x p"
proof -
  have fin: "finite (owners ws p)" by (rule finite_subset [OF _ assms]) (auto simp: owners_def)
  have mem: "i \<in> owners ws p \<longleftrightarrow> held (ws i) p = 1" by (auto simp: owners_def held_def split: option.split)
  have h: "held y p = 0 \<or> held y p = 1" for y by (simp add: held_def split: option.split)
  have pos: "i \<in> owners ws p \<Longrightarrow> 0 < card (owners ws p)" using fin by (auto simp: card_gt_0_iff)
  from fin mem pos h [of x] h [of "ws i"] show ?thesis unfolding owners_update
    by (auto simp: insert_absorb card_insert_if card_Diff_singleton)
qed

lemma wrapped_inv_change:
  assumes "wrapped_inv valid readers w" "wrappers w' = (wrappers w)(j := y, i := x)"
    "\<And>l. x = Some l \<or> y = Some l \<Longrightarrow> sl_owns l \<Longrightarrow> sl_pm l \<noteq> None" "\<And>p. valid (mutexes w' p)"
    "\<And>p. readers (mutexes w' p) + held (((wrappers w)(j := y)) i) p + held (wrappers w j) p + handed w p =
      readers (mutexes w p) + held x p + held y p + handed w' p"
  shows "wrapped_inv valid readers w'"
proof -
  have fin: "finite (dom (wrappers w))" using assms(1) by (simp add: wrapped_inv_def)
  have fin1: "finite (dom ((wrappers w)(j := y)))"
    by (rule finite_subset [of _ "insert j (dom (wrappers w))"]) (use fin in auto)
  have "finite (dom (wrappers w'))"
    by (rule finite_subset [of _ "insert i (insert j (dom (wrappers w)))"]) (use fin in \<open>auto simp: assms(2) split: if_splits\<close>)
  moreover have "\<forall>i l. wrappers w' i = Some l \<longrightarrow> sl_owns l \<longrightarrow> sl_pm l \<noteq> None"
    using assms(1,3) by (auto simp: wrapped_inv_def assms(2))
  moreover have "readers (mutexes w' p) = card (owners (wrappers w') p) + handed w' p" for p
  proof -
    have "readers (mutexes w p) = card (owners (wrappers w) p) + handed w p" using assms(1) by (simp add: wrapped_inv_def)
    with assms(5) [of p] card_owners_update [OF fin, of j y p] card_owners_update [OF fin1, of i x p]
    show ?thesis unfolding assms(2) by linarith
  qed
  ultimately show ?thesis using assms(4) by (simp add: wrapped_inv_def)
qed

text \<open>One wrapper changes.\<close>

lemma wrapped_inv_one:
  assumes "wrapped_inv valid readers w" "wrappers w' = (wrappers w)(i := x)"
    "\<And>l. x = Some l \<Longrightarrow> sl_owns l \<Longrightarrow> sl_pm l \<noteq> None" "\<And>p. valid (mutexes w' p)"
    "\<And>p. readers (mutexes w' p) + held (wrappers w i) p + handed w p = readers (mutexes w p) + held x p + handed w' p"
  shows "wrapped_inv valid readers w'"
proof (rule wrapped_inv_change [OF assms(1), of _ i "wrappers w i" i x])
  show "wrappers w' = (wrappers w)(i := wrappers w i, i := x)" using assms(2) by simp
  show "x = Some l \<or> wrappers w i = Some l \<Longrightarrow> sl_owns l \<Longrightarrow> sl_pm l \<noteq> None" for l
    using assms(1,3) by (auto simp: wrapped_inv_def)
qed (use assms(4,5) in \<open>simp_all add: add.commute add.left_commute\<close>)

lemma held_simps [simp]:
  "held None p = 0" "held (Some \<lparr>sl_pm = Some q, sl_owns = b\<rparr>) p = (if b \<and> p = q then 1 else 0)"
  "held (Some \<lparr>sl_pm = x, sl_owns = False\<rparr>) p = 0" "held (Some empty_lock) p = 0"
  "held (Some (lock_deferred q)) p = 0" "held (Some (lock_adopted q)) p = (if p = q then 1 else 0)"
  by (auto simp: held_def empty_lock_def lock_deferred_def lock_adopted_def)

lemma shared_lock_eta [simp]: "\<lparr>sl_pm = sl_pm l, sl_owns = sl_owns l\<rparr> = (l :: shared_lock)"
  by simp

lemma wrapped_invD:
  assumes "wrapped_inv valid readers w"
  shows "valid (mutexes w p)" "readers (mutexes w p) = card (owners (wrappers w) p) + handed w p"
    "wrappers w i = Some l \<Longrightarrow> sl_owns l \<Longrightarrow> \<exists>q. sl_pm l = Some q"
  using assms by (auto simp: wrapped_inv_def)

lemma owner_held:
  assumes "wrapped_inv valid readers w" "wrappers w i = Some l" "sl_owns l" "sl_pm l = Some p"
  shows "0 < readers (mutexes w p)"
proof -
  have "finite (owners (wrappers w) p)"
    by (rule finite_subset [of _ "dom (wrappers w)"]) (use assms(1) in \<open>auto simp: wrapped_inv_def owners_def\<close>)
  moreover have "i \<in> owners (wrappers w) p" using assms(2-4) by (simp add: owners_def)
  ultimately have "0 < card (owners (wrappers w) p)" by (auto simp: card_gt_0_iff)
  then show ?thesis using wrapped_invD(2) [OF assms(1), of p] by simp
qed

lemma created_some: "created i l w = Some w' \<longleftrightarrow> wrappers w i = None \<and> w' = w\<lparr>wrappers := (wrappers w)(i \<mapsto> l)\<rparr>"
  by (auto simp: created_def)


context shared_ownership begin

lemma sl_lock_inv:
  assumes inv: "wrapped_inv valid readers w" and l: "wrappers w i = Some l" and r: "sl_lock so l (mutexes w) = Some r"
  shows "wrapped_inv valid readers (updated i r w)"
proof (cases "lockable l")
  case (Inl e)
  with r l have "updated i r w = w" by (auto simp: sl_lock_def updated_def map_upd_triv)
  with inv show ?thesis by simp
next
  case (Inr p)
  with r obtain m where m: "so_lock_shared so (mutexes w p) = Some m"
    "r = (Inr True, l\<lparr>sl_owns := True\<rparr>, (mutexes w)(p := m))" by (auto simp: sl_lock_def split: Option.bind_splits)
  from Inr have pm: "sl_pm l = Some p" "\<not> sl_owns l" by (auto simp: lockable_def split: option.splits if_splits)
  from lock_shared [OF wrapped_invD(1) [OF inv] m(1)] wrapped_invD [OF inv] pm l m(2) show ?thesis
    by (intro wrapped_inv_one [OF inv, where i = i and x = "Some (l\<lparr>sl_owns := True\<rparr>)"])
      (auto simp: updated_def held_def)
qed

lemma sl_try_lock_inv:
  assumes inv: "wrapped_inv valid readers w" and l: "wrappers w i = Some l" and r: "sl_try_lock so inner l (mutexes w) = Some r"
  shows "wrapped_inv valid readers (updated i r w)"
proof (cases "lockable l")
  case (Inl e)
  with r l have "updated i r w = w" by (auto simp: sl_try_lock_def updated_def map_upd_triv)
  with inv show ?thesis by simp
next
  case (Inr p)
  obtain b m where m: "so_try_lock_shared so inner (mutexes w p) = (b, m)" by fastforce
  with r Inr have r: "r = (Inr b, l\<lparr>sl_owns := b\<rparr>, (mutexes w)(p := m))" by (simp add: sl_try_lock_def)
  from Inr have pm: "sl_pm l = Some p" "\<not> sl_owns l" by (auto simp: lockable_def split: option.splits if_splits)
  from try_lock_shared [OF wrapped_invD(1) [OF inv] m] wrapped_invD [OF inv] pm l r show ?thesis
    by (intro wrapped_inv_one [OF inv, where i = i and x = "Some (l\<lparr>sl_owns := b\<rparr>)"])
      (auto simp: updated_def held_def)
qed

lemma sl_unlock_inv:
  assumes inv: "wrapped_inv valid readers w" and l: "wrappers w i = Some l" and r: "sl_unlock so l (mutexes w) = Some r"
  shows "wrapped_inv valid readers (updated i r w)"
proof (cases "sl_owns l")
  case False
  with r l have "updated i r w = w" by (auto simp: sl_unlock_def updated_def map_upd_triv)
  with inv show ?thesis by simp
next
  case True
  from wrapped_invD(3) [OF inv l True] obtain p where p: "sl_pm l = Some p" by blast
  with r True have r: "r = (Inr True, l\<lparr>sl_owns := False\<rparr>, (mutexes w)(p := so_unlock_shared so (mutexes w p)))"
    by (simp add: sl_unlock_def)
  note pos = owner_held [OF inv l True p]
  from unlock_shared [OF wrapped_invD(1) [OF inv] pos] pos wrapped_invD(1) [OF inv] p l r True show ?thesis
    by (intro wrapped_inv_one [OF inv, where i = i and x = "Some (l\<lparr>sl_owns := False\<rparr>)"])
      (auto simp: updated_def held_def)
qed

text \<open>Destroying a wrapper always returns.\<close>

lemma destroy_counts:
  assumes "\<And>p. valid (ms p)" "sl_owns l \<Longrightarrow> \<exists>p. sl_pm l = Some p \<and> 0 < readers (ms p)"
  obtains ms' where "sl_destroy so l ms = Some ms'" "\<And>p. valid (ms' p)"
    "\<And>p. readers (ms' p) + held (Some l) p = readers (ms p)"
proof (cases "sl_owns l")
  case False
  with assms(1) show ?thesis by (intro that [of ms]) (simp_all add: sl_destroy_def held_def)
next
  case True
  with assms(2) obtain p where p: "sl_pm l = Some p" "0 < readers (ms p)" by blast
  from unlock_shared [OF assms(1) p(2)] p True assms(1) show ?thesis
    by (intro that [of "ms(p := so_unlock_shared so (ms p))"]) (auto simp: sl_destroy_def held_def)
qed

lemma destroy_in:
  assumes "wrapped_inv valid readers w" "wrappers w i = Some l"
  obtains ms where "sl_destroy so l (mutexes w) = Some ms" "\<And>p. valid (ms p)"
    "\<And>p. readers (ms p) + held (Some l) p = readers (mutexes w p)"
proof (rule destroy_counts)
  show "valid (mutexes w p)" for p by (rule wrapped_invD(1) [OF assms(1)])
  show "\<exists>p. sl_pm l = Some p \<and> 0 < readers (mutexes w p)" if "sl_owns l"
    using wrapped_invD(3) [OF assms that] owner_held [OF assms that] by blast
qed (rule that)

lemma destroy_inv:
  assumes inv: "wrapped_inv valid readers w" and l: "wrappers w i = Some l"
  obtains ms where "wrapper_step so (DestroyIt i) w = Some (w\<lparr>mutexes := ms, wrappers := (wrappers w)(i := None)\<rparr>)"
    "wrapped_inv valid readers (w\<lparr>mutexes := ms, wrappers := (wrappers w)(i := None)\<rparr>)"
proof -
  from destroy_in [OF inv l] obtain ms where ms: "sl_destroy so l (mutexes w) = Some ms" "\<And>p. valid (ms p)"
    "\<And>p. readers (ms p) + held (Some l) p = readers (mutexes w p)" by blast
  have "wrapped_inv valid readers (w\<lparr>mutexes := ms, wrappers := (wrappers w)(i := None)\<rparr>)"
    by (rule wrapped_inv_one [OF inv, where i = i and x = None]) (use ms l in simp_all)
  with ms(1) l show ?thesis by (intro that [of ms]) simp_all
qed

lemma move_assigned_inv:
  assumes inv: "wrapped_inv valid readers w" and w': "move_assigned so i j w = Some w'"
  shows "wrapped_inv valid readers w'"
proof -
  let ?ws = "(wrappers w)(j \<mapsto> empty_lock)"
  from w' obtain u where u: "wrappers w j = Some u" by (auto simp: move_assigned_def split: Option.bind_splits)
  from w' u obtain l where l: "?ws i = Some l"
    by (auto simp: move_assigned_def move_constructed_def sl_swap_def empty_lock_def split: Option.bind_splits)
  have "sl_owns l \<Longrightarrow> \<exists>p. sl_pm l = Some p \<and> 0 < readers (mutexes w p)"
    using l wrapped_invD(3) [OF inv, of i l] owner_held [OF inv, of i l]
    by (cases "i = j") (auto simp: empty_lock_def)
  from destroy_counts [OF wrapped_invD(1) [OF inv] this] obtain ms where
    ms: "sl_destroy so l (mutexes w) = Some ms" "\<And>p. valid (ms p)"
      "\<And>p. readers (ms p) + held (Some l) p = readers (mutexes w p)" by blast
  have "w' = w\<lparr>mutexes := ms, wrappers := ?ws(i \<mapsto> u)\<rparr>"
    using w' u l ms(1) by (auto simp: move_assigned_def move_constructed_def sl_swap_def empty_lock_def)
  then show ?thesis
    by (intro wrapped_inv_change [OF inv, where i = i and j = j and x = "Some u" and y = "Some empty_lock"])
      (use ms l u wrapped_invD(3) [OF inv u] in \<open>auto simp: empty_lock_def\<close>)
qed

lemma created_inv:
  assumes inv: "wrapped_inv valid readers w" and created: "created i l w1 = Some w'" and "wrappers w1 = wrappers w"
    "sl_owns l \<Longrightarrow> sl_pm l \<noteq> None" "\<And>p. valid (mutexes w1 p)"
    "\<And>p. readers (mutexes w1 p) + handed w p = readers (mutexes w p) + held (Some l) p + handed w1 p"
  shows "wrapped_inv valid readers w'"
proof (rule wrapped_inv_one [OF inv, where i = i and x = "Some l"])
  show "wrappers w' = (wrappers w)(i := Some l)" using created assms(3) by (simp add: created_some)
  show "readers (mutexes w' p) + held (wrappers w i) p + handed w p = readers (mutexes w p) + held (Some l) p + handed w' p" for p
    using created assms(3) assms(6) [of p] by (auto simp: created_some)
qed (use created assms(4,5) in \<open>auto simp: created_some\<close>)

lemma make_inv:
  assumes inv: "wrapped_inv valid readers w" and step: "wrapper_step so x w = Some w'"
    and x: "x = MakeEmpty i \<or> x = MakeDeferred i p \<or> x = MakeLocked i p \<or> x = MakeTried i p inner \<or> x = MakeAdopted i p"
  shows "wrapped_inv valid readers w'"
  using x
proof (elim disjE)
  assume "x = MakeEmpty i"
  with step show ?thesis by (intro created_inv [OF inv, of i empty_lock w]) (simp_all add: wrapped_invD(1) [OF inv] empty_lock_def)
next
  assume "x = MakeDeferred i p"
  with step show ?thesis
    by (intro created_inv [OF inv, of i "lock_deferred p" w]) (simp_all add: wrapped_invD(1) [OF inv] lock_deferred_def)
next
  assume "x = MakeLocked i p"
  with step obtain m where m: "so_lock_shared so (mutexes w p) = Some m"
    "created i \<lparr>sl_pm = Some p, sl_owns = True\<rparr> (w\<lparr>mutexes := (mutexes w)(p := m)\<rparr>) = Some w'"
    by (auto simp: lock_constructed_def split: Option.bind_splits)
  from lock_shared [OF wrapped_invD(1) [OF inv] m(1)] show ?thesis
    by (intro created_inv [OF inv m(2)]) (auto simp: wrapped_invD(1) [OF inv])
next
  assume x: "x = MakeTried i p inner"
  obtain b m where m: "so_try_lock_shared so inner (mutexes w p) = (b, m)" by fastforce
  with step x have c: "created i \<lparr>sl_pm = Some p, sl_owns = b\<rparr> (w\<lparr>mutexes := (mutexes w)(p := m)\<rparr>) = Some w'"
    by (simp add: lock_tried_def)
  from try_lock_shared [OF wrapped_invD(1) [OF inv] m] show ?thesis
    by (intro created_inv [OF inv c]) (auto simp: wrapped_invD(1) [OF inv])
next
  assume "x = MakeAdopted i p"
  with step have h: "0 < handed w p"
    and c: "created i (lock_adopted p) (w\<lparr>handed := (handed w)(p := handed w p - 1)\<rparr>) = Some w'"
    by (auto split: if_splits)
  show ?thesis by (rule created_inv [OF inv c]) (use h in \<open>auto simp: wrapped_invD(1) [OF inv] lock_adopted_def\<close>)
qed

lemma move_swap_release_inv:
  assumes inv: "wrapped_inv valid readers w" and step: "wrapper_step so x w = Some w'"
    and x: "x = MoveConstruct i j \<or> x = SwapThem i j \<or> x = ReleaseIt i"
  shows "wrapped_inv valid readers w'"
  using x
proof (elim disjE)
  assume "x = MoveConstruct i j"
  with step obtain u where u: "wrappers w j = Some u" "((wrappers w)(j \<mapsto> empty_lock)) i = None"
    "w' = w\<lparr>wrappers := (wrappers w)(j \<mapsto> empty_lock, i \<mapsto> u)\<rparr>"
    by (auto simp: move_constructed_def sl_swap_def empty_lock_def created_some split: Option.bind_splits if_splits)
  then show ?thesis
    by (intro wrapped_inv_change [OF inv, where i = i and j = j and x = "Some u" and y = "Some empty_lock"])
      (use wrapped_invD(3) [OF inv u(1)] in \<open>auto simp: wrapped_invD(1) [OF inv] empty_lock_def\<close>)
next
  assume "x = SwapThem i j"
  with step obtain l u where u: "wrappers w i = Some l" "wrappers w j = Some u"
    "w' = w\<lparr>wrappers := (wrappers w)(j \<mapsto> l, i \<mapsto> u)\<rparr>"
    by (auto simp: sl_swap_def split: Option.bind_splits)
  then show ?thesis
    by (intro wrapped_inv_change [OF inv, where i = i and j = j and x = "Some u" and y = "Some l"])
      (use wrapped_invD(3) [OF inv u(1)] wrapped_invD(3) [OF inv u(2)] in \<open>auto simp: wrapped_invD(1) [OF inv]\<close>)
next
  assume "x = ReleaseIt i"
  with step obtain l where l: "wrappers w i = Some l"
    "w' = w\<lparr>wrappers := (wrappers w)(i \<mapsto> empty_lock), handed := (\<lambda>p. handed w p + held (Some l) p)\<rparr>"
    by (cases "wrappers w i") (auto simp: sl_release_def empty_lock_def held_def fun_eq_iff split: option.splits)
  then show ?thesis
    by (intro wrapped_inv_one [OF inv, where i = i and x = "Some empty_lock"])
      (auto simp: wrapped_invD(1) [OF inv] empty_lock_def)
qed

lemma wrapper_step_inv:
  assumes "wrapper_step so x w = Some w'" "wrapped_inv valid readers w"
  shows "wrapped_inv valid readers w'"
proof (cases x)
  case (DestroyIt i)
  with assms(1) obtain l where "wrappers w i = Some l" by (auto split: Option.bind_splits)
  from destroy_inv [OF assms(2) this] assms(1) DestroyIt show ?thesis by auto
qed (use assms in \<open>auto intro: sl_lock_inv sl_try_lock_inv sl_unlock_inv move_assigned_inv make_inv [OF assms(2,1)]
    move_swap_release_inv [OF assms(2,1)] split: Option.bind_splits\<close>)

lemma wrapper_run_inv: "wrapper_run so xs w = Some w' \<Longrightarrow> wrapped_inv valid readers w \<Longrightarrow> wrapped_inv valid readers w'"
  by (induction xs arbitrary: w) (auto split: Option.bind_splits intro: wrapper_step_inv)

lemma destroy_all:
  "wrapped_inv valid readers w \<Longrightarrow> distinct is \<Longrightarrow> set is = dom (wrappers w) \<Longrightarrow>
    \<exists>w'. wrapper_run so (map DestroyIt is) w = Some w' \<and> wrapped_inv valid readers w' \<and>
      wrappers w' = Map.empty \<and> handed w' = handed w"
proof (induction "is" arbitrary: w)
  case Nil
  then have "dom (wrappers w) = {}" by simp
  with Nil show ?case by simp
next
  case (Cons i js)
  then obtain l where l: "wrappers w i = Some l" by (auto dest: equalityD1)
  from destroy_inv [OF Cons.prems(1) l] obtain ms where
    ms: "wrapper_step so (DestroyIt i) w = Some (w\<lparr>mutexes := ms, wrappers := (wrappers w)(i := None)\<rparr>)"
    "wrapped_inv valid readers (w\<lparr>mutexes := ms, wrappers := (wrappers w)(i := None)\<rparr>)" .
  have js: "set js = dom (wrappers (w\<lparr>mutexes := ms, wrappers := (wrappers w)(i := None)\<rparr>))" "distinct js"
    using Cons.prems(2,3) by (auto simp: set_eq_iff)
  from Cons.IH [OF ms(2) js(2,1)] ms(1) show ?case by (simp del: wrapper_step.simps)
qed

text \<open>The counts of a run from the beginning, and of the end of all wrappers.\<close>

lemma accounting:
  assumes "wrapper_run so xs \<lparr>mutexes = ms, wrappers = Map.empty, handed = (\<lambda>_. 0)\<rparr> = Some w"
    "\<And>p. valid (ms p) \<and> readers (ms p) = 0"
  shows "\<forall>p. readers (mutexes w p) = card (owners (wrappers w) p) + handed w p"
    "distinct is \<Longrightarrow> set is = dom (wrappers w) \<Longrightarrow> \<exists>w'. wrapper_run so (map DestroyIt is) w = Some w' \<and>
      (\<forall>p. readers (mutexes w' p) = handed w p)"
proof -
  have "wrapped_inv valid readers \<lparr>mutexes = ms, wrappers = Map.empty, handed = (\<lambda>_. 0)\<rparr>"
    using assms(2) by (simp add: wrapped_inv_def owners_def)
  from wrapper_run_inv [OF assms(1) this] have inv: "wrapped_inv valid readers w" .
  then show "\<forall>p. readers (mutexes w p) = card (owners (wrappers w) p) + handed w p" by (simp add: wrapped_inv_def)
  assume "distinct is" "set is = dom (wrappers w)"
  from destroy_all [OF inv this] show "\<exists>w'. wrapper_run so (map DestroyIt is) w = Some w' \<and>
      (\<forall>p. readers (mutexes w' p) = handed w p)"
    by (auto simp: wrapped_inv_def owners_def)
qed

end

section \<open>shared_mutex\<close>

definition shared_mutex_ops :: "u32 shared_ops" where
  "shared_mutex_ops = \<lparr>so_lock_shared = lock_shared_state,
     so_try_lock_shared = (\<lambda>inner st. if inner then (case try_lock_shared_state st of None \<Rightarrow> (False, st) | Some st' \<Rightarrow> (True, st'))
       else (False, st)),
     so_unlock_shared = (\<lambda>st. fst (unlock_shared_state st))\<rparr>"

definition mutex_readers :: "u32 \<Rightarrow> nat" where
  "mutex_readers st = unat (st AND n_readers)"

definition state_word :: "u32 \<Rightarrow> bool" where
  "state_word st \<longleftrightarrow> (\<exists>w r. r < 2 ^ 31 \<and> st = enc w r)"

lemma readers_enc: "r < 2 ^ 31 \<Longrightarrow> mutex_readers (enc w r) = r"
  unfolding mutex_readers_def by (subst enc_parts(2)) (auto intro: u32_of_nat)

lemma state_word_enc: "r < 2 ^ 31 \<Longrightarrow> state_word (enc w r)"
  by (auto simp: state_word_def)

lemma full_or_less: "r < 2 ^ 31 \<Longrightarrow> r = 2 ^ 31 - 1 \<or> r < (2 ^ 31 - 1 :: nat)"
  by auto

lemma full_refuses:
  "lock_shared_state (enc w (2 ^ 31 - 1)) = None" "try_lock_shared_state (enc w (2 ^ 31 - 1)) = None"
proof -
  have "enc w (2 ^ 31 - 1) AND n_readers = n_readers" by (subst enc_parts(2)) (simp_all add: n_readers_value)
  then show "lock_shared_state (enc w (2 ^ 31 - 1)) = None" "try_lock_shared_state (enc w (2 ^ 31 - 1)) = None"
    by (simp_all add: lock_shared_state_def try_lock_shared_state_def Let_def)
qed

lemma lock_shared_word:
  assumes "state_word st" "lock_shared_state st = Some st' \<or> try_lock_shared_state st = Some st'"
  shows "state_word st' \<and> mutex_readers st' = Suc (mutex_readers st)"
proof -
  from assms(1) obtain w r where r: "r < 2 ^ 31" "st = enc w r" by (auto simp: state_word_def)
  with assms(2) full_refuses full_or_less [OF r(1)] have less: "r < 2 ^ 31 - 1" by auto
  with assms(2) r(2) have "st' = enc False (Suc r)" by (auto simp: state_ops split: if_splits)
  with less r(2) readers_enc [of r w] readers_enc [of "Suc r" False] state_word_enc [of "Suc r" False]
  show ?thesis by simp
qed

lemma unlock_shared_word:
  assumes "state_word st" "0 < mutex_readers st"
  shows "state_word (fst (unlock_shared_state st)) \<and> mutex_readers (fst (unlock_shared_state st)) = mutex_readers st - 1"
proof -
  from assms(1) obtain w r where r: "r < 2 ^ 31" "st = enc w r" by (auto simp: state_word_def)
  with assms(2) have pos: "0 < r" by (simp add: readers_enc)
  then have "of_nat r - 1 = (of_nat (r - 1) :: u32)" by (cases r) auto
  with r have "fst (unlock_shared_state st) = enc w (r - 1)"
    by (simp add: unlock_shared_state_def Let_def enc_parts enc_plus)
  with r pos readers_enc [of "r - 1" w] state_word_enc [of "r - 1" w] show ?thesis
    by (simp add: readers_enc)
qed

interpretation shared_mutex: shared_ownership shared_mutex_ops state_word mutex_readers
proof (unfold_locales, goal_cases)
  case (1 m m')
  then show ?case using lock_shared_word [of m m'] by (simp add: shared_mutex_ops_def)
next
  case (2 m inner b m')
  then show ?case using lock_shared_word [of m m'] by (auto simp: shared_mutex_ops_def split: if_splits option.splits)
next
  case (3 m)
  then show ?case using unlock_shared_word [of m] by (simp add: shared_mutex_ops_def)
qed

section \<open>Properties\<close>

text \<open>
  C27. Shared locks are neither lost nor doubled, however a program makes, locks, moves, swaps, releases
  and destroys its wrappers: the lower bits of the state word of every mutex are at any time the
  number of wrappers that own it plus the locks that \<open>release\<close> handed out and no wrapper adopted.
  Destroying all wrappers, in any order, returns and leaves only those that were handed out.
\<close>

theorem shared_locks_accounted:
  assumes "wrapper_run shared_mutex_ops xs \<lparr>mutexes = (\<lambda>_. 0), wrappers = Map.empty, handed = (\<lambda>_. 0)\<rparr> = Some w"
  shows "(\<forall>p. unat (mutexes w p AND n_readers) = card (owners (wrappers w) p) + handed w p) \<and>
    (\<forall>is. distinct is \<and> set is = dom (wrappers w) \<longrightarrow>
      (\<exists>w'. wrapper_run shared_mutex_ops (map DestroyIt is) w = Some w' \<and>
        (\<forall>p. unat (mutexes w' p AND n_readers) = handed w p)))"
proof -
  have "state_word 0 \<and> mutex_readers 0 = 0"
    unfolding state_word_def mutex_readers_def by (intro conjI exI [of _ False] exI [of _ 0]) (simp_all add: enc_def)
  note counts = shared_mutex.accounting [OF assms this]
  show ?thesis using counts(1,2) unfolding mutex_readers_def by blast
qed

lemma shared_locks_accounted_witness:
  "\<exists>w w'. wrapper_run shared_mutex_ops [MakeLocked 0 5, MakeDeferred 1 5, LockIt 1, MoveConstruct 2 0, ReleaseIt 1]
      \<lparr>mutexes = (\<lambda>_. 0), wrappers = Map.empty, handed = (\<lambda>_. 0)\<rparr> = Some w \<and>
    unat (mutexes w 5 AND n_readers) = card (owners (wrappers w) 5) + 1 \<and>
    wrapper_run shared_mutex_ops (map DestroyIt [0, 1, 2]) w = Some w' \<and> unat (mutexes w' 5 AND n_readers) = 1"
proof -
  let ?xs = "[MakeLocked 0 5, MakeDeferred 1 5, LockIt 1, MoveConstruct 2 0, ReleaseIt 1]"
  have z: "lock_shared_state 0 = Some (enc False 1)" "lock_shared_state (enc False 1) = Some (enc False 2)"
    using state_ops(4) [of 0 False] state_ops(4) [of 1 False] by (simp_all add: enc_def)
  let ?w = "\<lparr>mutexes = (\<lambda>_. 0)(5 := enc False 2), wrappers = [0 \<mapsto> empty_lock, 1 \<mapsto> empty_lock, 2 \<mapsto> lock_adopted 5],
    handed = (\<lambda>_. 0)(5 := 1)\<rparr>"
  have run: "wrapper_run shared_mutex_ops ?xs \<lparr>mutexes = (\<lambda>_. 0), wrappers = Map.empty, handed = (\<lambda>_. 0)\<rparr> = Some ?w"
    using z by (auto simp: shared_mutex_ops_def lock_constructed_def created_def lock_deferred_def sl_lock_def lockable_def
      updated_def move_constructed_def sl_swap_def sl_release_def empty_lock_def lock_adopted_def fun_eq_iff)
  have "distinct [0 :: nat, 1, 2]" "set [0, 1, 2] = dom (wrappers ?w)" by auto
  with shared_locks_accounted [OF run] obtain w' where
    "wrapper_run shared_mutex_ops (map DestroyIt [0, 1, 2]) ?w = Some w'" "\<forall>p. unat (mutexes w' p AND n_readers) = handed ?w p"
    by blast
  moreover from shared_locks_accounted [OF run] have "unat (mutexes ?w 5 AND n_readers) = card (owners (wrappers ?w) 5) + handed ?w 5"
    by blast
  ultimately show ?thesis using run by (intro exI [of _ ?w] exI [of _ w']) simp
qed

end
