(* ===== verification/Shared_Counter.thy ===== *)
theory Shared_Counter
  imports Shared_Mutex
begin

text \<open>
  The counter of \<open>materials/09-advanced-synchronization/code/shared_mutex_demo.cpp\<close>: its member functions on
  a readers-writer lock, which they use through a contract that the mutex of \<open>Shared_Mutex\<close> meets, and the
  threads of the program. Loading and storing the value are separate steps.
\<close>

section \<open>Readers-writer locks\<close>

text \<open>Where a thread is: outside, in a call that locks, inside as a writer or reader, in a call that unlocks.\<close>

datatype place = Away | WantsWrite | WantsRead | HoldsWrite | HoldsRead | Leaving

record 'm rw_lock =
  rw_step :: "nat \<Rightarrow> 'm \<Rightarrow> 'm \<Rightarrow> bool"
  rw_place :: "'m \<Rightarrow> nat \<Rightarrow> place"

locale readers_writer =
  fixes lk :: "'m rw_lock" and lock_inv :: "'m \<Rightarrow> bool"
  assumes kept: "lock_inv m \<Longrightarrow> rw_step lk i m m' \<Longrightarrow> lock_inv m'"
    and others: "rw_step lk i m m' \<Longrightarrow> j \<noteq> i \<Longrightarrow> rw_place lk m' j = rw_place lk m j"
    and excludes: "lock_inv m \<Longrightarrow> rw_place lk m i = HoldsWrite \<Longrightarrow> j \<noteq> i \<Longrightarrow> rw_place lk m j \<noteq> HoldsWrite \<and> rw_place lk m j \<noteq> HoldsRead"

section \<open>The mutex is one\<close>

fun place_of :: "mutex_pc \<Rightarrow> place" where
  "place_of Outside = Away"
| "place_of WantWrite = WantsWrite"
| "place_of SleepWrite = WantsWrite"
| "place_of Draining = WantsWrite"
| "place_of SleepDrain = WantsWrite"
| "place_of Writing = HoldsWrite"
| "place_of Notifying = Leaving"
| "place_of WantRead = WantsRead"
| "place_of SleepRead = WantsRead"
| "place_of Reading = HoldsRead"

definition mutex_rw :: "mutex_system rw_lock" where
  "mutex_rw = \<lparr>rw_step = mutex_step,
     rw_place = (\<lambda>m i. if i < length (pcs m) then place_of (pcs m ! i) else Away)\<rparr>"

lemma place_of_wake [simp]: "place_of (wake_gate1 p) = place_of p" "place_of (wake_gate2 p) = place_of p"
  by (cases p; simp)+

lemma place_of_inside [simp]: "place_of p = HoldsWrite \<longleftrightarrow> p = Writing" "place_of p = HoldsRead \<longleftrightarrow> p = Reading"
  by (cases p; simp)+

lemma after_notification_places:
  "after_notification n ps ps' \<Longrightarrow> map place_of ps' = map place_of ps"
  by (auto simp: after_notification_def wakes_one_def map_update split: notification.splits if_splits)
    (metis length_map list_update_id nth_map place_of_wake)+

lemma mutex_step_places:
  "mutex_step i m m' \<Longrightarrow> \<exists>p. map place_of (pcs m') = (map place_of (pcs m))[i := p]"
  by (induction rule: mutex_step.induct) (auto simp: map_update comp_def dest!: after_notification_places)

lemma at_most_one:
  assumes "i < length xs" "j < length xs" "i \<noteq> j" "P (xs ! i)" "P (xs ! j)"
  shows "2 \<le> count_if P xs"
proof -
  have "card {i, j} \<le> card {k. k < length xs \<and> P (xs ! k)}" using assms by (intro card_mono) auto
  with assms(3) show ?thesis by (simp add: count_if_def length_filter_conv_card)
qed

interpretation mutex_rw: readers_writer mutex_rw mutex_inv
proof
  fix m m' i j
  show "mutex_inv m'" if "mutex_inv m" "rw_step mutex_rw i m m'"
    using that by (auto simp: mutex_rw_def intro: mutex_step_inv)
  show "rw_place mutex_rw m' j = rw_place mutex_rw m j" if step: "rw_step mutex_rw i m m'" "j \<noteq> i"
  proof -
    from step(1) have "mutex_step i m m'" by (simp add: mutex_rw_def)
    from mutex_step_places [OF this] obtain p where p: "map place_of (pcs m') = (map place_of (pcs m))[i := p]" by blast
    then have "length (pcs m') = length (pcs m)" by (metis length_list_update length_map)
    moreover from p have "j < length (pcs m) \<Longrightarrow> place_of (pcs m' ! j) = place_of (pcs m ! j)"
      using calculation step(2) by (metis nth_list_update_neq nth_map)
    ultimately show ?thesis by (simp add: mutex_rw_def)
  qed
  show "rw_place mutex_rw m j \<noteq> HoldsWrite \<and> rw_place mutex_rw m j \<noteq> HoldsRead"
    if "mutex_inv m" "rw_place mutex_rw m i = HoldsWrite" "j \<noteq> i"
  proof -
    from that(2) have i: "i < length (pcs m)" "pcs m ! i = Writing" by (auto simp: mutex_rw_def split: if_splits)
    then have "count_pc {Writing} (pcs m) > 0" by (auto simp: count_pc_def intro: count_if_pos)
    with mutex_invD(2,4) [OF that(1)] writing_le(1) [of "pcs m"]
    have "count_pc {Writing} (pcs m) \<le> 1" "count_pc {Reading} (pcs m) = 0" by auto
    with i that(3) at_most_one [of i "pcs m" j "\<lambda>p. p \<in> {Writing}"]
      count_if_pos [of j "pcs m" "\<lambda>p. p \<in> {Reading}"] show ?thesis
      by (auto simp: mutex_rw_def count_pc_zero count_pc_def split: if_splits)
  qed
qed


section \<open>The counter\<close>

datatype counter_call = CounterGet | CounterIncrement | CounterReset

text \<open>
  Within a call a thread locks, may have loaded the value, and unlocks. \<open>c_calls\<close> is what the threads still
  have to call, the call they are in included; \<open>c_log\<close> records what the calls did, in order: the value
  that was read or left behind.
\<close>

datatype counter_local = Locking | Loaded u32 | Unlocking

record 'm counter =
  c_lock :: 'm
  c_value :: u32
  c_local :: "nat \<Rightarrow> counter_local"
  c_calls :: "nat \<Rightarrow> counter_call list"
  c_log :: "(nat \<times> counter_call \<times> u32) list"

definition counter_start :: "'m \<Rightarrow> (nat \<Rightarrow> counter_call list) \<Rightarrow> 'm counter" where
  "counter_start m calls = \<lparr>c_lock = m, c_value = 0, c_local = (\<lambda>_. Locking), c_calls = calls, c_log = []\<rparr>"

text \<open>\<open>get\<close> has a \<open>shared_lock\<close>, the other two a \<open>unique_lock\<close>.\<close>

fun wanted :: "counter_call \<Rightarrow> place" where
  "wanted CounterGet = WantsRead"
| "wanted CounterIncrement = WantsWrite"
| "wanted CounterReset = WantsWrite"

inductive counter_step :: "'m rw_lock \<Rightarrow> 'm counter \<Rightarrow> 'm counter \<Rightarrow> bool" for lk where
  call: "rw_place lk (c_lock s) i = Away \<Longrightarrow> c_calls s i = c # cs \<Longrightarrow>
    rw_step lk i (c_lock s) m \<Longrightarrow> rw_place lk m i = wanted c \<Longrightarrow> counter_step lk s (s\<lparr>c_lock := m\<rparr>)"
| in_lock: "rw_place lk (c_lock s) i \<in> {WantsWrite, WantsRead, Leaving} \<Longrightarrow>
    rw_step lk i (c_lock s) m \<Longrightarrow> counter_step lk s (s\<lparr>c_lock := m\<rparr>)"
| read_value: "rw_place lk (c_lock s) i = HoldsRead \<Longrightarrow> c_local s i = Locking \<Longrightarrow> c_calls s i = CounterGet # cs \<Longrightarrow>
    counter_step lk s (s\<lparr>c_local := (c_local s)(i := Unlocking), c_log := c_log s @ [(i, CounterGet, c_value s)]\<rparr>)"
| load_value: "rw_place lk (c_lock s) i = HoldsWrite \<Longrightarrow> c_local s i = Locking \<Longrightarrow> c_calls s i = CounterIncrement # cs \<Longrightarrow>
    counter_step lk s (s\<lparr>c_local := (c_local s)(i := Loaded (c_value s))\<rparr>)"
| store_value: "c_local s i = Loaded v \<Longrightarrow>
    counter_step lk s (s\<lparr>c_value := v + 1, c_local := (c_local s)(i := Unlocking),
      c_log := c_log s @ [(i, CounterIncrement, v + 1)]\<rparr>)"
| reset_value: "rw_place lk (c_lock s) i = HoldsWrite \<Longrightarrow> c_local s i = Locking \<Longrightarrow> c_calls s i = CounterReset # cs \<Longrightarrow>
    counter_step lk s (s\<lparr>c_value := 0, c_local := (c_local s)(i := Unlocking), c_log := c_log s @ [(i, CounterReset, 0)]\<rparr>)"
| unlock: "rw_place lk (c_lock s) i \<in> {HoldsWrite, HoldsRead} \<Longrightarrow> c_local s i = Unlocking \<Longrightarrow> c_calls s i = c # cs \<Longrightarrow>
    rw_step lk i (c_lock s) m \<Longrightarrow> rw_place lk m i \<notin> {HoldsWrite, HoldsRead} \<Longrightarrow>
    counter_step lk s (s\<lparr>c_lock := m, c_local := (c_local s)(i := Locking), c_calls := (c_calls s)(i := cs)\<rparr>)"

section \<open>The counter of one thread\<close>

fun counter_after :: "u32 \<Rightarrow> counter_call \<Rightarrow> u32" where
  "counter_after v CounterGet = v"
| "counter_after v CounterIncrement = v + 1"
| "counter_after v CounterReset = 0"

text \<open>The values that a sequence of calls reads or leaves behind, and the last one.\<close>

fun counter_run :: "u32 \<Rightarrow> counter_call list \<Rightarrow> u32 list \<times> u32" where
  "counter_run v [] = ([], v)"
| "counter_run v (c # cs) = (let (vs, last) = counter_run (counter_after v c) cs in (counter_after v c # vs, last))"

lemma counter_run_snoc:
  "counter_run v cs = (vs, w) \<Longrightarrow> counter_run v (cs @ [c]) = (vs @ [counter_after w c], counter_after w c)"
  by (induction cs arbitrary: v vs) (auto split: prod.splits)

definition logged_calls :: "'m counter \<Rightarrow> counter_call list" where
  "logged_calls s = map (fst \<circ> snd) (c_log s)"

definition calls_of :: "nat \<Rightarrow> 'm counter \<Rightarrow> counter_call list" where
  "calls_of i s = map (fst \<circ> snd) (filter (\<lambda>e. fst e = i) (c_log s))"

text \<open>What a thread still has to do; the call that it is about to leave is done.\<close>

definition to_call :: "nat \<Rightarrow> 'm counter \<Rightarrow> counter_call list" where
  "to_call i s = (if c_local s i = Unlocking then tl (c_calls s i) else c_calls s i)"

section \<open>The invariant\<close>

definition counter_inv :: "'m rw_lock \<Rightarrow> ('m \<Rightarrow> bool) \<Rightarrow> (nat \<Rightarrow> counter_call list) \<Rightarrow> 'm counter \<Rightarrow> bool" where
  "counter_inv lk lock_inv calls s \<longleftrightarrow> lock_inv (c_lock s) \<and>
     counter_run 0 (logged_calls s) = (map (snd \<circ> snd) (c_log s), c_value s) \<and>
     (\<forall>i v. c_local s i = Loaded v \<longrightarrow> v = c_value s \<and> rw_place lk (c_lock s) i = HoldsWrite \<and> hd (c_calls s i) = CounterIncrement) \<and>
     (\<forall>i. c_local s i \<noteq> Locking \<longrightarrow> c_calls s i \<noteq> [] \<and> rw_place lk (c_lock s) i \<in> {HoldsWrite, HoldsRead}) \<and>
     (\<forall>i. calls i = calls_of i s @ to_call i s)"

context readers_writer
begin

text \<open>A step of the lock leaves the threads inside where they are.\<close>

lemma lock_moves:
  assumes "counter_inv lk lock_inv calls s" "rw_step lk i (c_lock s) m" "c_local s i = Locking"
  shows "counter_inv lk lock_inv calls (s\<lparr>c_lock := m\<rparr>)"
proof -
  have "rw_place lk m j = rw_place lk (c_lock s) j" if "c_local s j \<noteq> Locking" for j
    using others [OF assms(2), of j] that assms(3) by (cases "j = i") auto
  then show ?thesis using assms(1) kept [of "c_lock s" i m] assms(2)
    by (auto simp: counter_inv_def logged_calls_def calls_of_def to_call_def)
qed

lemma nobody_loaded:
  assumes "counter_inv lk lock_inv calls s" "rw_place lk (c_lock s) i = HoldsWrite" "j \<noteq> i"
  shows "c_local s j = Locking"
  using assms excludes [of "c_lock s" i j] by (auto simp: counter_inv_def)

text \<open>The end of a call: its effect and its entry in the log.\<close>

lemma finish_call:
  assumes inv: "counter_inv lk lock_inv calls s" and c: "c_calls s i = c # cs" "c_local s i \<noteq> Unlocking"
    and inside: "rw_place lk (c_lock s) i \<in> {HoldsWrite, HoldsRead}" and v: "v = counter_after (c_value s) c"
    and loaded: "\<And>j w. j \<noteq> i \<Longrightarrow> c_local s j = Loaded w \<Longrightarrow> v = c_value s"
  shows "counter_inv lk lock_inv calls (s\<lparr>c_value := v, c_local := (c_local s)(i := Unlocking), c_log := c_log s @ [(i, c, v)]\<rparr>)"
    (is "counter_inv lk lock_inv calls ?t")
proof -
  have "counter_run 0 (logged_calls s) = (map (snd \<circ> snd) (c_log s), c_value s)" using inv by (simp add: counter_inv_def)
  from counter_run_snoc [OF this, of c]
  have "counter_run 0 (logged_calls ?t) = (map (snd \<circ> snd) (c_log ?t), c_value ?t)" by (simp add: logged_calls_def v)
  moreover have "calls j = calls_of j ?t @ to_call j ?t" for j
  proof -
    have "calls j = calls_of j s @ to_call j s" using inv by (simp add: counter_inv_def)
    then show ?thesis using c by (cases "j = i") (auto simp: calls_of_def to_call_def)
  qed
  moreover have "w = c_value ?t \<and> rw_place lk (c_lock ?t) j = HoldsWrite \<and> hd (c_calls ?t j) = CounterIncrement"
    if "c_local ?t j = Loaded w" for j w
    using that loaded [of j w] inv by (auto simp: counter_inv_def split: if_splits)
  moreover have "c_calls ?t j \<noteq> [] \<and> rw_place lk (c_lock ?t) j \<in> {HoldsWrite, HoldsRead}"
    if "c_local ?t j \<noteq> Locking" for j
    using that inv inside c(1) by (auto simp: counter_inv_def split: if_splits)
  moreover have "lock_inv (c_lock ?t)" using inv by (simp add: counter_inv_def)
  ultimately show ?thesis unfolding counter_inv_def by blast
qed

lemma counter_step_inv: "counter_step lk s t \<Longrightarrow> counter_inv lk lock_inv calls s \<Longrightarrow> counter_inv lk lock_inv calls t"
proof (induction rule: counter_step.induct)
  case (call s i c cs m)
  then have "c_local s i = Locking" by (force simp: counter_inv_def)
  from lock_moves [OF call.prems call.hyps(3) this] show ?case .
next
  case (in_lock s i m)
  then have "c_local s i = Locking" by (force simp: counter_inv_def)
  from lock_moves [OF in_lock.prems in_lock.hyps(2) this] show ?case .
next
  case (read_value s i cs)
  then have "counter_inv lk lock_inv calls (s\<lparr>c_value := c_value s, c_local := (c_local s)(i := Unlocking),
      c_log := c_log s @ [(i, CounterGet, c_value s)]\<rparr>)"
    by (intro finish_call) simp_all
  then show ?case by simp
next
  case (load_value s i cs)
  then show ?case by (auto simp: counter_inv_def logged_calls_def calls_of_def to_call_def)
next
  case (store_value s i v)
  then have i: "rw_place lk (c_lock s) i = HoldsWrite" "v = c_value s" "hd (c_calls s i) = CounterIncrement" "c_calls s i \<noteq> []"
    by (auto simp: counter_inv_def)
  from i(3,4) obtain cs where "c_calls s i = CounterIncrement # cs" by (cases "c_calls s i") auto
  with store_value i nobody_loaded [OF store_value.prems i(1)] show ?case by (intro finish_call) auto
next
  case (reset_value s i cs)
  with nobody_loaded [OF reset_value.prems reset_value.hyps(1)] show ?case by (intro finish_call) auto
next
  case (unlock s i c cs m)
  have "rw_place lk m j = rw_place lk (c_lock s) j" if "j \<noteq> i" for j using others [OF unlock.hyps(4) that] .
  with unlock kept [of "c_lock s" i m] show ?case
    by (auto simp: counter_inv_def logged_calls_def calls_of_def to_call_def)
qed

lemma counter_runs: "reaches (counter_step lk) s t \<Longrightarrow> counter_inv lk lock_inv calls s \<Longrightarrow> counter_inv lk lock_inv calls t"
  by (induction rule: reaches.induct) (auto intro: counter_step_inv)

lemma counter_inv_start: "lock_inv m \<Longrightarrow> counter_inv lk lock_inv calls (counter_start m calls)"
  by (simp add: counter_inv_def counter_start_def logged_calls_def calls_of_def to_call_def)

end


section \<open>The program\<close>

abbreviation counter_reachable :: "nat \<Rightarrow> (nat \<Rightarrow> counter_call list) \<Rightarrow> mutex_system counter \<Rightarrow> bool" where
  "counter_reachable threads calls \<equiv>
     reaches (counter_step mutex_rw) (counter_start \<lparr>m_state = 0, pcs = replicate threads Outside\<rparr> calls)"

lemma counter_reachable_inv:
  assumes "counter_reachable threads calls s" "threads < 2 ^ 31 - 1"
  shows "counter_inv mutex_rw mutex_inv calls s"
  by (rule mutex_rw.counter_runs [OF assms(1) mutex_rw.counter_inv_start])
    (rule mutex_reachable_inv [OF reaches_refl assms(2)])

text \<open>\<open>main\<close>: two threads that increment and read ten times.\<close>

definition demo_calls :: "nat \<Rightarrow> counter_call list" where
  "demo_calls i = (if i < 2 then concat (replicate 10 [CounterIncrement, CounterGet]) else [])"

section \<open>Properties\<close>

lemma counter_run_increments:
  "CounterReset \<notin> set cs \<Longrightarrow> snd (counter_run v cs) = v + of_nat (count_list cs CounterIncrement)"
proof (induction cs arbitrary: v)
  case (Cons c cs)
  then show ?case by (cases c) (auto split: prod.splits simp: prod_eq_iff)
qed simp

lemma count_by_thread:
  fixes n :: nat
  shows "(\<And>e. e \<in> set xs \<Longrightarrow> fst e < n) \<Longrightarrow>
    count_list (map f xs) c = (\<Sum>i<n. count_list (map f (filter (\<lambda>e. fst e = i) xs)) c)"
proof (induction xs)
  case (Cons e xs)
  have "(\<Sum>i<n. count_list (map f (filter (\<lambda>e. fst e = i) (e # xs))) c) =
    (\<Sum>i<n. (if i = fst e then if f e = c then 1 else 0 else 0) + count_list (map f (filter (\<lambda>e. fst e = i) xs)) c)"
    by (rule sum.cong) auto
  moreover have "(\<Sum>i<n. if i = fst e then if f e = c then 1 else 0 else 0) = (if f e = c then 1 else 0 :: nat)"
    using Cons.prems [of e] by (subst sum.delta) simp_all
  ultimately show ?case using Cons by (simp add: sum.distrib)
qed simp

lemma counter_total:
  assumes inv: "counter_inv lk lock_inv calls s" and over: "\<And>i. c_calls s i = []"
    and sent: "\<And>i. n \<le> i \<Longrightarrow> calls i = []" "\<And>i. CounterReset \<notin> set (calls i)"
  shows "c_value s = of_nat (\<Sum>i<n. count_list (calls i) CounterIncrement)"
proof -
  have calls: "calls i = calls_of i s" for i using inv over by (auto simp: counter_inv_def to_call_def)
  have made: "fst (snd e) \<in> set (calls (fst e))" if "e \<in> set (c_log s)" for e
    using that unfolding calls calls_of_def by auto
  have "fst e < n" if "e \<in> set (c_log s)" for e using made [OF that] sent(1) [of "fst e"] by (cases "fst e < n") auto
  from count_by_thread [OF this, of "c_log s" "fst \<circ> snd" CounterIncrement]
  have "count_list (logged_calls s) CounterIncrement = (\<Sum>i<n. count_list (calls i) CounterIncrement)"
    by (simp add: logged_calls_def calls calls_of_def)
  moreover have "CounterReset \<notin> set (logged_calls s)" using made sent(2) by (fastforce simp: logged_calls_def)
  ultimately show ?thesis
    using counter_run_increments [of "logged_calls s" 0] inv by (simp add: counter_inv_def)
qed

text \<open>
  C28. The counter protected by the readers-writer mutex is linearizable, for any number of threads below
  \<open>2 ^ 31 - 1\<close>: what the calls read and leave behind is what they would if one thread made them in the order of
  their effects, and this order has the calls of every thread in the order in which it makes them.
  While a thread updates the value no other thread works on it. So if only \<open>get\<close> and \<open>increment\<close> are
  called no increment is lost: when all threads are finished the value is their number.
\<close>

theorem counter_linearizable:
  assumes "counter_reachable threads calls s" "threads < 2 ^ 31 - 1"
  shows "counter_run 0 (logged_calls s) = (map (snd \<circ> snd) (c_log s), c_value s) \<and>
    (\<forall>i. calls i = calls_of i s @ to_call i s) \<and>
    (\<forall>i j v. c_local s i = Loaded v \<and> j \<noteq> i \<longrightarrow> c_local s j = Locking) \<and>
    ((\<forall>i. c_calls s i = []) \<and> (\<forall>i \<ge> threads. calls i = []) \<and> (\<forall>i. CounterReset \<notin> set (calls i)) \<longrightarrow>
      c_value s = of_nat (\<Sum>i<threads. count_list (calls i) CounterIncrement))"
proof -
  from counter_reachable_inv [OF assms] have inv: "counter_inv mutex_rw mutex_inv calls s" .
  moreover have "c_local s j = Locking" if "c_local s i = Loaded v" "j \<noteq> i" for i j v
    using mutex_rw.nobody_loaded [OF inv _ that(2)] that(1) inv by (simp add: counter_inv_def)
  moreover have "c_value s = of_nat (\<Sum>i<threads. count_list (calls i) CounterIncrement)"
    if "(\<forall>i. c_calls s i = []) \<and> (\<forall>i \<ge> threads. calls i = []) \<and> (\<forall>i. CounterReset \<notin> set (calls i))"
    using that by (intro counter_total [OF inv]) blast+
  ultimately show ?thesis unfolding counter_inv_def by blast
qed

text \<open>The demonstration counts to twenty.\<close>

lemma counter_demo:
  assumes "counter_reachable 2 demo_calls s" "\<And>i. c_calls s i = []"
  shows "c_value s = 20"
proof -
  from counter_reachable_inv [OF assms(1)] have "counter_inv mutex_rw mutex_inv demo_calls s" by simp
  from counter_total [OF this assms(2), of 2] show ?thesis
    by (simp add: demo_calls_def numeral_2_eq_2 count_list_eq_length_filter eval_nat_numeral)
qed

lemma counter_linearizable_witness:
  "\<exists>s. counter_reachable 1 (\<lambda>i. if i = 0 then [CounterIncrement] else []) s \<and> c_value s = 1 \<and>
    counter_run 0 (logged_calls s) = ([1], 1)"
proof -
  let ?calls = "\<lambda>i :: nat. if i = 0 then [CounterIncrement] else []"
  let ?m0 = "\<lparr>m_state = enc False 0, pcs = [Outside]\<rparr>" and ?m1 = "\<lparr>m_state = enc False 0, pcs = [WantWrite]\<rparr>"
    and ?m2 = "\<lparr>m_state = enc True 0, pcs = [Writing]\<rparr>"
  let ?s0 = "counter_start ?m0 ?calls"
  let ?s3 = "?s0\<lparr>c_lock := ?m2, c_local := (\<lambda>_. Locking)(0 := Loaded 0)\<rparr>"
  let ?s4 = "?s3\<lparr>c_value := 0 + 1, c_local := (c_local ?s3)(0 := Unlocking), c_log := c_log ?s3 @ [(0, CounterIncrement, 0 + 1)]\<rparr>"
  have z: "enc False 0 = 0" by (simp add: enc_def)
  have "mutex_step 0 ?m0 ?m1" using call_lock [of 0 ?m0 WantWrite] by simp
  then have 1: "counter_step mutex_rw ?s0 (?s0\<lparr>c_lock := ?m1\<rparr>)"
    by (intro call [where i = 0 and c = CounterIncrement and cs = "[]"]) (simp_all add: counter_start_def mutex_rw_def)
  have "mutex_step 0 ?m1 ?m2" using lock_entered [of 0 ?m1 "enc True 0"] state_ops(1,2) [of 0] by simp
  then have 2: "counter_step mutex_rw (?s0\<lparr>c_lock := ?m1\<rparr>) (?s0\<lparr>c_lock := ?m2\<rparr>)"
    using in_lock [where s = "?s0\<lparr>c_lock := ?m1\<rparr>" and i = 0 and m = ?m2 and lk = mutex_rw] by (simp add: mutex_rw_def)
  have 3: "counter_step mutex_rw (?s0\<lparr>c_lock := ?m2\<rparr>) ?s3"
    using load_value [where s = "?s0\<lparr>c_lock := ?m2\<rparr>" and i = 0 and cs = "[]" and lk = mutex_rw]
    by (simp add: mutex_rw_def counter_start_def)
  have 4: "counter_step mutex_rw ?s3 ?s4" by (rule store_value) simp
  have "reaches (counter_step mutex_rw) ?s0 ?s4"
    by (rule reaches_step, rule reaches_step, rule reaches_step, rule reaches_one) (rule 1, rule 2, rule 3, rule 4)
  then have r: "counter_reachable 1 ?calls ?s4" by (simp add: z)
  have "(1 :: nat) < 2 ^ 31 - 1" by simp
  note counts = conjunct1 [OF counter_linearizable [OF r this]]
  have "map (snd \<circ> snd) (c_log ?s4) = [1]" "c_value ?s4 = 1" by (simp_all add: counter_start_def)
  with counts have "counter_run 0 (logged_calls ?s4) = ([1], 1)" by (simp only:)
  with r show ?thesis by (intro exI [of _ ?s4]) simp
qed

end
