(* ===== verification/Latch.thy ===== *)
theory Latch
  imports Transition_Systems
begin

text \<open>
  The latch of the course material (\<open>materials/09-advanced-synchronization/code/count_down_latch.cpp\<close>):
  its counter, and any number of threads that wait for it or count it down, with the condition
  variable they sleep on.
\<close>

section \<open>The counter\<close>

text \<open>\<open>count_down\<close>: the new count, and whether the waiting threads are notified.\<close>

definition count_down :: "u32 \<Rightarrow> u32 \<times> bool" where
  "count_down count = (if count = 0 then (count, False) else (let count = count - 1 in (count, count = 0)))"

text \<open>Exactly the call that reaches zero notifies.\<close>

fun count_downs :: "nat \<Rightarrow> u32 \<Rightarrow> u32 \<times> nat" where
  "count_downs 0 count = (count, 0)"
| "count_downs (Suc n) count =
     (let (count, notified) = count_down count; (count, m) = count_downs n count in (count, (if notified then 1 else 0) + m))"

lemma count_downs_notify:
  "fst (count_downs n count) = count - of_nat (min n (unat count)) \<and>
   snd (count_downs n count) = (if count \<noteq> 0 \<and> unat count \<le> n then 1 else 0)"
proof (induction n arbitrary: count)
  case (Suc n)
  show ?case
  proof (cases "count = 0")
    case True
    with Suc [of 0] show ?thesis by (simp add: count_down_def Let_def split: prod.split)
  next
    case False
    then obtain m where m: "unat count = Suc m" by (metis not0_implies_Suc unat_eq_zero)
    then have u: "unat (count - 1) = m" using False by (simp add: unat_minus_one)
    have c: "count - 1 = 0 \<longleftrightarrow> m = 0" using u by (metis unat_eq_zero)
    from Suc [of "count - 1"] False m u c show ?thesis
      by (auto simp: count_down_def Let_def split: prod.split)
  qed
qed (auto simp: unat_gt_0)

definition get_count :: "u32 \<Rightarrow> u32" where
  "get_count count = count"

section \<open>Threads\<close>

text \<open>
  A thread has not called \<open>await\<close> yet, sleeps in it, was woken and has to get the mutex again, or has
  returned from it. Every critical section is one step, and so is falling asleep, which gives the mutex back.
  \<open>l_downs\<close> counts the calls of \<open>count_down\<close>, \<open>l_early\<close> records the waits that ended without a
  notification: spurious ones, or after the time that the caller gave.
\<close>

datatype latch_pc = NotWaiting | Sleeping | Woken | Returned

record latch =
  l_count :: u32
  l_pc :: "nat \<Rightarrow> latch_pc"
  l_downs :: nat
  l_early :: "nat set"

definition countdownlatch :: "u32 \<Rightarrow> latch" where
  "countdownlatch count = \<lparr>l_count = count, l_pc = (\<lambda>_. NotWaiting), l_downs = 0, l_early = {}\<rparr>"

fun notified :: "latch_pc \<Rightarrow> latch_pc" where
  "notified Sleeping = Woken"
| "notified p = p"

inductive latch_step :: "latch \<Rightarrow> latch \<Rightarrow> bool" where
  await_zero: "l_pc s i = NotWaiting \<Longrightarrow> l_count s = 0 \<Longrightarrow>
    latch_step s (s\<lparr>l_pc := (l_pc s)(i := Returned)\<rparr>)"
| await_sleep: "l_pc s i = NotWaiting \<Longrightarrow> l_count s \<noteq> 0 \<Longrightarrow>
    latch_step s (s\<lparr>l_pc := (l_pc s)(i := Sleeping)\<rparr>)"
| await_early: "l_pc s i = Sleeping \<Longrightarrow>
    latch_step s (s\<lparr>l_pc := (l_pc s)(i := Woken), l_early := insert i (l_early s)\<rparr>)"
| await_return: "l_pc s i = Woken \<Longrightarrow>
    latch_step s (s\<lparr>l_pc := (l_pc s)(i := Returned)\<rparr>)"
| counted_down: "count_down (l_count s) = (count, notify) \<Longrightarrow>
    latch_step s (s\<lparr>l_count := count, l_pc := (if notify then notified \<circ> l_pc s else l_pc s), l_downs := Suc (l_downs s)\<rparr>)"

abbreviation latch_reachable :: "u32 \<Rightarrow> latch \<Rightarrow> bool" where
  "latch_reachable count \<equiv> reaches latch_step (countdownlatch count)"

section \<open>The invariant\<close>

definition latch_inv :: "u32 \<Rightarrow> latch \<Rightarrow> bool" where
  "latch_inv count s \<longleftrightarrow> unat (l_count s) = unat count - l_downs s \<and>
     (\<forall>i. l_pc s i = Sleeping \<longrightarrow> l_count s \<noteq> 0) \<and>
     (\<forall>i. l_pc s i = Woken \<or> l_pc s i = Returned \<longrightarrow> l_count s = 0 \<or> i \<in> l_early s)"

lemma notified_iff [simp]: "notified p = Sleeping \<longleftrightarrow> False" "notified p = Returned \<longleftrightarrow> p = Returned"
  "notified p = Woken \<longleftrightarrow> p = Woken \<or> p = Sleeping" "notified p = NotWaiting \<longleftrightarrow> p = NotWaiting"
  by (cases p; simp)+

lemma count_down_value:
  assumes "count_down c = (c', notify)"
  shows "unat c' = unat c - 1" "notify \<longleftrightarrow> c \<noteq> 0 \<and> c' = 0"
  using assms by (auto simp: count_down_def Let_def unat_minus_one split: if_splits)

lemma latch_step_inv: "latch_step s t \<Longrightarrow> latch_inv count s \<Longrightarrow> latch_inv count t"
proof (induction rule: latch_step.induct)
  case (counted_down s c notify)
  note v = count_down_value [OF counted_down.hyps]
  have zero: "l_count s = 0 \<Longrightarrow> c = 0" using v(1) by (simp add: unat_eq_zero [symmetric])
  from counted_down.prems v zero show ?case by (auto simp: latch_inv_def)
qed (auto simp: latch_inv_def)

interpretation latch: step_invariant latch_step "latch_inv count" for count
  by unfold_locales (rule latch_step_inv)

section \<open>What the latch promises\<close>

text \<open>
  After \<open>n\<close> calls of \<open>count_down\<close> the count is the initial one less \<open>n\<close>, at least zero; no thread sleeps
  once it is zero, so that no notification is missed; and a thread that has returned from \<open>await\<close> did so
  because the count is zero, unless its wait ended without a notification.
\<close>

theorem latch_releases:
  assumes "latch_reachable count s"
  shows "l_count s = count - of_nat (min (l_downs s) (unat count)) \<and>
    (unat count \<le> l_downs s \<longrightarrow> (\<forall>i. l_pc s i \<noteq> Sleeping)) \<and>
    (\<forall>i. l_pc s i = Returned \<longrightarrow> unat count \<le> l_downs s \<or> i \<in> l_early s)"
proof -
  have "latch_inv count (countdownlatch count)" by (simp add: latch_inv_def countdownlatch_def)
  from latch.along [OF assms this] have inv: "latch_inv count s" .
  then have c: "unat (l_count s) = unat count - l_downs s" by (simp add: latch_inv_def)
  have "l_count s = of_nat (unat count - l_downs s)" by (simp flip: c)
  also have "\<dots> = count - of_nat (min (l_downs s) (unat count))" by (cases "l_downs s \<le> unat count") simp_all
  finally have "l_count s = count - of_nat (min (l_downs s) (unat count))" .
  moreover have "l_count s = 0 \<longleftrightarrow> unat count \<le> l_downs s" by (simp add: unat_eq_zero [symmetric] c)
  ultimately show ?thesis using inv by (auto simp: latch_inv_def)
qed

text \<open>A wait that ends early makes \<open>await\<close> return before the count is zero.\<close>

lemma await_returns_early:
  assumes "count \<noteq> 0"
  shows "\<exists>s. latch_reachable count s \<and> l_pc s i = Returned \<and> l_downs s = 0 \<and> l_count s = count"
proof -
  let ?s0 = "countdownlatch count"
  let ?s1 = "?s0\<lparr>l_pc := (l_pc ?s0)(i := Sleeping)\<rparr>"
  let ?s2 = "?s1\<lparr>l_pc := (l_pc ?s1)(i := Woken), l_early := insert i (l_early ?s1)\<rparr>"
  let ?s3 = "?s2\<lparr>l_pc := (l_pc ?s2)(i := Returned)\<rparr>"
  have 1: "latch_step ?s0 ?s1" by (rule await_sleep) (simp_all add: countdownlatch_def assms)
  have 2: "latch_step ?s1 ?s2" by (rule await_early) simp
  have 3: "latch_step ?s2 ?s3" by (rule await_return) simp
  have "latch_reachable count ?s3" by (rule reaches_step, rule reaches_step, rule reaches_one) (rule 1, rule 2, rule 3)
  then show ?thesis by (intro exI [of _ ?s3]) (simp add: countdownlatch_def)
qed

end
