(* ===== verification/Lock_Programs.thy ===== *)
theory Lock_Programs
  imports Transition_Systems
begin

text \<open>
  Three programs of the course material (\<open>materials/07-synchronization-primitives/code\<close>): \<open>lock.cpp\<close>, in which
  threads lock two boxes at once and move things between them, \<open>mutex.cpp\<close>, in which they store pages in a map under a
  mutex, and \<open>cv.cpp\<close>, in which two threads hand data to each other through one condition variable.
\<close>

section \<open>Moving things between boxes\<close>

text \<open>
  Thread \<open>i\<close> runs \<open>transfer(from, to, num)\<close> with the \<open>i\<close>-th triple. \<open>std::lock\<close> returns with both
  mutexes or waits, without holding one while it waits for the other. Each of the two assignments is a load and a
  store; the destructors unlock \<open>to\<close> first.
\<close>

type_synonym transfers = "(nat \<times> nat \<times> int) list"

datatype transfer_pc = Started | BothLocked | FromLoaded int | Taken | ToLoaded int | Given | ToUnlocked | Moved

record boxes =
  num_things :: "nat \<Rightarrow> int"
  box_owner :: "nat \<Rightarrow> nat option"
  t_pc :: "nat \<Rightarrow> transfer_pc"

definition boxes_start :: "(nat \<Rightarrow> int) \<Rightarrow> boxes" where
  "boxes_start things = \<lparr>num_things = things, box_owner = (\<lambda>_. None), t_pc = (\<lambda>_. Started)\<rparr>"

inductive transfer_step :: "transfers \<Rightarrow> boxes \<Rightarrow> boxes \<Rightarrow> bool" for ts where
  lock_both: "i < length ts \<Longrightarrow> ts ! i = (a, b, num) \<Longrightarrow> t_pc s i = Started \<Longrightarrow> box_owner s a = None \<Longrightarrow> box_owner s b = None \<Longrightarrow>
    transfer_step ts s (s\<lparr>box_owner := (box_owner s)(a := Some i, b := Some i), t_pc := (t_pc s)(i := BothLocked)\<rparr>)"
| load_from: "i < length ts \<Longrightarrow> ts ! i = (a, b, num) \<Longrightarrow> t_pc s i = BothLocked \<Longrightarrow>
    transfer_step ts s (s\<lparr>t_pc := (t_pc s)(i := FromLoaded (num_things s a))\<rparr>)"
| store_from: "i < length ts \<Longrightarrow> ts ! i = (a, b, num) \<Longrightarrow> t_pc s i = FromLoaded v \<Longrightarrow>
    transfer_step ts s (s\<lparr>num_things := (num_things s)(a := v - num), t_pc := (t_pc s)(i := Taken)\<rparr>)"
| load_to: "i < length ts \<Longrightarrow> ts ! i = (a, b, num) \<Longrightarrow> t_pc s i = Taken \<Longrightarrow>
    transfer_step ts s (s\<lparr>t_pc := (t_pc s)(i := ToLoaded (num_things s b))\<rparr>)"
| store_to: "i < length ts \<Longrightarrow> ts ! i = (a, b, num) \<Longrightarrow> t_pc s i = ToLoaded v \<Longrightarrow>
    transfer_step ts s (s\<lparr>num_things := (num_things s)(b := v + num), t_pc := (t_pc s)(i := Given)\<rparr>)"
| unlock_to: "i < length ts \<Longrightarrow> ts ! i = (a, b, num) \<Longrightarrow> t_pc s i = Given \<Longrightarrow>
    transfer_step ts s (s\<lparr>box_owner := (box_owner s)(b := None), t_pc := (t_pc s)(i := ToUnlocked)\<rparr>)"
| unlock_from: "i < length ts \<Longrightarrow> ts ! i = (a, b, num) \<Longrightarrow> t_pc s i = ToUnlocked \<Longrightarrow>
    transfer_step ts s (s\<lparr>box_owner := (box_owner s)(a := None), t_pc := (t_pc s)(i := Moved)\<rparr>)"

text \<open>What a thread has moved so far, and which of its boxes it holds.\<close>

fun taken :: "transfer_pc \<Rightarrow> bool" where
  "taken Started \<longleftrightarrow> False"
| "taken BothLocked \<longleftrightarrow> False"
| "taken (FromLoaded v) \<longleftrightarrow> False"
| "taken _ \<longleftrightarrow> True"

fun given :: "transfer_pc \<Rightarrow> bool" where
  "given Given \<longleftrightarrow> True"
| "given ToUnlocked \<longleftrightarrow> True"
| "given Moved \<longleftrightarrow> True"
| "given _ \<longleftrightarrow> False"

fun moved :: "nat \<times> nat \<times> int \<Rightarrow> transfer_pc \<Rightarrow> nat \<Rightarrow> int" where
  "moved (a, b, num) pc k = (if taken pc \<and> k = a then - num else 0) + (if given pc \<and> k = b then num else 0)"

fun holds_box :: "nat \<times> nat \<times> int \<Rightarrow> transfer_pc \<Rightarrow> nat \<Rightarrow> bool" where
  "holds_box (a, b, num) pc k \<longleftrightarrow> pc \<notin> {Started, Moved} \<and> (k = a \<or> k = b \<and> pc \<noteq> ToUnlocked)"

fun loaded_right :: "nat \<times> nat \<times> int \<Rightarrow> transfer_pc \<Rightarrow> (nat \<Rightarrow> int) \<Rightarrow> bool" where
  "loaded_right (a, b, num) (FromLoaded v) things \<longleftrightarrow> v = things a"
| "loaded_right (a, b, num) (ToLoaded v) things \<longleftrightarrow> v = things b"
| "loaded_right _ _ _ \<longleftrightarrow> True"

lemma started [simp]: "moved t Started k = 0" "\<not> holds_box t Started k" "\<not> holds_box t Moved k" "loaded_right t Started things"
  by (cases t; simp)+

definition boxes_inv :: "transfers \<Rightarrow> (nat \<Rightarrow> int) \<Rightarrow> boxes \<Rightarrow> bool" where
  "boxes_inv ts things s \<longleftrightarrow> (\<forall>i < length ts. fst (ts ! i) \<noteq> fst (snd (ts ! i))) \<and>
     (\<forall>k. num_things s k = things k + (\<Sum>i<length ts. moved (ts ! i) (t_pc s i) k)) \<and>
     (\<forall>i < length ts. loaded_right (ts ! i) (t_pc s i) (num_things s)) \<and>
     (\<forall>k i. box_owner s k = Some i \<longleftrightarrow> i < length ts \<and> holds_box (ts ! i) (t_pc s i) k)"

lemma sum_one_changed:
  fixes f g :: "nat \<Rightarrow> int"
  assumes "i < n" "\<And>j. j \<noteq> i \<Longrightarrow> g j = f j"
  shows "(\<Sum>j<n. g j) = (\<Sum>j<n. f j) + (g i - f i)"
proof -
  have "(\<Sum>j<n. g j) = g i + (\<Sum>j\<in>{..<n} - {i}. g j)" "(\<Sum>j<n. f j) = f i + (\<Sum>j\<in>{..<n} - {i}. f j)"
    using assms(1) by (simp_all add: sum.remove)
  moreover have "(\<Sum>j\<in>{..<n} - {i}. g j) = (\<Sum>j\<in>{..<n} - {i}. f j)" using assms(2) by (intro sum.cong) auto
  ultimately show ?thesis by simp
qed

text \<open>One thread goes on.\<close>

lemma boxes_inv_move:
  assumes inv: "boxes_inv ts things s" and i: "i < length ts"
    and sums: "\<And>k. num_things t k = num_things s k + (moved (ts ! i) (t_pc t i) k - moved (ts ! i) (t_pc s i) k)"
    and pcs: "\<And>j. j \<noteq> i \<Longrightarrow> t_pc t j = t_pc s j"
    and loaded: "loaded_right (ts ! i) (t_pc t i) (num_things t)"
    and written: "\<And>k. num_things t k \<noteq> num_things s k \<Longrightarrow> box_owner s k = Some i"
    and mine: "\<And>k. box_owner t k = Some i \<longleftrightarrow> holds_box (ts ! i) (t_pc t i) k"
    and theirs: "\<And>k j. j \<noteq> i \<Longrightarrow> box_owner t k = Some j \<longleftrightarrow> box_owner s k = Some j"
  shows "boxes_inv ts things t"
proof -
  from inv have I: "\<And>i. i < length ts \<Longrightarrow> fst (ts ! i) \<noteq> fst (snd (ts ! i))"
    "\<And>k. num_things s k = things k + (\<Sum>i<length ts. moved (ts ! i) (t_pc s i) k)"
    "\<And>i. i < length ts \<Longrightarrow> loaded_right (ts ! i) (t_pc s i) (num_things s)"
    "\<And>k i. box_owner s k = Some i \<longleftrightarrow> i < length ts \<and> holds_box (ts ! i) (t_pc s i) k"
    unfolding boxes_inv_def by blast+
  have "num_things t k = things k + (\<Sum>j<length ts. moved (ts ! j) (t_pc t j) k)" for k
    using sum_one_changed [OF i, of "\<lambda>j. moved (ts ! j) (t_pc t j) k" "\<lambda>j. moved (ts ! j) (t_pc s j) k"] I(2) [of k] sums [of k] pcs
    by simp
  moreover have "loaded_right (ts ! j) (t_pc t j) (num_things t)" if j: "j < length ts" for j
  proof (cases "j = i")
    case False
    have same: "num_things t k = num_things s k" if "holds_box (ts ! j) (t_pc s j) k" for k
      using written [of k] that I(4) [of k j] j False by (metis option.inject)
    from same pcs [OF False] I(3) [OF j] show ?thesis
      by (cases "(ts ! j, t_pc s j, num_things s)" rule: loaded_right.cases) simp_all
  qed (simp add: loaded)
  moreover have "box_owner t k = Some j \<longleftrightarrow> j < length ts \<and> holds_box (ts ! j) (t_pc t j) k" for j k
    using mine [of k] theirs [of j k] pcs [of j] I(4) [of k j] i by (cases "j = i") simp_all
  ultimately show ?thesis using I(1) unfolding boxes_inv_def by blast
qed

lemma boxes_invD:
  assumes "boxes_inv ts things s" "i < length ts" "ts ! i = (a, b, num)"
  shows "a \<noteq> b" "box_owner s k = Some i \<longleftrightarrow> holds_box (a, b, num) (t_pc s i) k" "loaded_right (a, b, num) (t_pc s i) (num_things s)"
proof -
  from assms(1) have "\<forall>i < length ts. fst (ts ! i) \<noteq> fst (snd (ts ! i))" "\<forall>i < length ts. loaded_right (ts ! i) (t_pc s i) (num_things s)"
    "\<forall>k i. box_owner s k = Some i \<longleftrightarrow> i < length ts \<and> holds_box (ts ! i) (t_pc s i) k"
    unfolding boxes_inv_def by blast+
  with assms(2,3) show "a \<noteq> b" "box_owner s k = Some i \<longleftrightarrow> holds_box (a, b, num) (t_pc s i) k"
    "loaded_right (a, b, num) (t_pc s i) (num_things s)" by (metis fst_conv snd_conv)+
qed

lemma transfer_step_inv: "transfer_step ts s t \<Longrightarrow> boxes_inv ts things s \<Longrightarrow> boxes_inv ts things t"
proof (induction rule: transfer_step.induct)
  case (lock_both i a b num s)
  note D = boxes_invD [OF lock_both.prems lock_both.hyps(1,2), unfolded lock_both.hyps(3)]
  show ?case by (rule boxes_inv_move [OF lock_both.prems lock_both.hyps(1)]) (use lock_both.hyps D in \<open>auto split: if_splits\<close>)
next
  case (load_from i a b num s)
  note D = boxes_invD [OF load_from.prems load_from.hyps(1,2), unfolded load_from.hyps(3)]
  show ?case by (rule boxes_inv_move [OF load_from.prems load_from.hyps(1)]) (use load_from.hyps D in \<open>auto split: if_splits\<close>)
next
  case (store_from i a b num s v)
  note D = boxes_invD(1,2) [OF store_from.prems store_from.hyps(1,2), unfolded store_from.hyps(3)]
  have "v = num_things s a" using boxes_invD(3) [OF store_from.prems store_from.hyps(1,2)] store_from.hyps(3) by simp
  show ?case by (rule boxes_inv_move [OF store_from.prems store_from.hyps(1)]) (use store_from.hyps D \<open>v = num_things s a\<close> in \<open>simp_all split: if_splits\<close>)
next
  case (load_to i a b num s)
  note D = boxes_invD [OF load_to.prems load_to.hyps(1,2), unfolded load_to.hyps(3)]
  show ?case by (rule boxes_inv_move [OF load_to.prems load_to.hyps(1)]) (use load_to.hyps D in \<open>simp_all split: if_splits\<close>)
next
  case (store_to i a b num s v)
  note D = boxes_invD [OF store_to.prems store_to.hyps(1,2), unfolded store_to.hyps(3)]
  show ?case by (rule boxes_inv_move [OF store_to.prems store_to.hyps(1)]) (use store_to.hyps D in \<open>auto split: if_splits\<close>)
next
  case (unlock_to i a b num s)
  note D = boxes_invD [OF unlock_to.prems unlock_to.hyps(1,2), unfolded unlock_to.hyps(3)]
  from D(2) [of b] have "box_owner s b = Some i" by simp
  then have other: "j \<noteq> i \<Longrightarrow> box_owner s b \<noteq> Some j" for j by simp
  show ?case by (rule boxes_inv_move [OF unlock_to.prems unlock_to.hyps(1)]) (use unlock_to.hyps D other in \<open>auto split: if_splits\<close>)
next
  case (unlock_from i a b num s)
  note D = boxes_invD [OF unlock_from.prems unlock_from.hyps(1,2), unfolded unlock_from.hyps(3)]
  from D(2) [of a] have "box_owner s a = Some i" by simp
  then have other: "j \<noteq> i \<Longrightarrow> box_owner s a \<noteq> Some j" for j by simp
  show ?case by (rule boxes_inv_move [OF unlock_from.prems unlock_from.hyps(1)]) (use unlock_from.hyps D other in \<open>auto split: if_splits\<close>)
qed

section \<open>All transfers end\<close>

fun steps_left :: "transfer_pc \<Rightarrow> nat" where
  "steps_left Started = 7"
| "steps_left BothLocked = 6"
| "steps_left (FromLoaded v) = 5"
| "steps_left Taken = 4"
| "steps_left (ToLoaded v) = 3"
| "steps_left Given = 2"
| "steps_left ToUnlocked = 1"
| "steps_left Moved = 0"

definition transfers_left :: "transfers \<Rightarrow> boxes \<Rightarrow> nat" where
  "transfers_left ts s = (\<Sum>i<length ts. steps_left (t_pc s i))"

lemma transfers_left_less:
  assumes "i < length ts" "steps_left pc < steps_left (t_pc s i)" "t_pc t = (t_pc s)(i := pc)"
  shows "transfers_left ts t < transfers_left ts s"
  unfolding transfers_left_def
proof (rule sum_strict_mono_ex1)
  show "\<forall>j\<in>{..<length ts}. steps_left (t_pc t j) \<le> steps_left (t_pc s j)" using assms(2,3) by simp
  show "\<exists>j\<in>{..<length ts}. steps_left (t_pc t j) < steps_left (t_pc s j)" using assms by (intro bexI [of _ i]) simp_all
qed simp

interpretation transfers: decreasing_work "transfer_step ts" "boxes_inv ts things" "transfers_left ts" for ts things
proof
  show "boxes_inv ts things t" if "transfer_step ts s t" "boxes_inv ts things s" for s t
    using that by (rule transfer_step_inv)
  show "transfers_left ts t < transfers_left ts s" if "transfer_step ts s t" for s t
    using that by (induction rule: transfer_step.induct) (erule transfers_left_less; simp)+
qed

text \<open>A thread that has its locks goes on; if nobody has locks everybody can start.\<close>

lemma transfer_goes_on:
  assumes "boxes_inv ts things s" "i < length ts" "t_pc s i \<noteq> Moved"
  shows "\<exists>t. transfer_step ts s t"
proof (rule ccontr)
  assume stuck: "\<nexists>t. transfer_step ts s t"
  have waiting: "t_pc s j = Started \<or> t_pc s j = Moved" if "j < length ts" for j
  proof -
    obtain a b num where j: "ts ! j = (a, b, num)" by (cases "ts ! j")
    show ?thesis
      using stuck transfer_step.intros(2-) [OF that j] by (cases "t_pc s j") blast+
  qed
  have free: "box_owner s k = None" for k
  proof (cases "box_owner s k")
    case (Some j)
    then have "j < length ts" "holds_box (ts ! j) (t_pc s j) k" using assms(1) unfolding boxes_inv_def by blast+
    with waiting [of j] show ?thesis by (cases "ts ! j") auto
  qed simp
  obtain a b num where "ts ! i = (a, b, num)" by (cases "ts ! i")
  with stuck lock_both [OF assms(2) this] waiting [OF assms(2)] assms(3) free show False by blast
qed

text \<open>
  The transfers of \<open>lock.cpp\<close> are exact and never deadlock, between any boxes and in any interleaving, if
  each has two different boxes: the threads make at most seven steps each, and when no step is left they are
  all done and every box has gained and lost what the transfers say.
\<close>

theorem transfers_exact:
  assumes "(transfer_step ts ^^ n) (boxes_start things) s" "\<And>t. t \<in> set ts \<Longrightarrow> fst t \<noteq> fst (snd t)"
  shows "n \<le> 7 * length ts \<and>
    ((\<forall>t. \<not> transfer_step ts s t) \<longrightarrow> (\<forall>i < length ts. t_pc s i = Moved) \<and> (\<forall>k. box_owner s k = None) \<and>
      (\<forall>k. num_things s k = things k + (\<Sum>(a, b, num)\<leftarrow>ts. (if k = b then num else 0) - (if k = a then num else 0))))"
proof (intro conjI impI)
  have start: "boxes_inv ts things (boxes_start things)"
    using assms(2) by (auto simp: boxes_inv_def boxes_start_def sum.neutral split: prod.split)
  have "transfers_left ts (boxes_start things) = 7 * length ts" by (simp add: transfers_left_def boxes_start_def)
  with transfers.steps_bounded [OF assms(1) start] show "n \<le> 7 * length ts" by simp
  from transfers.along_n [OF assms(1) start] have inv: "boxes_inv ts things s" .
  assume "\<forall>t. \<not> transfer_step ts s t"
  with transfer_goes_on [OF inv] have moved: "t_pc s i = Moved" if "i < length ts" for i using that by blast
  then show "\<forall>i < length ts. t_pc s i = Moved" by blast
  have "\<not> (i < length ts \<and> holds_box (ts ! i) (t_pc s i) k)" for i k using moved [of i] by (cases "ts ! i") auto
  with inv have "box_owner s k \<noteq> Some i" for i k unfolding boxes_inv_def by blast
  then show "\<forall>k. box_owner s k = None" by (metis not_None_eq)
  have "(\<Sum>i<length ts. moved (ts ! i) (t_pc s i) k) =
    (\<Sum>i<length ts. (\<lambda>(a, b, num). (if k = b then num else 0) - (if k = a then num else 0)) (ts ! i))" for k
    by (rule sum.cong) (auto simp: moved split: prod.split)
  also have "\<dots> k = (\<Sum>(a, b, num)\<leftarrow>ts. (if k = b then num else 0) - (if k = a then num else 0))" for k
    by (simp add: sum_list_sum_nth atLeast0LessThan)
  finally show "\<forall>k. num_things s k = things k + (\<Sum>(a, b, num)\<leftarrow>ts. (if k = b then num else 0) - (if k = a then num else 0))"
    using inv by (simp add: boxes_inv_def)
qed

section \<open>Pages under a mutex\<close>

text \<open>
  \<open>mutex.cpp\<close>: thread \<open>i\<close> runs \<open>save_page\<close> with the \<open>i\<close>-th address, which stores a text in a map that all share while it holds
  the mutex; \<open>main\<close> reads the map without it when it has joined them.
\<close>

datatype saver_pc = Fetching | PagesLocked | PageStored | SaverDone

record pages =
  g_pages :: "string \<rightharpoonup> string"
  g_pages_mutex :: "nat option"
  g_pc :: "nat \<Rightarrow> saver_pc"

definition pages_start :: pages where
  "pages_start = \<lparr>g_pages = Map.empty, g_pages_mutex = None, g_pc = (\<lambda>_. Fetching)\<rparr>"

inductive save_step :: "string list \<Rightarrow> pages \<Rightarrow> pages \<Rightarrow> bool" for urls where
  lock_pages: "i < length urls \<Longrightarrow> g_pc s i = Fetching \<Longrightarrow> g_pages_mutex s = None \<Longrightarrow>
    save_step urls s (s\<lparr>g_pages_mutex := Some i, g_pc := (g_pc s)(i := PagesLocked)\<rparr>)"
| store_page: "g_pc s i = PagesLocked \<Longrightarrow>
    save_step urls s (s\<lparr>g_pages := (g_pages s)(urls ! i \<mapsto> ''fake content''), g_pc := (g_pc s)(i := PageStored)\<rparr>)"
| unlock_pages: "g_pc s i = PageStored \<Longrightarrow>
    save_step urls s (s\<lparr>g_pages_mutex := None, g_pc := (g_pc s)(i := SaverDone)\<rparr>)"

definition saved :: "pages \<Rightarrow> nat set" where
  "saved s = {i. g_pc s i = PageStored \<or> g_pc s i = SaverDone}"

definition pages_inv :: "string list \<Rightarrow> pages \<Rightarrow> bool" where
  "pages_inv urls s \<longleftrightarrow>
     (\<forall>i. g_pages_mutex s = Some i \<longleftrightarrow> g_pc s i = PagesLocked \<or> g_pc s i = PageStored) \<and>
     (\<forall>i. g_pc s i \<noteq> Fetching \<longrightarrow> i < length urls) \<and>
     g_pages s = (\<lambda>u. if u \<in> (!) urls ` saved s then Some ''fake content'' else None)"

lemma save_step_inv: "save_step urls s t \<Longrightarrow> pages_inv urls s \<Longrightarrow> pages_inv urls t"
proof (induction rule: save_step.induct)
  case (lock_pages i s)
  then have "saved (s\<lparr>g_pages_mutex := Some i, g_pc := (g_pc s)(i := PagesLocked)\<rparr>) = saved s" by (auto simp: saved_def)
  with lock_pages show ?case by (auto simp: pages_inv_def)
next
  case (store_page s i)
  let ?t = "s\<lparr>g_pages := (g_pages s)(urls ! i \<mapsto> ''fake content''), g_pc := (g_pc s)(i := PageStored)\<rparr>"
  have "saved ?t = insert i (saved s)" by (auto simp: saved_def)
  moreover from store_page have "g_pages_mutex s = Some i" by (simp add: pages_inv_def)
  ultimately show ?case using store_page by (auto simp: pages_inv_def fun_eq_iff)
next
  case (unlock_pages s i)
  then have "saved (s\<lparr>g_pages_mutex := None, g_pc := (g_pc s)(i := SaverDone)\<rparr>) = saved s" by (auto simp: saved_def)
  moreover from unlock_pages have "g_pages_mutex s = Some i" by (simp add: pages_inv_def)
  ultimately show ?case using unlock_pages by (auto simp: pages_inv_def)
qed

interpretation pages: step_invariant "save_step urls" "pages_inv urls" for urls
  by unfold_locales (rule save_step_inv)

text \<open>No two threads are at the map at once, and when all are done it has the text for every address and nothing else.\<close>

theorem pages_saved:
  assumes "reaches (save_step urls) pages_start s"
  shows "(\<forall>i j. g_pc s i \<in> {PagesLocked, PageStored} \<longrightarrow> g_pc s j \<in> {PagesLocked, PageStored} \<longrightarrow> i = j) \<and>
    ((\<forall>i < length urls. g_pc s i = SaverDone) \<longrightarrow> g_pages s = (\<lambda>u. if u \<in> set urls then Some ''fake content'' else None))"
proof -
  have "pages_inv urls pages_start" by (simp add: pages_inv_def pages_start_def saved_def)
  from pages.along [OF assms this] have inv: "pages_inv urls s" .
  then have "g_pages_mutex s = Some i \<longleftrightarrow> g_pc s i = PagesLocked \<or> g_pc s i = PageStored" for i by (simp add: pages_inv_def)
  then have "i = j" if "g_pc s i \<in> {PagesLocked, PageStored}" "g_pc s j \<in> {PagesLocked, PageStored}" for i j
    using that by (metis insert_iff option.inject singletonD)
  moreover have "g_pages s = (\<lambda>u. if u \<in> set urls then Some ''fake content'' else None)" if d: "\<forall>i < length urls. g_pc s i = SaverDone"
  proof -
    have "i < length urls" if "g_pc s i \<noteq> Fetching" for i using inv that by (simp add: pages_inv_def)
    with d have "saved s = {..<length urls}" by (auto simp: saved_def)
    then have "(!) urls ` saved s = set urls" by (auto simp: set_conv_nth)
    with inv show ?thesis by (simp add: pages_inv_def)
  qed
  ultimately show ?thesis by blast
qed

section \<open>Handing data over\<close>

text \<open>
  \<open>cv.cpp\<close>. The worker is about to test \<open>ready\<close>, asleep on the condition variable, about to notify
  it, or done; \<open>main\<close> has not set \<open>ready\<close>, is about to notify, to test \<open>processed\<close>, asleep, or has
  printed, and ends when it has joined the worker.
\<close>

datatype worker_pc = TestReady | WorkerSleeps | WorkerNotifies | WorkerDone
datatype main_pc = SetReady | MainNotifies | TestProcessed | MainSleeps | Joining | MainDone

record handover =
  h_data :: string
  h_ready :: bool
  h_processed :: bool
  h_worker :: worker_pc
  h_main :: main_pc
  h_printed :: "string option"

definition handover_start :: handover where
  "handover_start = \<lparr>h_data = ''Example data'', h_ready = False, h_processed = False, h_worker = TestReady,
     h_main = SetReady, h_printed = None\<rparr>"

text \<open>\<open>notify_one\<close>: one of the threads that sleep, if there is one.\<close>

definition handover_notify :: "handover \<Rightarrow> handover \<Rightarrow> bool" where
  "handover_notify s t \<longleftrightarrow>
     (h_worker s = WorkerSleeps \<and> t = s\<lparr>h_worker := TestReady\<rparr>) \<or>
     (h_main s = MainSleeps \<and> t = s\<lparr>h_main := TestProcessed\<rparr>) \<or>
     (h_worker s \<noteq> WorkerSleeps \<and> h_main s \<noteq> MainSleeps \<and> t = s)"

inductive handover_step :: "handover \<Rightarrow> handover \<Rightarrow> bool" where
  worker_test: "h_worker s = TestReady \<Longrightarrow>
    handover_step s (if h_ready s
      then s\<lparr>h_data := h_data s @ '' after processing'', h_processed := True, h_worker := WorkerNotifies\<rparr>
      else s\<lparr>h_worker := WorkerSleeps\<rparr>)"
| worker_notify: "h_worker s = WorkerNotifies \<Longrightarrow> handover_notify (s\<lparr>h_worker := WorkerDone\<rparr>) t \<Longrightarrow> handover_step s t"
| main_ready: "h_main s = SetReady \<Longrightarrow> handover_step s (s\<lparr>h_ready := True, h_main := MainNotifies\<rparr>)"
| main_notify: "h_main s = MainNotifies \<Longrightarrow> handover_notify (s\<lparr>h_main := TestProcessed\<rparr>) t \<Longrightarrow> handover_step s t"
| main_test: "h_main s = TestProcessed \<Longrightarrow>
    handover_step s (if h_processed s then s\<lparr>h_printed := Some (h_data s), h_main := Joining\<rparr> else s\<lparr>h_main := MainSleeps\<rparr>)"
| main_join: "h_main s = Joining \<Longrightarrow> h_worker s = WorkerDone \<Longrightarrow> handover_step s (s\<lparr>h_main := MainDone\<rparr>)"
| spurious_worker: "h_worker s = WorkerSleeps \<Longrightarrow> handover_step s (s\<lparr>h_worker := TestReady\<rparr>)"
| spurious_main: "h_main s = MainSleeps \<Longrightarrow> handover_step s (s\<lparr>h_main := TestProcessed\<rparr>)"

definition handover_inv :: "handover \<Rightarrow> bool" where
  "handover_inv s \<longleftrightarrow> (h_ready s \<longleftrightarrow> h_main s \<noteq> SetReady) \<and>
     (h_processed s \<longleftrightarrow> h_worker s = WorkerNotifies \<or> h_worker s = WorkerDone) \<and>
     h_data s = (if h_processed s then ''Example data after processing'' else ''Example data'') \<and>
     (h_processed s \<longrightarrow> h_ready s) \<and>
     (h_worker s = WorkerSleeps \<longrightarrow> h_main s = SetReady \<or> h_main s = MainNotifies) \<and>
     (h_main s = MainSleeps \<longrightarrow> h_worker s \<noteq> WorkerDone) \<and>
     (h_main s = Joining \<or> h_main s = MainDone \<longrightarrow> h_processed s) \<and>
     (h_main s = MainDone \<longrightarrow> h_worker s = WorkerDone) \<and>
     h_printed s = (if h_main s = Joining \<or> h_main s = MainDone then Some ''Example data after processing'' else None)"

lemma handover_step_inv: "handover_step s t \<Longrightarrow> handover_inv s \<Longrightarrow> handover_inv t"
proof (induction rule: handover_step.induct)
  case (worker_notify s t)
  then show ?case unfolding handover_notify_def
    by (cases "h_main s"; elim disjE conjE) (simp_all add: handover_inv_def)
next
  case (main_notify s t)
  then show ?case unfolding handover_notify_def by (elim disjE conjE) (simp_all add: handover_inv_def)
next
  case (spurious_worker s)
  then show ?case by (cases "h_main s") (simp_all add: handover_inv_def)
qed (simp_all add: handover_inv_def)

interpretation handover: step_invariant handover_step handover_inv
  by unfold_locales (rule handover_step_inv)

text \<open>
  No notification is lost although both threads wait on one condition variable: whenever only a
  spurious wakeup could go on, the program is at its end, and it has printed the processed data.
\<close>

theorem handover_completes:
  assumes "reaches handover_step handover_start s"
  shows "(h_printed s = None \<or> h_printed s = Some ''Example data after processing'') \<and>
    (h_main s = MainDone \<longrightarrow> h_printed s \<noteq> None) \<and>
    (h_main s = MainDone \<or> h_worker s \<in> {TestReady, WorkerNotifies} \<or> h_main s \<in> {SetReady, MainNotifies, TestProcessed} \<or>
      h_main s = Joining \<and> h_worker s = WorkerDone)"
proof -
  have "handover_inv handover_start" by (simp add: handover_inv_def handover_start_def)
  from handover.along [OF assms this] have inv: "handover_inv s" .
  then show ?thesis by (cases "h_main s"; cases "h_worker s") (simp_all add: handover_inv_def)
qed

end
