(* ===== verification/Pipe_Programs.thy ===== *)
theory Pipe_Programs
  imports Transition_Systems
begin

text \<open>
  Two programs of the course material that copy bytes: \<open>cat.c\<close> from one descriptor to another
  (\<open>materials/03-process-threads-files/code/fileio\<close>), and \<open>simple_pipe.c\<close>, in which a parent sends its
  argument to a child through a pipe (\<open>materials/08-pipes/examples\<close>).
\<close>

section \<open>cat\<close>

text \<open>
  Each turn has what \<open>read\<close> returns, \<open>None\<close> for an error, and how many bytes \<open>write\<close> takes. The result is what
  stands on the standard output, with the messages, and the exit code.
\<close>

fun cat_loop :: "(string option \<times> nat) list \<Rightarrow> string \<times> int" where
  "cat_loop [] = ([], 0)"
| "cat_loop ((None, w) # evs) = (''read error'' @ [CHR 0x0A], 2)"
| "cat_loop ((Some d, w) # evs) =
     (if d = [] then ([], 0)
      else if w \<noteq> length d then (take w d @ ''write error'' @ [CHR 0x0A], 1)
      else apfst ((@) d) (cat_loop evs))"

text \<open>With exit code 0 everything up to the end of the input has been copied.\<close>

lemma cat_copies:
  "snd (cat_loop evs) = 0 \<longleftrightarrow>
    (\<forall>(r, w) \<in> set (takeWhile (\<lambda>(r, w). r \<noteq> Some []) evs). r \<noteq> None \<and> w = length (the r))"
  "snd (cat_loop evs) = 0 \<Longrightarrow> fst (cat_loop evs) = concat (map (the \<circ> fst) (takeWhile (\<lambda>(r, w). r \<noteq> Some []) evs))"
  by (induction evs rule: cat_loop.induct) auto

section \<open>The pipe\<close>

text \<open>
  What the child and the parent do next. The child first closes its write end, and carries what it has read to the standard
  output; the parent first closes descriptor 0, since the parenthesis of \<open>close(pfd[0] == -1)\<close> is misplaced, and
  keeps its read end. Exit codes are told by whether they are 0.
\<close>

datatype child_pc = ChildStarts | ChildReads | ChildWrites string | ChildExited bool

datatype parent_pc = ParentStarts | ParentWrites string | ParentWaits | ParentExited bool

record pipe_state =
  pp_buffer :: string
  pp_child :: child_pc
  pp_parent :: parent_pc
  pp_child_end :: bool
  pp_parent_end :: bool
  pp_stdout :: string

definition pipe_start :: pipe_state where
  "pipe_start = \<lparr>pp_buffer = [], pp_child = ChildStarts, pp_parent = ParentStarts, pp_child_end = True, pp_parent_end = True,
     pp_stdout = []\<rparr>"

definition BUF_SIZE :: nat where
  "BUF_SIZE = 10"

text \<open>
  The pipe takes \<open>cap\<close> bytes. \<open>pp_child_end\<close> and \<open>pp_parent_end\<close> are the open write ends; a read end is open as long as the
  parent lives, so that a write never fails but waits. \<open>stdin\<close> tells that descriptor 0 is open, \<open>fails\<close> that a write
  to the standard output may fail, after some bytes.
\<close>

inductive pipe_step :: "nat \<Rightarrow> bool \<Rightarrow> bool \<Rightarrow> string \<Rightarrow> pipe_state \<Rightarrow> pipe_state \<Rightarrow> bool" for cap stdin fails arg where
  parent_starts: "pp_parent s = ParentStarts \<Longrightarrow>
    pipe_step cap stdin fails arg s (if stdin then s\<lparr>pp_parent := ParentWrites arg\<rparr>
      else s\<lparr>pp_parent := ParentExited False, pp_parent_end := False\<rparr>)"
| parent_writes: "pp_parent s = ParentWrites rest \<Longrightarrow> 0 < n \<Longrightarrow> n \<le> length rest \<Longrightarrow> n + length (pp_buffer s) \<le> cap \<Longrightarrow>
    pipe_step cap stdin fails arg s (s\<lparr>pp_buffer := pp_buffer s @ take n rest, pp_parent := ParentWrites (drop n rest)\<rparr>)"
| parent_closes: "pp_parent s = ParentWrites [] \<Longrightarrow>
    pipe_step cap stdin fails arg s (s\<lparr>pp_parent_end := False, pp_parent := ParentWaits\<rparr>)"
| parent_exits: "pp_parent s = ParentWaits \<Longrightarrow> pp_child s = ChildExited ok \<Longrightarrow>
    pipe_step cap stdin fails arg s (s\<lparr>pp_parent := ParentExited True\<rparr>)"
| child_starts: "pp_child s = ChildStarts \<Longrightarrow>
    pipe_step cap stdin fails arg s (s\<lparr>pp_child_end := False, pp_child := ChildReads\<rparr>)"
| child_reads: "pp_child s = ChildReads \<Longrightarrow> 0 < n \<Longrightarrow> n \<le> length (pp_buffer s) \<Longrightarrow> n \<le> BUF_SIZE \<Longrightarrow>
    pipe_step cap stdin fails arg s (s\<lparr>pp_buffer := drop n (pp_buffer s), pp_child := ChildWrites (take n (pp_buffer s))\<rparr>)"
| child_writes: "pp_child s = ChildWrites d \<Longrightarrow>
    pipe_step cap stdin fails arg s (s\<lparr>pp_stdout := pp_stdout s @ d, pp_child := ChildReads\<rparr>)"
| child_fails: "fails \<Longrightarrow> pp_child s = ChildWrites d \<Longrightarrow> n < length d \<Longrightarrow>
    pipe_step cap stdin fails arg s (s\<lparr>pp_stdout := pp_stdout s @ take n d, pp_child := ChildExited False\<rparr>)"
| child_ends: "pp_child s = ChildReads \<Longrightarrow> pp_buffer s = [] \<Longrightarrow> \<not> pp_parent_end s \<Longrightarrow> \<not> pp_child_end s \<Longrightarrow>
    pipe_step cap stdin fails arg s (s\<lparr>pp_stdout := pp_stdout s @ [CHR 0x0A], pp_child := ChildExited True\<rparr>)"

section \<open>What the child prints\<close>

fun carried :: "child_pc \<Rightarrow> string" where
  "carried (ChildWrites d) = d"
| "carried _ = []"

fun unsent :: "string \<Rightarrow> parent_pc \<Rightarrow> string" where
  "unsent arg ParentStarts = arg"
| "unsent arg (ParentWrites rest) = rest"
| "unsent arg _ = []"

text \<open>While the child runs, the argument is on the output, in the child, in the pipe and in the parent.\<close>

definition pipe_inv :: "string \<Rightarrow> pipe_state \<Rightarrow> bool" where
  "pipe_inv arg s \<longleftrightarrow>
     (case pp_child s of ChildExited ok \<Rightarrow> ok \<and> pp_stdout s = arg @ [CHR 0x0A] \<and> pp_buffer s = [] \<and> unsent arg (pp_parent s) = [] \<and> \<not> pp_parent_end s
      | _ \<Rightarrow> arg = pp_stdout s @ carried (pp_child s) @ pp_buffer s @ unsent arg (pp_parent s)) \<and>
     (pp_child_end s \<longleftrightarrow> pp_child s = ChildStarts) \<and>
     (pp_parent_end s \<longleftrightarrow> pp_parent s = ParentStarts \<or> (\<exists>rest. pp_parent s = ParentWrites rest)) \<and>
     (\<forall>d. pp_child s = ChildWrites d \<longrightarrow> d \<noteq> []) \<and>
     (\<forall>ok. pp_parent s = ParentExited ok \<longrightarrow> ok \<and> (\<exists>ok. pp_child s = ChildExited ok))"

lemma pipe_step_inv: "pipe_step cap True False arg s t \<Longrightarrow> pipe_inv arg s \<Longrightarrow> pipe_inv arg t"
proof (induction rule: pipe_step.induct)
  case (child_reads s n)
  then have "arg = pp_stdout s @ pp_buffer s @ unsent arg (pp_parent s)" by (simp add: pipe_inv_def)
  then have "arg = pp_stdout s @ take n (pp_buffer s) @ drop n (pp_buffer s) @ unsent arg (pp_parent s)"
    by (metis append.assoc append_take_drop_id)
  with child_reads show ?case by (auto simp: pipe_inv_def)
next
  case (child_ends s)
  then show ?case by (cases "pp_parent s") (auto simp: pipe_inv_def)
qed (auto simp: pipe_inv_def split: child_pc.splits)

text \<open>A byte is written, read and printed; each thread starts, closes and ends.\<close>

fun child_work :: "child_pc \<Rightarrow> nat" where
  "child_work ChildStarts = 2"
| "child_work ChildReads = 1"
| "child_work (ChildWrites d) = 1 + length d"
| "child_work (ChildExited ok) = 0"

fun parent_work :: "parent_pc \<Rightarrow> nat" where
  "parent_work ParentStarts = 3"
| "parent_work (ParentWrites rest) = 2"
| "parent_work ParentWaits = 1"
| "parent_work (ParentExited ok) = 0"

definition pipe_work :: "string \<Rightarrow> pipe_state \<Rightarrow> nat" where
  "pipe_work arg s = 3 * length (unsent arg (pp_parent s)) + 2 * length (pp_buffer s) + child_work (pp_child s) + parent_work (pp_parent s)"

lemma pipe_step_work: "pipe_step cap True False arg s t \<Longrightarrow> pipe_inv arg s \<Longrightarrow> pipe_work arg t < pipe_work arg s"
  by (induction rule: pipe_step.induct) (auto simp: pipe_work_def pipe_inv_def)

interpretation pipe: decreasing_work "pipe_step cap True False arg" "pipe_inv arg" "pipe_work arg" for cap arg
  by unfold_locales (auto intro: pipe_step_inv pipe_step_work)

lemma pipe_goes_on:
  assumes "pipe_inv arg s" "0 < cap" "\<And>t. \<not> pipe_step cap True False arg s t"
  shows "pp_parent s = ParentExited True \<and> pp_child s = ChildExited True"
proof (cases "pp_child s")
  case ChildStarts
  with child_starts assms(3) show ?thesis by blast
next
  case (ChildWrites d)
  with child_writes assms(3) show ?thesis by blast
next
  case (ChildExited ok)
  with assms(1) have inv: "ok" "\<not> pp_parent_end s" by (auto simp: pipe_inv_def)
  show ?thesis
  proof (cases "pp_parent s")
    case ParentWaits
    with parent_exits [of s ok] ChildExited assms(3) show ?thesis by blast
  qed (use assms(1) inv ChildExited in \<open>auto simp: pipe_inv_def\<close>)
next
  case ChildReads
  show ?thesis
  proof (cases "pp_buffer s")
    case (Cons c cs)
    with child_reads [OF ChildReads, of 1 cap True False arg] assms(3) show ?thesis by (simp add: BUF_SIZE_def)
  next
    case Nil
    have no_end: "pp_parent_end s"
    proof (rule ccontr)
      assume "\<not> pp_parent_end s"
      moreover have "\<not> pp_child_end s" using assms(1) ChildReads by (simp add: pipe_inv_def)
      ultimately show False using child_ends [OF ChildReads Nil] assms(3) by blast
    qed
    show ?thesis
    proof (cases "pp_parent s")
      case ParentStarts
      with parent_starts assms(3) show ?thesis by blast
    next
      case (ParentWrites rest)
      show ?thesis
      proof (cases rest)
        case Nil
        with parent_closes ParentWrites assms(3) show ?thesis by blast
      next
        case (Cons r rs)
        with parent_writes [OF ParentWrites, of 1 cap True False arg] assms(2,3) Nil show ?thesis by simp
      qed
    qed (use no_end assms(1) in \<open>auto simp: pipe_inv_def\<close>)
  qed
qed

text \<open>
  With its standard streams in order \<open>simple_pipe\<close> always ends: parent and child make boundedly many steps however they
  interleave and however small the pipe is, and when none is left both have exited and the argument has been printed, with a line
  end.
\<close>

theorem pipe_delivers:
  assumes "(pipe_step cap True False arg ^^ n) pipe_start s" "0 < cap"
  shows "n \<le> 3 * length arg + 5 \<and>
    ((\<nexists>t. pipe_step cap True False arg s t) \<longrightarrow> pp_stdout s = arg @ [CHR 0x0A] \<and>
      pp_parent s = ParentExited True \<and> pp_child s = ChildExited True)"
proof -
  have start: "pipe_inv arg pipe_start" by (simp add: pipe_inv_def pipe_start_def)
  from pipe.along_n [OF assms(1) start] have inv: "pipe_inv arg s" .
  from pipe.steps_bounded [OF assms(1) start] have "n \<le> 3 * length arg + 5" by (simp add: pipe_work_def pipe_start_def)
  with pipe_goes_on [OF inv assms(2)] inv show ?thesis by (auto simp: pipe_inv_def)
qed

text \<open>
  But when the child cannot write, it exits, and a parent whose argument the pipe does not hold waits for ever: it holds a read
  end itself, which it meant to close, so that its write neither fails nor goes on.
\<close>

theorem pipe_hangs:
  assumes "0 < cap" "cap + 1 < length arg"
  shows "\<exists>s rest. reaches (pipe_step cap True True arg) pipe_start s \<and> pp_parent s = ParentWrites rest \<and> rest \<noteq> [] \<and>
    (\<nexists>t. pipe_step cap True True arg s t)"
proof -
  let ?step = "pipe_step cap True True arg"
  from assms(2) obtain c cs where arg: "arg = c # cs" by (cases arg) auto
  let ?a = "pipe_start\<lparr>pp_parent := ParentWrites arg\<rparr>"
  let ?b = "?a\<lparr>pp_buffer := [c], pp_parent := ParentWrites cs\<rparr>"
  let ?c = "?b\<lparr>pp_child_end := False, pp_child := ChildReads\<rparr>"
  let ?d = "?c\<lparr>pp_buffer := [], pp_child := ChildWrites [c]\<rparr>"
  let ?e = "?d\<lparr>pp_child := ChildExited False\<rparr>"
  let ?f = "?e\<lparr>pp_buffer := take cap cs, pp_parent := ParentWrites (drop cap cs)\<rparr>"
  have a: "?step pipe_start ?a" using parent_starts [of pipe_start cap True True arg] by (simp add: pipe_start_def)
  have b: "?step ?a ?b" using parent_writes [of ?a arg 1 cap True True arg] assms by (simp add: arg pipe_start_def)
  have c: "?step ?b ?c" by (rule child_starts) (simp add: pipe_start_def)
  have d: "?step ?c ?d" using child_reads [of ?c 1 cap True True arg] by (simp add: BUF_SIZE_def)
  have e: "?step ?d ?e" using child_fails [of True ?d "[c]" 0 cap True arg] by (simp add: pipe_start_def)
  have f: "?step ?e ?f" using parent_writes [of ?e cs cap cap True True arg] assms by (simp add: arg)
  note more = reaches_step [where step = ?step]
  note reach = more [OF more [OF more [OF reaches_refl a] b] c]
  note reach = more [OF more [OF more [OF reach d] e] f]
  have "drop cap cs \<noteq> []" using assms(2) by (simp add: arg)
  moreover have "\<not> ?step ?f t" for t
  proof
    assume "?step ?f t"
    then show False using assms(2) by cases (auto simp: arg)
  qed
  ultimately show ?thesis using reach by (intro exI [of _ ?f] exI [of _ "drop cap cs"]) simp
qed

end
