(* ===== verification/Socket_Programs.thy ===== *)
theory Socket_Programs
  imports Afina_Prelude "HOL-Library.Sublist"
begin

text \<open>
  The blocking socket examples of the course material (\<open>materials/04-network-blocking/examples\<close>): \<open>server.c\<close>,
  which greets everybody, \<open>client.c\<close>, which prints what it is sent, and \<open>server2.c\<close>, whose
  children print what their clients send. Texts in C end with a zero byte; reading an array past its end is undefined.
\<close>

section \<open>Texts in arrays\<close>

definition zero_byte :: char where
  "zero_byte = CHR 0x00"

text \<open>An array of \<open>sz\<close> zero bytes into which \<open>d\<close> has been read, and the text that \<open>printf\<close> takes from it.\<close>

definition read_into :: "nat \<Rightarrow> string \<Rightarrow> string option" where
  "read_into sz d = (if length d \<le> sz then Some (d @ replicate (sz - length d) zero_byte) else None)"

definition text_in :: "string \<Rightarrow> string option" where
  "text_in array = (if zero_byte \<in> set array then Some (takeWhile (\<lambda>c. c \<noteq> zero_byte) array) else None)"

definition printed_text :: "nat \<Rightarrow> string \<Rightarrow> string option" where
  "printed_text sz d = do { array \<leftarrow> read_into sz d; text_in array }"

lemma printed_text_cases:
  "printed_text sz d = (if length d < sz \<or> length d = sz \<and> zero_byte \<in> set d
    then Some (takeWhile (\<lambda>c. c \<noteq> zero_byte) d) else None)"
proof (cases "length d < sz")
  case True
  then have "read_into sz d = Some (d @ zero_byte # replicate (sz - length d - 1) zero_byte)"
    by (simp add: read_into_def) (metis Suc_diff_Suc diff_Suc_1 replicate_Suc)
  with True show ?thesis by (auto simp: printed_text_def text_in_def takeWhile_append takeWhile_eq_all_conv [THEN iffD2])
qed (auto simp: printed_text_def read_into_def text_in_def)

section \<open>The greeting\<close>

text \<open>\<open>server.c\<close> sends the text with its zero byte to every socket that \<open>accept\<close> returns, and closes it.\<close>

definition greeting :: string where
  "greeting = ''HELLO!'' @ [CHR 0x0D, CHR 0x0A]"

fun greet_loop :: "nat option list \<Rightarrow> (nat \<times> string) list" where
  "greet_loop [] = []"
| "greet_loop (None # as) = greet_loop as"
| "greet_loop (Some fd # as) = (fd, greeting @ [zero_byte]) # greet_loop as"

text \<open>\<open>client.c\<close> prints the text in an array of 100 bytes after one \<open>read\<close>, which may have failed.\<close>

definition client_main :: "string option \<Rightarrow> string option" where
  "client_main r = printed_text 100 (case r of Some d \<Rightarrow> d | None \<Rightarrow> [])"

lemma greeting_no_zero: "zero_byte \<notin> set greeting" "length greeting = 8"
  by (simp_all add: greeting_def zero_byte_def)

text \<open>
  Whatever part of the greeting arrives with the first \<open>read\<close>, the client prints that part without the zero byte, and its behaviour
  is defined.
\<close>

theorem greeting_printed:
  assumes "(fd, sent) \<in> set (greet_loop as)"
  shows "client_main (Some (take n sent)) = Some (take n greeting)"
proof -
  have sent: "sent = greeting @ [zero_byte]" using assms by (induction as rule: greet_loop.induct) auto
  have no: "takeWhile (\<lambda>c. c \<noteq> zero_byte) (take n greeting) = take n greeting"
    using greeting_no_zero(1) by (auto simp: takeWhile_eq_all_conv dest: in_set_takeD)
  then have "takeWhile (\<lambda>c. c \<noteq> zero_byte) (take n sent) = take n greeting"
    by (cases "n - 8") (simp_all add: sent greeting_no_zero(2) takeWhile_append)
  moreover have "length (take n sent) < 100" by (simp add: sent greeting_no_zero(2))
  ultimately show ?thesis by (simp add: client_main_def printed_text_cases)
qed

section \<open>The server that prints\<close>

text \<open>
  A child of \<open>server2.c\<close>: the results of \<open>read\<close>, \<open>None\<close> for an error, which ends the loop as 0 bytes do. It asks for
  1024 bytes although the array has 100.
\<close>

fun child_loop :: "string option list \<Rightarrow> string option" where
  "child_loop [] = Some []"
| "child_loop (None # rs) = Some []"
| "child_loop (Some d # rs) =
     (if d = [] then Some (''client disconnected'' @ [CHR 0x0A])
      else do { line \<leftarrow> printed_text 100 d; rest \<leftarrow> child_loop rs; Some (''-->'' @ line @ CHR 0x0A # rest) })"

definition fits_array :: "string \<Rightarrow> bool" where
  "fits_array d \<longleftrightarrow> length d < 100 \<or> length d = 100 \<and> zero_byte \<in> set d"

fun received :: "string option list \<Rightarrow> string list" where
  "received [] = []"
| "received (r # rs) = (if r = None \<or> r = Some [] then [] else the r # received rs)"

text \<open>
  What the child does is defined exactly if every \<open>read\<close> before the end brings less than 100 bytes, or 100 with a zero byte among
  them, and then it prints a line for each of them.
\<close>

theorem child_prints:
  shows "child_loop rs \<noteq> None \<longleftrightarrow> (\<forall>d \<in> set (received rs). fits_array d)"
    and "child_loop rs = Some out \<Longrightarrow>
      prefix (concat (map (\<lambda>d. ''-->'' @ takeWhile (\<lambda>c. c \<noteq> zero_byte) d @ [CHR 0x0A]) (received rs))) out"
proof -
  have defined: "printed_text 100 d = (if fits_array d then Some (takeWhile (\<lambda>c. c \<noteq> zero_byte) d) else None)" for d
    by (simp add: printed_text_cases fits_array_def)
  show "child_loop rs \<noteq> None \<longleftrightarrow> (\<forall>d \<in> set (received rs). fits_array d)"
    by (induction rs rule: child_loop.induct) (auto simp: defined split: Option.bind_split)
  show "child_loop rs = Some out \<Longrightarrow>
      prefix (concat (map (\<lambda>d. ''-->'' @ takeWhile (\<lambda>c. c \<noteq> zero_byte) d @ [CHR 0x0A]) (received rs))) out"
    by (induction rs arbitrary: out rule: child_loop.induct) (auto simp: defined bind_eq_Some_conv split: if_splits)
qed

end
