(* ===== verification/Spec2Isabelle.thy ===== *)
theory Spec2Isabelle
  imports Blocking_System Uninterrupted_Reads Coroutine_Facts Logging_Facts
    Event_Loop Epoll_Workers_Facts Server_Setup Application Echo_Server Epoll_Example Shared_Lock
    Shared_Counter Latch Lock_Programs Pipe_Programs Socket_Programs
begin

text \<open>
  Afina (\<open>src/Multithreading C++/afina\<close>) is a caching server for a subset of the memcached text
  protocol, the practical part of a course on multithreading. A client sends command lines and
  data blocks over TCP; the parser turns them into commands, the commands work on a storage of
  bounded size with least-recently-used eviction, and their responses go back over the connection.
  Four interchangeable servers do the network part: blocking or epoll based, single- or
  multi-threaded. The blocking multi-threaded one hands connections to a thread pool. A logging
  service and a coroutine engine complete the program; \<open>main.cpp\<close> puts it together.

  \<^bold>\<open>Conventions.\<close> File names below are relative to that directory. A result of type \<open>'a option\<close>
  is \<open>None\<close> where the code has no defined outcome: a null or dangling pointer, an access past the
  end, or a call that never returns; exceptions are values of sum types or of small datatypes.
  \<open>size_t\<close> and \<open>unsigned\<close> are words of 64 and 32 bits and wrap around; \<open>char\<close> is a byte. What the
  kernel does is an input: results of system calls, events of \<open>epoll_wait\<close>, the sizes of reads and
  writes, the clock. Text that goes only to the log or the console is left out.

  \<^bold>\<open>Shared theory.\<close> \<open>Afina_Prelude\<close> has the machine types and the lemmas on lists, maps and words.
  \<open>Transition_Systems\<close> has the states a step relation reaches and four contracts of a component with
  threads, each with what follows for whole runs: an invariant that every step keeps, a quantity that
  every step conserves, work that every step decreases, and a refinement mapping to an abstract
  system. The locked storage, its clients, the thread pool, the blocking server that consists of them, the
  epoll connections and workers, their acceptors and the shared mutex are interpretations of them.

  \<^bold>\<open>Storage\<close> (\<open>src/storage\<close>, \<open>include/afina/Storage.h\<close>). \<open>Cache_Spec\<close> is the abstract cache, a list of
  associations with the most recent one first. \<open>Lru_Heap\<close> and \<open>Simple_LRU\<close> are \<open>SimpleLRU\<close> itself
  on a heap of nodes with owning \<open>next\<close> and raw \<open>prev\<close> pointers, one definition per member function;
  \<open>std::map\<close> is a finite map. \<open>Lru_Runs\<close> proves the simulation: any sequence of calls refines the
  abstract cache as long as no value is overwritten by a shorter one, which is undefined behaviour;
  the memory bound, eviction, destruction. \<open>Storage_Interface\<close> is the virtual interface as a record
  of operations with the locales of what its clients rely on, interpreted on \<open>SimpleLRU\<close> and, in
  \<open>Thread_Safe_LRU\<close>, on the locked storage, whose interleavings are shown linearizable.

  \<^bold>\<open>Commands\<close> (\<open>src/execute\<close>): \<open>Commands\<close> has one definition per \<open>Execute\<close>, \<open>Command_Facts\<close> what they do
  on any storage that meets the interface. \<open>Concurrent_Commands\<close> is the commands of several connections on
  the locked storage: a refinement from the steps of the lock to whole storage calls, linearizability
  of the commands that make one call, and the update that two concurrent \<open>append\<close> lose.
  \<open>Concurrent_Connections\<close> puts the threads of the multi-threaded blocking server with their connection loops on top
  of it: one order of commands explains what all clients get. \<open>Connections_Progress\<close> shows that such a
  server never deadlocks: its runs are finite and end with every command answered, unless a value is
  overwritten by a shorter one. \<open>Blocking_System\<close> composes them with the thread pool, the acceptor
  and the main thread to the whole server from \<open>accept\<close> to the return of \<open>Join\<close>: it refines its parts, every shutdown ends,
  and after \<open>Join\<close> nothing runs any more.

  \<^bold>\<open>Protocol\<close> (\<open>src/protocol\<close>): \<open>Protocol_Parser\<close> is the state machine character by character with the
  exceptions it can throw, \<open>Parser_Facts\<close> its round trips, its independence of the way the input is
  cut, and the exceptions that can and cannot occur.

  \<^bold>\<open>Sessions and servers\<close> (\<open>src/network\<close>): \<open>Session\<close> is the loop over a buffer the four servers contain,
  \<open>Session_Bytes\<close> its equivalence with a machine that takes one byte at a time, \<open>Requests\<close> its separation into the commands
  in the bytes and their execution. On it rest
  \<open>Blocking_Servers\<close> (acceptor and read loops of the blocking servers, connections isolated from
  each other, an end-to-end property), \<open>Nonblocking_Connection\<close> and \<open>Nonblocking_Streams\<close> (the
  connections of the epoll servers, whose bytes out are the responses in order under any short reads
  and writes, and up to the first exception those of the bytes in). \<open>Concurrent_Epoll\<close> has the connections of the multi-threaded epoll server in
  steps that interleave on the locked storage, and shows that one order of commands explains what all clients
  are written; \<open>Uninterrupted_Reads\<close> that a worker's own steps compute \<open>DoRead\<close>, and nothing else, when no other
  thread comes in between. \<open>Event_Loop\<close> is the single-threaded event loop, \<open>Epoll_Workers\<close> and
  \<open>Epoll_Workers_Facts\<close> the multi-threaded one as a transition system, in which accepting is four steps and
  \<open>DeleteConnection\<close> three and addresses are used again, with its memory safety, the connection that \<open>conns\<close> can
  lose, and the race of its acceptors when it stops. \<open>Server_Setup\<close> has \<open>Start\<close>, \<open>Stop\<close> and \<open>Join\<close> of the four
  with the descriptors and threads they leave when a system call fails or a thread cannot be created, and the acceptor
  loop that feeds the thread pool.

  \<^bold>\<open>Thread pool\<close> (\<open>src/concurrency\<close>): \<open>Executor\<close> has the critical sections as functions and the pool with
  its threads as a step relation, \<open>Executor_Facts\<close> the counters and bounds, order and completeness
  of the tasks, and the termination of every shutdown with an explicit bound on its steps.

  \<^bold>\<open>Coroutines\<close> (\<open>src/coroutine\<close>): \<open>Coroutine\<close> has the engine on a heap of contexts with the bytes of the stack;
  \<open>run\<close>, \<open>yield\<close>, \<open>sched\<close> and the end of a routine contain their calls of \<open>Store\<close> and \<open>Restore\<close>.
  \<open>Coroutine_Facts\<close> shows that it refines a scheduler on a plain list when the compiler keeps \<open>pc\<close> in a register over
  \<open>Store\<close>, that it is undefined when \<open>Store\<close> overwrites \<open>pc\<close>, and what \<open>Store\<close> and \<open>Restore\<close> do to the stack.

  \<^bold>\<open>Logging and application\<close> (\<open>src/logging\<close>, \<open>src/main.cpp\<close>): \<open>Logging\<close> and \<open>Logging_Facts\<close>, the
  construction of sinks and loggers, lookup by dotted names, patterns, and the worklist that
  reopens files; \<open>Application\<close>, configuration and the life of the process: the order of the service calls, what an
  exception in any of them leads to, and the proof that the logging configuration it builds is valid.

  \<^bold>\<open>Course material\<close> (\<open>materials\<close>): \<open>Echo_Server\<close> is the epoll echo server with its event loop, whose clients do not
  disturb each other, \<open>Epoll_Example\<close> the edge-triggered program that prints what it reads, \<open>Shared_Mutex\<close> the
  readers-writer mutex, with exclusion and absence of missed notifications for any number of
  threads below \<open>2 ^ 31 - 1\<close>. \<open>Shared_Lock\<close> is its RAII wrapper, over any mutex that meets
  the locale of shared ownership, with the account of every lock that wrappers hold. \<open>Shared_Counter\<close> is a
  counter used by threads through the locale of readers-writer locks, which the mutex meets: it is
  linearizable. \<open>Latch\<close> is the countdown latch with the threads that wait for it, \<open>Lock_Programs\<close> three programs
  that lock two mutexes at once, share a map under a mutex, and hand data over through a condition variable, with their
  results; the first and the last are shown free of deadlock.
  \<open>Pipe_Programs\<close> is \<open>cat\<close> and the program that sends its argument to a child through a pipe, which delivers it unless the
  child fails, when the parent may wait for ever; \<open>Socket_Programs\<close> the socket examples, of which one overruns its array.

  \<^bold>\<open>Bounds and fuel.\<close> Loops that may not end are \<open>partial_function\<close>s (the eviction loop and the loop of
  the destructor), and that they return is proved. Recursions that are not structural come with a
  measure. \<open>Event_Loop.OnRun\<close> takes the number of waits as fuel, and its property holds for all of
  them. Everything else recurses over its input.

  \<^bold>\<open>Not modelled.\<close> The allocator and three headers of \<open>concurrency\<close> are empty stubs; the other programs
  under \<open>materials\<close> demonstrate single calls of the thread library and the kernel; third-party code (spdlog, cxxopts, googletest,
  backward-cpp) is a parameter where it is used; tests, build files and the course on information
  retrieval are no part of the program. Within the modelled parts the following is left out:
  signal masks and addresses of sockets beyond whether the calls succeed, allocation failure,
  the registers saved by \<open>setjmp\<close>, memory orders (an atomic or a critical section is one step; in
  \<open>Epoll_Workers\<close>, which follows the life of connection objects, a handled event is one step, an operation of the
  \<open>std::set\<close> of connections is one too although it is not always locked, and sockets are numbered as they
  are accepted, without the kernel's reuse of descriptors), \<open>run\<close> being set again by an acceptor that starts after a stop (in
  \<open>Concurrent_Epoll\<close>; \<open>acc_step\<close> has it), the overflow of \<open>int\<close> when one \<open>writev\<close> offers \<open>2 ^ 31\<close> bytes, and
  notifications of the thread pool's condition variable, since every wait may end at any time.
\<close>

end
